(* ===== verification/Tcode_Prelude.thy ===== *)
theory Tcode_Prelude
  imports Main "HOL-Library.Word" "HOL-Library.Signed_Division"
begin

text \<open>
  Shared vocabulary of the development: the machine types of the C++ sources on an LP64
  platform, their conversions with the wrap-around written out, little-endian object
  representations, updates of a run of list elements (what \<open>memcpy\<close> and \<open>memmove\<close> do), and
  the generic lemmas the component theories use.
\<close>

unbundle bit_operations_syntax

named_theorems c_int \<open>conversions between the integer types of the sources\<close>
named_theorems bytes \<open>little-endian object representations\<close>

type_synonym byte = "8 word"

text \<open>A system call was interrupted by a signal.\<close>

definition EINTR :: int where "EINTR = 4"

section \<open>Integer conversions\<close>

text \<open>
  A value of an unsigned type (\<open>std::size_t\<close>, \<open>uint64_t\<close>) is a \<^typ>\<open>nat\<close> below \<open>2 ^ 64\<close>,
  a value of a signed type an \<^typ>\<open>int\<close> in its range. A conversion reduces modulo the width.
\<close>

definition to_size :: "int \<Rightarrow> nat" where
  "to_size x = nat (x mod 2 ^ 64)"

definition to_i32 :: "int \<Rightarrow> int" where
  "to_i32 x = (x + 2 ^ 31) mod 2 ^ 32 - 2 ^ 31"

definition to_i64 :: "int \<Rightarrow> int" where
  "to_i64 x = (x + 2 ^ 63) mod 2 ^ 64 - 2 ^ 63"

definition to_u16 :: "int \<Rightarrow> nat" where
  "to_u16 x = nat (x mod 2 ^ 16)"

definition to_u32 :: "int \<Rightarrow> nat" where
  "to_u32 x = nat (x mod 2 ^ 32)"

definition size_sub :: "nat \<Rightarrow> nat \<Rightarrow> nat" where
  "size_sub a b = to_size (int a - int b)"

definition size_add :: "nat \<Rightarrow> nat \<Rightarrow> nat" where
  "size_add a b = (a + b) mod 2 ^ 64"

text \<open>\<open>p += n\<close> for a \<open>std::size_t p\<close> and an \<open>int n\<close>: \<open>n\<close> is converted first.\<close>

definition size_add_int :: "nat \<Rightarrow> int \<Rightarrow> nat" where
  "size_add_int a n = to_size (int a + n)"

lemma to_size_less [simp]: "to_size x < 2 ^ 64"
  by (simp add: to_size_def nat_less_iff)

lemma to_size_id [c_int]: "0 \<le> x \<Longrightarrow> x < 2 ^ 64 \<Longrightarrow> to_size x = nat x"
  by (simp add: to_size_def)

lemma to_i32_id [c_int]: "- (2 ^ 31) \<le> x \<Longrightarrow> x < 2 ^ 31 \<Longrightarrow> to_i32 x = x"
  by (simp add: to_i32_def)

lemma to_i64_id [c_int]: "- (2 ^ 63) \<le> x \<Longrightarrow> x < 2 ^ 63 \<Longrightarrow> to_i64 x = x"
  by (simp add: to_i64_def)

lemma to_i32_range: "- (2 ^ 31) \<le> to_i32 x \<and> to_i32 x < 2 ^ 31"
proof -
  have "0 \<le> (x + 2 ^ 31) mod 2 ^ 32 \<and> (x + 2 ^ 31) mod 2 ^ 32 < (2 :: int) ^ 32"
    by simp
  then show ?thesis by (simp add: to_i32_def)
qed

lemma to_i64_range: "- (2 ^ 63) \<le> to_i64 x \<and> to_i64 x < 2 ^ 63"
proof -
  have "0 \<le> (x + 2 ^ 63) mod 2 ^ 64 \<and> (x + 2 ^ 63) mod 2 ^ 64 < (2 :: int) ^ 64"
    by simp
  then show ?thesis by (simp add: to_i64_def)
qed

lemma size_sub_le [c_int]: "b \<le> a \<Longrightarrow> a < 2 ^ 64 \<Longrightarrow> size_sub a b = a - b"
  by (simp add: size_sub_def to_size_def)

lemma size_add_int_id [c_int]:
  "0 \<le> int a + n \<Longrightarrow> int a + n < 2 ^ 64 \<Longrightarrow> size_add_int a n = nat (int a + n)"
  by (simp add: size_add_int_def to_size_def)

lemma size_add_id [c_int]: "a + b < 2 ^ 64 \<Longrightarrow> size_add a b = a + b"
  by (simp add: size_add_def)

text \<open>Truncating division on numbers that are not negative.\<close>

lemma sdiv_nonneg: "0 \<le> a \<Longrightarrow> 0 < b \<Longrightarrow> a sdiv b = a div b" for a b :: int
  by (simp add: signed_divide_int_def sgn_if)

lemma smod_nonneg: "0 \<le> a \<Longrightarrow> 0 < b \<Longrightarrow> a smod b = a mod b" for a b :: int
  by (simp add: signed_modulo_int_def sgn_if)

section \<open>Runs of list elements\<close>

text \<open>
  \<open>put_at i ys xs\<close> is \<open>xs\<close> with the elements from index \<open>i\<close> on replaced by \<open>ys\<close>;
  \<open>seg i n xs\<close> is the run of \<open>n\<close> elements from index \<open>i\<close>.
\<close>

definition put_at :: "nat \<Rightarrow> 'a list \<Rightarrow> 'a list \<Rightarrow> 'a list" where
  "put_at i ys xs = take i xs @ ys @ drop (i + length ys) xs"

definition seg :: "nat \<Rightarrow> nat \<Rightarrow> 'a list \<Rightarrow> 'a list" where
  "seg i n xs = take n (drop i xs)"

lemma length_seg [simp]: "length (seg i n xs) = min n (length xs - i)"
  by (simp add: seg_def)

lemma length_put_at: "i + length ys \<le> length xs \<Longrightarrow> length (put_at i ys xs) = length xs"
  by (simp add: put_at_def)

lemma put_at_put_at:
  "i + length xs \<le> length zs \<Longrightarrow> put_at (i + length xs) ys (put_at i xs zs) = put_at i (xs @ ys) zs"
  by (cases xs) (auto simp: put_at_def min_def ac_simps)

lemma put_at_Nil [simp]: "put_at i [] xs = xs"
  by (simp add: put_at_def)

lemma seg_put_at_same:
  "i + length ys \<le> length xs \<Longrightarrow> seg i (length ys) (put_at i ys xs) = ys"
  by (simp add: seg_def put_at_def)

lemma seg_0_take [simp]: "seg 0 n xs = take n xs"
  by (simp add: seg_def)

lemma seg_zero [simp]: "seg i 0 xs = []"
  by (simp add: seg_def)

lemma seg_append_adjacent: "seg i (m + n) xs = seg i m xs @ seg (i + m) n xs"
  by (simp add: seg_def take_add add.commute)

lemma take_seg: "take k (seg i n xs) = seg i (min k n) xs"
  by (simp add: seg_def)

lemma drop_seg: "drop k (seg i n xs) = seg (i + k) (n - k) xs"
  by (simp add: seg_def drop_take add.commute)

lemma seg_put_at_before:
  "i + n \<le> j \<Longrightarrow> j \<le> length xs \<Longrightarrow> seg i n (put_at j ys xs) = seg i n xs"
  by (simp add: seg_def put_at_def drop_take take_drop [symmetric])

lemma seg_put_at_extend:
  assumes "i \<le> j" and "j + length ys \<le> length xs"
  shows "seg i (j - i + length ys) (put_at j ys xs) = seg i (j - i) xs @ ys"
proof -
  have "seg i (j - i + length ys) (put_at j ys xs) =
      seg i (j - i) (put_at j ys xs) @ seg j (length ys) (put_at j ys xs)"
    using assms(1) by (simp only: seg_append_adjacent) simp
  then show ?thesis
    using assms by (simp add: seg_put_at_before seg_put_at_same)
qed

section \<open>Little-endian object representations\<close>

primrec le_bytes :: "nat \<Rightarrow> nat \<Rightarrow> byte list" where
  "le_bytes 0 v = []"
| "le_bytes (Suc n) v = word_of_nat (v mod 256) # le_bytes n (v div 256)"

primrec le_val :: "byte list \<Rightarrow> nat" where
  "le_val [] = 0"
| "le_val (b # bs) = unat b + 256 * le_val bs"

lemma length_le_bytes [simp]: "length (le_bytes n v) = n"
  by (induction n arbitrary: v) auto

lemma unat_byte_mod: "unat (word_of_nat (v mod 256) :: byte) = v mod 256"
  by (simp add: unat_of_nat)

lemma le_val_le_bytes [bytes]: "le_val (le_bytes n v) = v mod 256 ^ n"
proof (induction n arbitrary: v)
  case (Suc n)
  have "le_val (le_bytes (Suc n) v) = v mod 256 + 256 * (v div 256 mod 256 ^ n)"
    by (simp add: Suc.IH unat_byte_mod)
  also have "\<dots> = v mod 256 ^ Suc n"
    by (simp add: mod_mult2_eq)
  finally show ?case .
qed simp

lemma le_val_less: "le_val bs < 256 ^ length bs"
proof (induction bs)
  case (Cons b bs)
  have "unat b < 256"
    using unsigned_less [of b] by simp
  with Cons show ?case by simp
qed simp

lemma le_bytes_le_val [bytes]: "le_bytes (length bs) (le_val bs) = bs"
proof (induction bs)
  case (Cons b bs)
  have "unat b < 256"
    using unsigned_less [of b] by simp
  then have "(unat b + 256 * le_val bs) mod 256 = unat b"
    and "(unat b + 256 * le_val bs) div 256 = le_val bs"
    by simp_all
  with Cons show ?case by simp
qed simp

section \<open>Options as a failure monad\<close>

text \<open>
  An operation that would dereference a null or dead pointer returns \<^const>\<open>None\<close>; sequencing
  is \<^const>\<open>Option.bind\<close>.
\<close>

lemma bind_eq_Some_iff: "Option.bind m f = Some r \<longleftrightarrow> (\<exists>x. m = Some x \<and> f x = Some r)"
  by (cases m) auto

end
