(* ===== verification/Slist_Queue.thy ===== *)
theory Slist_Queue
  imports Tcode_Prelude
begin

text \<open>
  The intrusive singly linked queue of \<open>include/tcode/slist.hpp\<close>. The \<open>next\<close> pointers of all
  nodes are a store \<open>nxt\<close>; a queue is the pair of its \<open>_head\<close> and \<open>_tail\<close> pointers. A null
  dereference is \<^const>\<open>None\<close>. The locale \<open>fifo\<close> states what a client of the queue relies on,
  and the pointer code is an interpretation of it.
\<close>

type_synonym 'n store = "'n \<Rightarrow> 'n option"

record 'n queue =
  q_head :: "'n option"
  q_tail :: "'n option"

section \<open>The operations\<close>

text \<open>The constructor walks to the last node; on a cyclic chain it does not return.\<close>

partial_function (option) queue_last :: "'n store \<Rightarrow> 'n \<Rightarrow> 'n option" where
  "queue_last nxt t = (case nxt t of None \<Rightarrow> Some t | Some t' \<Rightarrow> queue_last nxt t')"

definition queue_ctor :: "'n store \<Rightarrow> 'n option \<Rightarrow> 'n queue option" where
  "queue_ctor nxt h =
     (case h of
        None \<Rightarrow> Some \<lparr>q_head = None, q_tail = None\<rparr>
      | Some n \<Rightarrow> map_option (\<lambda>t. \<lparr>q_head = Some n, q_tail = Some t\<rparr>) (queue_last nxt n))"

definition queue_copy :: "'n queue \<Rightarrow> 'n queue" where
  "queue_copy q = \<lparr>q_head = q_head q, q_tail = q_tail q\<rparr>"

text \<open>Copy assignment overwrites both pointers of the target.\<close>

definition queue_assign :: "'n queue \<Rightarrow> 'n queue \<Rightarrow> 'n queue" where
  "queue_assign self rhs = self\<lparr>q_head := q_head rhs, q_tail := q_tail rhs\<rparr>"

text \<open>The moves return the new queue and what is left in the source.\<close>

definition queue_move :: "'n queue \<Rightarrow> 'n queue \<times> 'n queue" where
  "queue_move q =
     (\<lparr>q_head = q_head q, q_tail = q_tail q\<rparr>, q\<lparr>q_head := None, q_tail := None\<rparr>)"

definition queue_move_assign :: "'n queue \<Rightarrow> 'n queue \<Rightarrow> 'n queue \<times> 'n queue" where
  "queue_move_assign self q =
     (self\<lparr>q_head := q_head q, q_tail := q_tail q\<rparr>, q\<lparr>q_head := None, q_tail := None\<rparr>)"

definition push_back :: "'n \<Rightarrow> 'n store \<times> 'n queue \<Rightarrow> ('n store \<times> 'n queue) option" where
  "push_back n = (\<lambda>(nxt, q).
     if q_head q = None
     then Some (nxt(n := None), q\<lparr>q_head := Some n, q_tail := Some n\<rparr>)
     else (case q_tail q of
             None \<Rightarrow> None
           | Some t \<Rightarrow> Some (nxt(t := Some n, n := None), q\<lparr>q_tail := Some n\<rparr>)))"

definition push_front :: "'n \<Rightarrow> 'n store \<times> 'n queue \<Rightarrow> ('n store \<times> 'n queue) option" where
  "push_front n = (\<lambda>(nxt, q).
     if q_head q = None
     then Some (nxt, q\<lparr>q_head := Some n, q_tail := Some n\<rparr>)
     else Some (nxt(n := q_head q), q\<lparr>q_head := Some n\<rparr>))"

definition front :: "'n store \<times> 'n queue \<Rightarrow> 'n option" where
  "front = (\<lambda>(nxt, q). q_head q)"

definition pop_front :: "'n store \<times> 'n queue \<Rightarrow> ('n store \<times> 'n queue) option" where
  "pop_front = (\<lambda>(nxt, q).
     case q_head q of
       None \<Rightarrow> Some (nxt, q)
     | Some h \<Rightarrow>
         if q_head q = q_tail q
         then Some (nxt, q\<lparr>q_head := None, q_tail := None\<rparr>)
         else Some (nxt(h := None), q\<lparr>q_head := nxt h\<rparr>))"

definition queue_empty :: "'n store \<times> 'n queue \<Rightarrow> bool" where
  "queue_empty = (\<lambda>(nxt, q). q_head q = None)"

partial_function (option) queue_count :: "'n store \<Rightarrow> 'n option \<Rightarrow> int \<Rightarrow> int option" where
  "queue_count nxt p sz =
     (case p of None \<Rightarrow> Some sz | Some n \<Rightarrow> queue_count nxt (nxt n) (sz + 1))"

definition queue_size :: "'n store \<times> 'n queue \<Rightarrow> int option" where
  "queue_size = (\<lambda>(nxt, q). queue_count nxt (q_head q) 0)"

text \<open>\<open>splice\<close> returns the store, the grown queue and the emptied argument.\<close>

definition queue_splice ::
    "'n store \<Rightarrow> 'n queue \<Rightarrow> 'n queue \<Rightarrow> ('n store \<times> 'n queue \<times> 'n queue) option" where
  "queue_splice nxt self q =
     (if q_head q = None then Some (nxt, self, q)
      else if q_head self = None
      then Some (nxt, self\<lparr>q_head := q_head q, q_tail := q_tail q\<rparr>,
                 q\<lparr>q_head := None, q_tail := None\<rparr>)
      else (case q_tail self of
              None \<Rightarrow> None
            | Some t \<Rightarrow> Some (nxt(t := q_head q), self\<lparr>q_tail := q_tail q\<rparr>,
                               q\<lparr>q_head := None, q_tail := None\<rparr>)))"

section \<open>The interface: a first-in first-out queue\<close>

text \<open>
  The loop \<open>while (!q.empty()) { op = q.front(); q.pop_front(); ... }\<close> by which every client
  empties a queue, over any queue's operations; fuel bounds the number of rounds.
\<close>

fun drain :: "('s \<Rightarrow> 'a option) \<Rightarrow> ('s \<Rightarrow> 's option) \<Rightarrow> nat \<Rightarrow> 's \<Rightarrow> ('a list \<times> 's) option" where
  "drain fr pop 0 s = (case fr s of None \<Rightarrow> Some ([], s) | Some x \<Rightarrow> None)"
| "drain fr pop (Suc n) s =
     (case fr s of
        None \<Rightarrow> Some ([], s)
      | Some x \<Rightarrow> Option.bind (pop s) (\<lambda>s'. map_option (\<lambda>(xs, t). (x # xs, t)) (drain fr pop n s')))"

primrec push_all :: "('a \<Rightarrow> 's \<Rightarrow> 's option) \<Rightarrow> 'a list \<Rightarrow> 's \<Rightarrow> 's option" where
  "push_all push [] s = Some s"
| "push_all push (x # xs) s = Option.bind (push x s) (push_all push xs)"

locale fifo =
  fixes repr :: "'s \<Rightarrow> 'a list \<Rightarrow> bool"
    and push :: "'a \<Rightarrow> 's \<Rightarrow> 's option"
    and fr :: "'s \<Rightarrow> 'a option"
    and pop :: "'s \<Rightarrow> 's option"
  assumes repr_push: "repr s xs \<Longrightarrow> x \<notin> set xs \<Longrightarrow> \<exists>t. push x s = Some t \<and> repr t (xs @ [x])"
    and fr_Nil: "repr s [] \<Longrightarrow> fr s = None"
    and fr_Cons: "repr s (x # xs) \<Longrightarrow> fr s = Some x"
    and repr_pop: "repr s (x # xs) \<Longrightarrow> \<exists>t. pop s = Some t \<and> repr t xs"
begin

lemma push_all_repr:
  "repr s xs \<Longrightarrow> distinct (xs @ ys) \<Longrightarrow> \<exists>t. push_all push ys s = Some t \<and> repr t (xs @ ys)"
proof (induction ys arbitrary: s xs)
  case Nil
  then show ?case by simp
next
  case (Cons y ys)
  from Cons.prems obtain t where "push y s = Some t" and "repr t (xs @ [y])"
    using repr_push [of s xs y] by auto
  moreover from Cons.prems have "distinct ((xs @ [y]) @ ys)" by simp
  ultimately show ?case using Cons.IH [of t "xs @ [y]"] by auto
qed

lemma drain_repr:
  "repr s xs \<Longrightarrow> length xs \<le> n \<Longrightarrow> \<exists>t. drain fr pop n s = Some (xs, t) \<and> repr t []"
proof (induction xs arbitrary: s n)
  case Nil
  then show ?case by (cases n) (auto simp: fr_Nil)
next
  case (Cons x xs)
  from Cons.prems obtain m where n: "n = Suc m" and "length xs \<le> m"
    by (cases n) auto
  obtain t where "pop s = Some t" and "repr t xs"
    using repr_pop [OF Cons.prems(1)] by blast
  with Cons.IH [of t m] \<open>length xs \<le> m\<close> n fr_Cons [OF Cons.prems(1)] show ?case
    by auto
qed

lemma fifo_order:
  assumes "repr s []" and "distinct ys" and "length ys \<le> n"
  shows "\<exists>t u. push_all push ys s = Some t \<and> drain fr pop n t = Some (ys, u) \<and> repr u []"
  using push_all_repr [of s "[]" ys] drain_repr assms by fastforce

end

section \<open>Linked chains\<close>

primrec chain :: "'n store \<Rightarrow> 'n option \<Rightarrow> 'n list \<Rightarrow> bool" where
  "chain nxt p [] \<longleftrightarrow> p = None"
| "chain nxt p (x # xs) \<longleftrightarrow> p = Some x \<and> chain nxt (nxt x) xs"

definition queue_repr :: "'n store \<times> 'n queue \<Rightarrow> 'n list \<Rightarrow> bool" where
  "queue_repr = (\<lambda>(nxt, q) xs.
     chain nxt (q_head q) xs \<and> distinct xs \<and>
     q_tail q = (if xs = [] then None else Some (last xs)))"

lemma chain_upd_other: "n \<notin> set xs \<Longrightarrow> chain (nxt(n := v)) p xs = chain nxt p xs"
  by (induction xs arbitrary: p) auto

lemma chain_snoc:
  "chain nxt p (xs @ [t]) \<Longrightarrow> t \<notin> set xs \<Longrightarrow> n \<notin> set xs \<Longrightarrow> n \<noteq> t \<Longrightarrow>
     chain (nxt(t := Some n, n := None)) p (xs @ [t, n])"
  by (induction xs arbitrary: p) (auto simp: chain_upd_other)

lemma chain_append:
  "chain nxt p (xs @ [t]) \<Longrightarrow> chain nxt h ys \<Longrightarrow> t \<notin> set xs \<union> set ys \<Longrightarrow>
     chain (nxt(t := h)) p (xs @ [t] @ ys)"
  by (induction xs arbitrary: p) (auto simp: chain_upd_other)

lemma chain_Nil_iff: "chain nxt p xs \<Longrightarrow> p = None \<longleftrightarrow> xs = []"
  by (cases xs) auto

lemma queue_last_chain: "chain nxt (Some h) xs \<Longrightarrow> queue_last nxt h = Some (last xs)"
proof (induction xs arbitrary: h)
  case (Cons x xs)
  then show ?case
    by (cases xs) (auto simp: queue_last.simps [of nxt x])
qed simp

lemma queue_count_chain: "chain nxt p xs \<Longrightarrow> queue_count nxt p k = Some (k + int (length xs))"
proof (induction xs arbitrary: p k)
  case Nil
  then show ?case by (simp add: queue_count.simps)
next
  case (Cons x xs)
  then have "queue_count nxt p k = queue_count nxt (nxt x) (k + 1)"
    by (subst queue_count.simps) simp
  with Cons show ?case by simp
qed

lemma queue_repr_push_back:
  assumes "queue_repr s xs" and "n \<notin> set xs"
  shows "\<exists>t. push_back n s = Some t \<and> queue_repr t (xs @ [n])"
proof -
  obtain nxt q where s: "s = (nxt, q)" by force
  show ?thesis
  proof (cases xs rule: rev_cases)
    case Nil
    with assms show ?thesis by (auto simp: s queue_repr_def push_back_def)
  next
    case (snoc ys t)
    with assms s have "chain nxt (q_head q) (ys @ [t])" and "q_tail q = Some t"
      and "t \<notin> set ys" and "n \<notin> set ys" and "n \<noteq> t" and "distinct (ys @ [t])"
      by (auto simp: queue_repr_def)
    moreover from this have "q_head q \<noteq> None"
      using chain_Nil_iff [of nxt "q_head q"] by fastforce
    ultimately show ?thesis
      using chain_snoc [of nxt "q_head q" ys t n] by (auto simp: s snoc queue_repr_def push_back_def)
  qed
qed

lemma queue_repr_pop_front:
  assumes "queue_repr s (x # xs)"
  shows "\<exists>t. pop_front s = Some t \<and> queue_repr t xs"
  using assms
  by (cases s) (auto simp: queue_repr_def pop_front_def chain_upd_other split: if_splits)

interpretation sq: fifo queue_repr push_back front pop_front
proof unfold_locales
  show "\<exists>t. push_back x s = Some t \<and> queue_repr t (xs @ [x])"
    if "queue_repr s xs" "x \<notin> set xs" for s :: "'a store \<times> 'a queue" and xs x
    using that by (rule queue_repr_push_back)
  show "front s = None" if "queue_repr s []" for s :: "'a store \<times> 'a queue"
    using that by (auto simp: queue_repr_def front_def)
  show "front s = Some x" if "queue_repr s (x # xs)" for s :: "'a store \<times> 'a queue" and x xs
    using that by (auto simp: queue_repr_def front_def)
  show "\<exists>t. pop_front s = Some t \<and> queue_repr t xs"
    if "queue_repr s (x # xs)" for s :: "'a store \<times> 'a queue" and x xs
    using that by (rule queue_repr_pop_front)
qed

lemma queue_repr_splice:
  assumes "queue_repr (nxt, self) xs" and "queue_repr (nxt, q) ys" and "set xs \<inter> set ys = {}"
  shows "\<exists>nxt' self' q'. queue_splice nxt self q = Some (nxt', self', q') \<and>
           queue_repr (nxt', self') (xs @ ys) \<and> queue_repr (nxt', q') []"
proof (cases xs rule: rev_cases)
  case Nil
  with assms show ?thesis
    using chain_Nil_iff [of nxt "q_head q" ys] by (auto simp: queue_repr_def queue_splice_def)
next
  case (snoc zs t)
  have heads: "q_head q = None \<longleftrightarrow> ys = []" "q_head self \<noteq> None"
    using assms snoc chain_Nil_iff [of nxt "q_head q" ys] chain_Nil_iff [of nxt "q_head self" xs]
    by (auto simp: queue_repr_def)
  have "chain (nxt(t := q_head q)) (q_head self) (zs @ [t] @ ys)"
    using assms snoc by (intro chain_append) (auto simp: queue_repr_def)
  with heads assms snoc show ?thesis
    by (auto simp: queue_repr_def queue_splice_def)
qed

section \<open>Properties\<close>

text \<open>
  C21. The queue is first-in first-out: starting from an empty queue, pushing any list of
  distinct nodes with \<open>push_back\<close> and then emptying the queue with the \<open>front\<close> / \<open>pop_front\<close>
  loop visits exactly these nodes in the order they were pushed, never dereferences a null
  pointer, and leaves the queue empty; as many rounds as there are nodes are enough.
\<close>

theorem slist_fifo_order:
  assumes "queue_repr s []" and "distinct ys" and "length ys \<le> n"
  shows "\<exists>t u. push_all push_back ys s = Some t \<and> drain front pop_front n t = Some (ys, u) \<and>
           queue_repr u []"
  using assms by (rule sq.fifo_order)

theorem slist_fifo_order_witness:
  "\<exists>t u. push_all push_back [7, 3, 5 :: nat] (\<lambda>_. Some 9, \<lparr>q_head = None, q_tail = None\<rparr>) = Some t \<and>
     drain front pop_front 3 t = Some ([7, 3, 5], u) \<and> queue_repr u []"
  by (rule slist_fifo_order) (auto simp: queue_repr_def)

text \<open>
  The other operations agree with lists: on a queue that holds \<open>xs\<close>, \<open>size\<close> terminates with
  the length of \<open>xs\<close>, \<open>empty\<close> tells whether \<open>xs\<close> is empty, the constructor rebuilds the queue
  from its first node, and \<open>splice\<close> of a disjoint queue appends it and empties the argument.
\<close>

theorem slist_ops_refine_lists:
  assumes "queue_repr (nxt, self) xs" and "queue_repr (nxt, q) ys" and "set xs \<inter> set ys = {}"
  shows "queue_size (nxt, self) = Some (int (length xs)) \<and>
         queue_empty (nxt, self) = (xs = []) \<and>
         queue_ctor nxt (q_head self) = Some self \<and>
         (\<exists>nxt' self' q'. queue_splice nxt self q = Some (nxt', self', q') \<and>
            queue_repr (nxt', self') (xs @ ys) \<and> queue_repr (nxt', q') [])"
proof -
  have c: "chain nxt (q_head self) xs"
    and tl: "q_tail self = (if xs = [] then None else Some (last xs))"
    using assms(1) by (simp_all add: queue_repr_def)
  have "queue_ctor nxt (q_head self) = Some self"
  proof (cases xs)
    case Nil
    with c tl show ?thesis by (simp add: queue_ctor_def)
  next
    case (Cons x ys)
    then have "queue_last nxt x = Some (last xs)"
      using c by (intro queue_last_chain) simp
    with c tl Cons show ?thesis by (simp add: queue_ctor_def)
  qed
  moreover have "queue_size (nxt, self) = Some (int (length xs))"
    using queue_count_chain [OF c, of 0] by (simp add: queue_size_def)
  ultimately show ?thesis
    using queue_repr_splice [OF assms] chain_Nil_iff [OF c] by (simp add: queue_empty_def)
qed

theorem slist_ops_refine_lists_witness:
  "queue_size ((\<lambda>n. if n = 1 then Some 2 else None), \<lparr>q_head = Some 1, q_tail = Some (2 :: nat)\<rparr>)
     = Some (int (length [1, 2 :: nat]))"
  using slist_ops_refine_lists [of "\<lambda>n. if n = 1 then Some 2 else None"
      "\<lparr>q_head = Some 1, q_tail = Some (2 :: nat)\<rparr>" "[1, 2]" "\<lparr>q_head = Some 5, q_tail = Some 5\<rparr>" "[5]"]
  by (simp add: queue_repr_def)

text \<open>
  \<open>push_front\<close> on a non-empty queue puts the node first; on an empty queue it leaves the
  node's stale \<open>next\<close> pointer, so the result is a well-formed one-element queue exactly when
  that pointer was null already.
\<close>

theorem push_front_well_formed_iff:
  assumes "queue_repr (nxt, q) xs" and "n \<notin> set xs"
  shows "(\<exists>t. push_front n (nxt, q) = Some t \<and> queue_repr t (n # xs)) \<longleftrightarrow>
           (xs \<noteq> [] \<or> nxt n = None)"
proof (cases xs)
  case Nil
  with assms show ?thesis by (auto simp: queue_repr_def push_front_def)
next
  case (Cons y ys)
  have "chain (nxt(n := q_head q)) (q_head q) xs"
    using assms by (simp add: queue_repr_def chain_upd_other)
  with assms Cons show ?thesis by (auto simp: queue_repr_def push_front_def)
qed

theorem push_front_well_formed_iff_witness:
  "\<not> (\<exists>t. push_front 4 ((\<lambda>_. Some 9), \<lparr>q_head = None, q_tail = None\<rparr>) = Some t \<and>
         queue_repr t [4 :: nat])"
  using push_front_well_formed_iff [of "\<lambda>_. Some 9" "\<lparr>q_head = None, q_tail = None\<rparr>" "[]" "4 :: nat"]
  by (simp add: queue_repr_def)

end
