(* ===== verification/Crc32.thy ===== *)
theory Crc32
  imports Tcode_Prelude
begin

text \<open>
  The checksum of \<open>src/crc32.cpp\<close>: the table the source spells out, the table driven update,
  and the bit-serial CRC-32 of the reflected polynomial it implements. The state is a 32 bit
  word; the source's table entries are \<open>unsigned long\<close> values below \<open>2 ^ 32\<close>.
\<close>

section \<open>The program\<close>

definition crc_table :: "32 word list" where
  "crc_table = [
    0x00000000, 0x77073096, 0xEE0E612C, 0x990951BA, 0x076DC419, 0x706AF48F,
    0xE963A535, 0x9E6495A3, 0x0EDB8832, 0x79DCB8A4, 0xE0D5E91E, 0x97D2D988,
    0x09B64C2B, 0x7EB17CBD, 0xE7B82D07, 0x90BF1D91, 0x1DB71064, 0x6AB020F2,
    0xF3B97148, 0x84BE41DE, 0x1ADAD47D, 0x6DDDE4EB, 0xF4D4B551, 0x83D385C7,
    0x136C9856, 0x646BA8C0, 0xFD62F97A, 0x8A65C9EC, 0x14015C4F, 0x63066CD9,
    0xFA0F3D63, 0x8D080DF5, 0x3B6E20C8, 0x4C69105E, 0xD56041E4, 0xA2677172,
    0x3C03E4D1, 0x4B04D447, 0xD20D85FD, 0xA50AB56B, 0x35B5A8FA, 0x42B2986C,
    0xDBBBC9D6, 0xACBCF940, 0x32D86CE3, 0x45DF5C75, 0xDCD60DCF, 0xABD13D59,
    0x26D930AC, 0x51DE003A, 0xC8D75180, 0xBFD06116, 0x21B4F4B5, 0x56B3C423,
    0xCFBA9599, 0xB8BDA50F, 0x2802B89E, 0x5F058808, 0xC60CD9B2, 0xB10BE924,
    0x2F6F7C87, 0x58684C11, 0xC1611DAB, 0xB6662D3D, 0x76DC4190, 0x01DB7106,
    0x98D220BC, 0xEFD5102A, 0x71B18589, 0x06B6B51F, 0x9FBFE4A5, 0xE8B8D433,
    0x7807C9A2, 0x0F00F934, 0x9609A88E, 0xE10E9818, 0x7F6A0DBB, 0x086D3D2D,
    0x91646C97, 0xE6635C01, 0x6B6B51F4, 0x1C6C6162, 0x856530D8, 0xF262004E,
    0x6C0695ED, 0x1B01A57B, 0x8208F4C1, 0xF50FC457, 0x65B0D9C6, 0x12B7E950,
    0x8BBEB8EA, 0xFCB9887C, 0x62DD1DDF, 0x15DA2D49, 0x8CD37CF3, 0xFBD44C65,
    0x4DB26158, 0x3AB551CE, 0xA3BC0074, 0xD4BB30E2, 0x4ADFA541, 0x3DD895D7,
    0xA4D1C46D, 0xD3D6F4FB, 0x4369E96A, 0x346ED9FC, 0xAD678846, 0xDA60B8D0,
    0x44042D73, 0x33031DE5, 0xAA0A4C5F, 0xDD0D7CC9, 0x5005713C, 0x270241AA,
    0xBE0B1010, 0xC90C2086, 0x5768B525, 0x206F85B3, 0xB966D409, 0xCE61E49F,
    0x5EDEF90E, 0x29D9C998, 0xB0D09822, 0xC7D7A8B4, 0x59B33D17, 0x2EB40D81,
    0xB7BD5C3B, 0xC0BA6CAD, 0xEDB88320, 0x9ABFB3B6, 0x03B6E20C, 0x74B1D29A,
    0xEAD54739, 0x9DD277AF, 0x04DB2615, 0x73DC1683, 0xE3630B12, 0x94643B84,
    0x0D6D6A3E, 0x7A6A5AA8, 0xE40ECF0B, 0x9309FF9D, 0x0A00AE27, 0x7D079EB1,
    0xF00F9344, 0x8708A3D2, 0x1E01F268, 0x6906C2FE, 0xF762575D, 0x806567CB,
    0x196C3671, 0x6E6B06E7, 0xFED41B76, 0x89D32BE0, 0x10DA7A5A, 0x67DD4ACC,
    0xF9B9DF6F, 0x8EBEEFF9, 0x17B7BE43, 0x60B08ED5, 0xD6D6A3E8, 0xA1D1937E,
    0x38D8C2C4, 0x4FDFF252, 0xD1BB67F1, 0xA6BC5767, 0x3FB506DD, 0x48B2364B,
    0xD80D2BDA, 0xAF0A1B4C, 0x36034AF6, 0x41047A60, 0xDF60EFC3, 0xA867DF55,
    0x316E8EEF, 0x4669BE79, 0xCB61B38C, 0xBC66831A, 0x256FD2A0, 0x5268E236,
    0xCC0C7795, 0xBB0B4703, 0x220216B9, 0x5505262F, 0xC5BA3BBE, 0xB2BD0B28,
    0x2BB45A92, 0x5CB36A04, 0xC2D7FFA7, 0xB5D0CF31, 0x2CD99E8B, 0x5BDEAE1D,
    0x9B64C2B0, 0xEC63F226, 0x756AA39C, 0x026D930A, 0x9C0906A9, 0xEB0E363F,
    0x72076785, 0x05005713, 0x95BF4A82, 0xE2B87A14, 0x7BB12BAE, 0x0CB61B38,
    0x92D28E9B, 0xE5D5BE0D, 0x7CDCEFB7, 0x0BDBDF21, 0x86D3D2D4, 0xF1D4E242,
    0x68DDB3F8, 0x1FDA836E, 0x81BE16CD, 0xF6B9265B, 0x6FB077E1, 0x18B74777,
    0x88085AE6, 0xFF0F6A70, 0x66063BCA, 0x11010B5C, 0x8F659EFF, 0xF862AE69,
    0x616BFFD3, 0x166CCF45, 0xA00AE278, 0xD70DD2EE, 0x4E048354, 0x3903B3C2,
    0xA7672661, 0xD06016F7, 0x4969474D, 0x3E6E77DB, 0xAED16A4A, 0xD9D65ADC,
    0x40DF0B66, 0x37D83BF0, 0xA9BCAE53, 0xDEBB9EC5, 0x47B2CF7F, 0x30B5FFE9,
    0xBDBDF21C, 0xCABAC28A, 0x53B39330, 0x24B4A3A6, 0xBAD03605, 0xCDD70693,
    0x54DE5729, 0x23D967BF, 0xB3667A2E, 0xC4614AB8, 0x5D681B02, 0x2A6F2B94,
    0xB40BBE37, 0xC30C8EA1, 0x5A05DF1B, 0x2D02EF8D]"

record crc32 =
  crc_state :: "32 word"

definition crc32_ctor :: crc32 where
  "crc32_ctor = \<lparr>crc_state = 0xFFFFFFFF\<rparr>"

definition crc_byte :: "32 word \<Rightarrow> byte \<Rightarrow> 32 word" where
  "crc_byte crc d =
     (drop_bit 8 crc) XOR (crc_table ! unat (ucast d XOR (crc AND 0x000000FF)))"

text \<open>
  The loop runs \<open>sz\<close> times (not at all for a negative size); \<^const>\<open>None\<close> is a read beyond the
  memory at \<open>ptr\<close>.
\<close>

definition crc32_update :: "crc32 \<Rightarrow> byte list \<Rightarrow> int \<Rightarrow> crc32 option" where
  "crc32_update self data sz =
     (if nat sz \<le> length data
      then Some (self\<lparr>crc_state := foldl crc_byte (crc_state self) (take (nat sz) data)\<rparr>)
      else None)"

definition crc32_value :: "crc32 \<Rightarrow> 32 word" where
  "crc32_value self = NOT (crc_state self)"

definition crc32_reset :: "crc32 \<Rightarrow> crc32" where
  "crc32_reset self = self\<lparr>crc_state := 0xFFFFFFFF\<rparr>"

section \<open>The bit-serial reference\<close>

definition crc_step :: "32 word \<Rightarrow> 32 word" where
  "crc_step c = drop_bit 1 c XOR (if bit c 0 then 0xEDB88320 else 0)"

definition crc_steps8 :: "32 word \<Rightarrow> 32 word" where
  "crc_steps8 c = (crc_step ^^ 8) c"

definition crc_reference :: "32 word \<Rightarrow> byte list \<Rightarrow> 32 word" where
  "crc_reference c data = foldl (\<lambda>c d. crc_steps8 (c XOR ucast d)) c data"

section \<open>The table driven update is the bit-serial one\<close>

lemma crc_step_xor: "crc_step (a XOR b) = crc_step a XOR crc_step b"
proof -
  have "odd (a XOR b) \<longleftrightarrow> odd a \<noteq> odd b" by (simp add: even_xor_iff)
  then show ?thesis
    by (auto simp: crc_step_def bit_0 drop_bit_xor xor.assoc xor.left_commute)
qed

lemma crc_step_pow_xor: "(crc_step ^^ n) (a XOR b) = (crc_step ^^ n) a XOR (crc_step ^^ n) b"
  by (induction n) (simp_all add: crc_step_xor)

lemma crc_step_pow_even:
  "(\<And>i. i < n \<Longrightarrow> \<not> bit c i) \<Longrightarrow> (crc_step ^^ n) c = drop_bit n c"
proof (induction n)
  case (Suc n)
  then have "(crc_step ^^ n) c = drop_bit n c" and "\<not> bit c n" by auto
  then have "(crc_step ^^ Suc n) c = crc_step (drop_bit n c)" and "even (drop_bit n c)"
    by (simp_all add: even_drop_bit_iff_not_bit)
  moreover have "crc_step (drop_bit n c) = drop_bit (Suc n) c"
    using calculation(2) by (simp add: crc_step_def bit_0 drop_bit_drop_bit)
  ultimately show ?case by simp
qed simp

text \<open>
  The map is linear, so the table is generated by its entries at the powers of two: the second
  half of every prefix of length \<open>2 ^ (k + 1)\<close> is the first half with the entry of \<open>2 ^ k\<close> added.
\<close>

lemma crc_steps8_xor: "crc_steps8 (a XOR b) = crc_steps8 a XOR crc_steps8 b"
  by (simp add: crc_steps8_def crc_step_pow_xor)

lemma crc_steps8_unfold:
  "crc_steps8 c = crc_step (crc_step (crc_step (crc_step (crc_step (crc_step (crc_step (crc_step c)))))))"
  by (simp add: crc_steps8_def numeral_eq_Suc)

definition span :: "32 word list \<Rightarrow> 32 word \<Rightarrow> 32 word list" where
  "span xs b = xs @ map (\<lambda>x. b XOR x) xs"

definition crc_prefix :: "nat \<Rightarrow> 32 word list" where
  "crc_prefix k = map (\<lambda>i. crc_steps8 (word_of_nat i)) [0..<2 ^ k]"

lemma crc_prefix_0: "crc_prefix 0 = [0]"
  by (simp add: crc_prefix_def crc_steps8_unfold crc_step_def)

lemma word_of_nat_add_exp:
  assumes "i < 2 ^ k"
  shows "(word_of_nat (i + 2 ^ k) :: 32 word) = 2 ^ k XOR word_of_nat i"
proof -
  let ?w = "word_of_nat i :: 32 word"
  have "\<not> bit i k" using assms by (metis bit_take_bit_iff less_irrefl take_bit_nat_eq_self)
  then have "2 ^ k AND ?w = 0"
    by (intro bit_eqI) (auto simp: bit_simps)
  then have "2 ^ k + ?w = 2 ^ k XOR ?w" by (simp add: disjunctive_add_eq_xor)
  then show ?thesis by (simp add: add.commute)
qed

lemma crc_prefix_Suc: "crc_prefix (Suc k) = span (crc_prefix k) (crc_steps8 (2 ^ k))"
proof -
  have "[0..<2 ^ Suc k] = [0..<2 ^ k] @ map (\<lambda>i. i + 2 ^ k) [0..<2 ^ k]"
    using upt_add_eq_append [of 0 "2 ^ k" "2 ^ k"] map_add_upt [of "2 ^ k" "2 ^ k"]
    by (simp only: power_Suc mult_2)
  then show ?thesis
    by (simp add: crc_prefix_def span_def word_of_nat_add_exp crc_steps8_xor del: upt_Suc of_nat_add)
qed

lemma crc_steps8_powers:
  "crc_steps8 1 = 0x77073096"
  "crc_steps8 2 = 0xEE0E612C"
  "crc_steps8 4 = 0x076DC419"
  "crc_steps8 8 = 0x0EDB8832"
  "crc_steps8 16 = 0x1DB71064"
  "crc_steps8 32 = 0x3B6E20C8"
  "crc_steps8 64 = 0x76DC4190"
  "crc_steps8 128 = 0xEDB88320"
  by (simp_all add: crc_steps8_unfold crc_step_def bit_0)

lemma crc_table_steps: "crc_table = crc_prefix 8"
proof -
  have "crc_prefix 8 = span (span (span (span (span (span (span (span [0] 0x77073096)
      0xEE0E612C) 0x076DC419) 0x0EDB8832) 0x1DB71064) 0x3B6E20C8) 0x76DC4190) 0xEDB88320"
    by (simp add: eval_nat_numeral crc_prefix_Suc crc_prefix_0 crc_steps8_powers)
  then show ?thesis by (simp add: crc_table_def span_def)
qed

lemma crc_table_nth: "unat w < 256 \<Longrightarrow> crc_table ! unat w = crc_steps8 w"
  by (simp add: crc_table_steps crc_prefix_def)

lemma ff_mask: "(0xFF :: 32 word) = mask 8"
  by (simp add: mask_eq_exp_minus_1)

lemma low_byte_bit: "bit (ucast (d :: byte) XOR (c AND 0xFF) :: 32 word) i \<longleftrightarrow>
    i < 8 \<and> (bit d i \<noteq> bit c i)"
  unfolding ff_mask by (auto simp: bit_simps dest: bit_imp_le_length)

lemma low_byte_less: "unat (ucast (d :: byte) XOR (c AND 0xFF) :: 32 word) < 256"
proof -
  let ?w = "ucast d XOR (c AND 0xFF) :: 32 word"
  have "take_bit 8 ?w = ?w"
    by (rule bit_eqI) (auto simp only: bit_take_bit_iff low_byte_bit)
  then have "unat ?w = take_bit 8 (unat ?w)" by (metis unsigned_take_bit_eq)
  also have "\<dots> < 2 ^ 8" by (rule take_bit_nat_less_exp)
  finally show ?thesis by simp
qed

lemma crc_byte_steps: "crc_byte c d = crc_steps8 (c XOR ucast d)"
proof -
  let ?low = "ucast d XOR (c AND 0xFF) :: 32 word"
  let ?high = "push_bit 8 (drop_bit 8 c) :: 32 word"
  have len: "bit c (8 + n) \<Longrightarrow> n < 24" for n using bit_imp_le_length [of c "8 + n"] by simp
  have "c XOR ucast d = ?high XOR ?low"
    by (rule bit_eqI) (auto simp: bit_simps ff_mask dest: bit_imp_le_length)
  moreover have "crc_steps8 ?high = drop_bit 8 c"
    unfolding crc_steps8_def
    by (subst crc_step_pow_even) (auto simp: bit_simps intro!: bit_eqI dest: len)
  ultimately show ?thesis
    by (simp add: crc_byte_def crc_table_nth low_byte_less crc_steps8_def crc_step_pow_xor)
qed

lemma crc_byte_reference: "foldl crc_byte c data = crc_reference c data"
  unfolding crc_reference_def crc_byte_steps [abs_def] ..

lemma crc_reference_append: "crc_reference c (xs @ ys) = crc_reference (crc_reference c xs) ys"
  by (simp add: crc_reference_def)

section \<open>Injectivity\<close>

lemma xor_cancel_right: "a XOR c = b XOR c \<longleftrightarrow> a = b" for a b c :: "'a::len word"
proof
  assume eq: "a XOR c = b XOR c"
  show "a = b"
    by (rule bit_word_eqI) (metis eq bit_xor_iff)
qed simp

lemma crc_step_top: "bit (crc_step c) 31 \<longleftrightarrow> odd c"
  using bit_imp_le_length [of c 32] by (auto simp: crc_step_def bit_0 bit_simps)

lemma inj_crc_step: "inj crc_step"
proof (rule injI)
  fix a b assume eq: "crc_step a = crc_step b"
  then have odd: "odd a \<longleftrightarrow> odd b" by (metis crc_step_top)
  with eq have d: "drop_bit 1 a = drop_bit 1 b"
    by (cases "odd a") (simp_all add: crc_step_def bit_0 xor_cancel_right)
  show "a = b"
  proof (rule bit_eqI)
    fix i show "bit a i = bit b i"
    proof (cases i)
      case 0 then show ?thesis using odd by (simp add: bit_0)
    next
      case (Suc k) then show ?thesis using d by (metis bit_drop_bit_eq comp_apply plus_1_eq_Suc)
    qed
  qed
qed

lemma inj_crc_steps8: "crc_steps8 a = crc_steps8 b \<longleftrightarrow> a = b"
proof -
  have "inj (crc_step ^^ 8)" by (rule inj_fn [OF inj_crc_step])
  then show ?thesis by (auto simp: crc_steps8_def dest: injD)
qed

lemma crc_reference_inj_state: "crc_reference a data = crc_reference b data \<longleftrightarrow> a = b"
proof (induction data arbitrary: a b)
  case (Cons d data)
  from Cons [of "crc_steps8 (a XOR ucast d)" "crc_steps8 (b XOR ucast d)"] show ?case
    by (simp add: crc_reference_def inj_crc_steps8 xor_cancel_right)
qed (simp add: crc_reference_def)

lemma ucast_byte_id: "ucast (ucast (d :: byte) :: 32 word) = d"
  by (rule bit_word_eqI) (simp add: bit_simps)

lemma crc_reference_one_byte:
  assumes "d \<noteq> e"
  shows "crc_reference c (xs @ d # ys) \<noteq> crc_reference c (xs @ e # ys)"
proof -
  let ?c = "crc_reference c xs"
  have "(ucast d :: 32 word) \<noteq> ucast e" using assms by (metis ucast_byte_id)
  then have "?c XOR ucast d \<noteq> ?c XOR ucast e" by (simp add: xor_cancel_right xor.commute [of ?c])
  then have "crc_reference ?c [d] \<noteq> crc_reference ?c [e]"
    by (simp add: crc_reference_def inj_crc_steps8)
  then have "crc_reference (crc_reference ?c [d]) ys \<noteq> crc_reference (crc_reference ?c [e]) ys"
    by (simp add: crc_reference_inj_state)
  then show ?thesis
    using crc_reference_append [of ?c "[d]" ys] crc_reference_append [of ?c "[e]" ys]
    by (simp add: crc_reference_append)
qed

lemma crc32_update_all:
  "crc32_update s data (int (length data)) =
     Some (s\<lparr>crc_state := crc_reference (crc_state s) data\<rparr>)"
  by (simp add: crc32_update_def crc_byte_reference)

section \<open>Properties\<close>

text \<open>
  C39. Feeding a message to a fresh checksum in two pieces, table driven, gives the bit-serial
  CRC-32 (reflected polynomial \<open>0xEDB88320\<close>, initial value and final complement all ones) of
  the whole message; a size of zero or less changes nothing.
\<close>

theorem crc32_is_bit_serial:
  "\<exists>c. Option.bind (crc32_update crc32_ctor xs (int (length xs)))
          (\<lambda>s. crc32_update s ys (int (length ys))) = Some c \<and>
       crc32_value c = NOT (crc_reference 0xFFFFFFFF (xs @ ys)) \<and>
       crc32_update c zs 0 = Some c \<and> crc32_value (crc32_reset c) = 0"
  unfolding crc32_update_all
  by (simp add: crc32_update_def crc32_ctor_def crc32_value_def crc32_reset_def
      crc_reference_append)

text \<open>
  Two messages that differ in exactly one byte have different checksums, whatever the state
  they start from.
\<close>

theorem crc32_detects_byte_change:
  assumes "d \<noteq> e"
    and "crc32_update s (xs @ d # ys) (int (length (xs @ d # ys))) = Some s1"
    and "crc32_update s (xs @ e # ys) (int (length (xs @ e # ys))) = Some s2"
  shows "crc32_value s1 \<noteq> crc32_value s2"
proof -
  have "crc_state s1 = crc_reference (crc_state s) (xs @ d # ys)"
    and "crc_state s2 = crc_reference (crc_state s) (xs @ e # ys)"
    using assms(2,3) unfolding crc32_update_all by auto
  then show ?thesis
    using crc_reference_one_byte [OF assms(1)] by (simp add: crc32_value_def)
qed

theorem crc32_detects_byte_change_witness:
  "crc32_value (the (crc32_update crc32_ctor [1, 2] 2)) \<noteq> crc32_value (the (crc32_update crc32_ctor [1, 3] 2))"
proof -
  have "(2 :: byte) \<noteq> 3" by simp
  from crc32_detects_byte_change [OF this, of crc32_ctor "[1]" "[]"] show ?thesis
    by (simp add: crc32_update_def)
qed

end
