(* ===== verification/Base64.thy ===== *)
theory Base64
  imports Tcode_Prelude
begin

text \<open>
  The base 64 codec of \<open>src/base64.cpp\<close>: both tables as the source spells them, the encoder that
  collects bits in an \<open>unsigned int\<close> and writes into a preallocated string, and the decoder that
  writes into the caller's memory. \<^const>\<open>None\<close> is an access outside a table or that memory.
\<close>

section \<open>The program\<close>

definition b64_table :: string where
  "b64_table = ''ABCDEFGHIJKLMNOPQRSTUVWXYZabcdefghijklmnopqrstuvwxyz0123456789+/''"

definition b64_table_r :: "nat list" where
  "b64_table_r = [
   64, 64, 64, 64, 64, 64, 64, 64, 64, 64, 64, 64, 64, 64, 64, 64,
   64, 64, 64, 64, 64, 64, 64, 64, 64, 64, 64, 64, 64, 64, 64, 64,
   64, 64, 64, 64, 64, 64, 64, 64, 64, 64, 64, 62, 64, 64, 64, 63,
   52, 53, 54, 55, 56, 57, 58, 59, 60, 61, 64, 64, 64, 64, 64, 64,
   64,  0,  1,  2,  3,  4,  5,  6,  7,  8,  9, 10, 11, 12, 13, 14,
   15, 16, 17, 18, 19, 20, 21, 22, 23, 24, 25, 64, 64, 64, 64, 64,
   64, 26, 27, 28, 29, 30, 31, 32, 33, 34, 35, 36, 37, 38, 39, 40,
   41, 42, 43, 44, 45, 46, 47, 48, 49, 50, 51, 64, 64, 64, 64, 64]"

text \<open>The inner loop of the encoder: \<open>bits_collected\<close>, \<open>outpos\<close> and \<open>retval\<close> change.\<close>

fun enc_flush :: "32 word \<Rightarrow> nat \<Rightarrow> nat \<Rightarrow> string \<Rightarrow> nat \<times> nat \<times> string" where
  "enc_flush accumulator bits_collected outpos retval =
     (if 6 \<le> bits_collected
      then enc_flush accumulator (bits_collected - 6) (outpos + 1)
             (retval[outpos := b64_table ! unat (drop_bit (bits_collected - 6) accumulator AND 0x3f)])
      else (bits_collected, outpos, retval))"

declare enc_flush.simps [simp del]

fun enc_loop :: "byte list \<Rightarrow> 32 word \<Rightarrow> nat \<Rightarrow> nat \<Rightarrow> string \<Rightarrow> 32 word \<times> nat \<times> nat \<times> string" where
  "enc_loop [] accumulator bits_collected outpos retval = (accumulator, bits_collected, outpos, retval)"
| "enc_loop (d # ds) accumulator bits_collected outpos retval =
     (let accumulator = push_bit 8 accumulator OR (ucast d AND 0xff);
          (bits_collected, outpos, retval) = enc_flush accumulator (bits_collected + 8) outpos retval
      in enc_loop ds accumulator bits_collected outpos retval)"

definition base64_encode :: "byte list \<Rightarrow> string" where
  "base64_encode data =
     (let sz = length data in
      if sz > 1024968 then ''''
      else let retval = replicate ((sz + 2) div 3 * 4) (CHR ''='');
               (accumulator, bits_collected, outpos, retval) = enc_loop data 0 0 0 retval
           in if bits_collected > 0
              then retval[outpos := b64_table ! unat (push_bit (6 - bits_collected) accumulator AND 0x3f)]
              else retval)"

definition base64_encode_string :: "string \<Rightarrow> string" where
  "base64_encode_string msg = base64_encode (map of_char msg)"

text \<open>
  The decoder. A \<open>char\<close> above 127 is negative as an \<open>int\<close> and indexes before the table; the branch for
  an invalid character has an empty body, so its table entry 64 is used.
\<close>

definition is_space :: "nat \<Rightarrow> bool" where
  "is_space c \<longleftrightarrow> c = 32 \<or> (9 \<le> c \<and> c \<le> 13)"

fun dec_loop :: "string \<Rightarrow> 32 word \<Rightarrow> nat \<Rightarrow> nat \<Rightarrow> byte list \<Rightarrow> (nat \<times> byte list) option" where
  "dec_loop [] accumulator bits_collected index buffer = Some (index, buffer)"
| "dec_loop (ch # src) accumulator bits_collected index buffer =
     (let c = of_char ch :: nat in
      if is_space c \<or> ch = CHR ''='' then dec_loop src accumulator bits_collected index buffer
      else if 127 < c then None
      else
        let accumulator = push_bit 6 accumulator OR of_nat (b64_table_r ! c);
            bits_collected = bits_collected + 6
        in if 8 \<le> bits_collected
           then if index < length buffer
                then dec_loop src accumulator (bits_collected - 8) (index + 1)
                       (buffer[index := ucast (drop_bit (bits_collected - 8) accumulator AND 0xff)])
                else None
           else dec_loop src accumulator bits_collected index buffer)"

text \<open>The argument \<open>size\<close> is not used.\<close>

definition base64_decode :: "string \<Rightarrow> byte list \<Rightarrow> nat \<Rightarrow> (nat \<times> byte list) option" where
  "base64_decode src buffer sz = dec_loop src 0 0 0 buffer"

section \<open>Bit strings\<close>

text \<open>The \<open>n\<close> low bits of a word, the highest first.\<close>

definition low_bits :: "nat \<Rightarrow> 'a :: len word \<Rightarrow> bool list" where
  "low_bits n w = map (bit w) (rev [0..<n])"

abbreviation bits6 :: "32 word list \<Rightarrow> bool list" where
  "bits6 vs \<equiv> concat (map (low_bits 6) vs)"

abbreviation bits8 :: "byte list \<Rightarrow> bool list" where
  "bits8 ds \<equiv> concat (map (low_bits 8) ds)"

lemma length_low_bits [simp]: "length (low_bits n w) = n"
  by (simp add: low_bits_def)

lemma length_bits6 [simp]: "length (bits6 vs) = 6 * length vs"
  by (induction vs) auto

lemma length_bits8 [simp]: "length (bits8 ds) = 8 * length ds"
  by (induction ds) auto

lemma low_bits_0 [simp]: "low_bits 0 w = []"
  by (simp add: low_bits_def)

lemma low_bits_split: "low_bits (a + k) w = low_bits a (drop_bit k w) @ low_bits k w"
proof -
  have "[0..<a + k] = [0..<k] @ map (\<lambda>i. i + k) [0..<a]"
    using upt_add_eq_append [of 0 k a] by (simp add: add.commute map_add_upt)
  then show ?thesis
    by (simp add: low_bits_def rev_map bit_drop_bit_eq o_def add.commute)
qed

lemma low_bits_cong:
  "(\<And>i. i < n \<Longrightarrow> bit w i = bit v i) \<Longrightarrow> low_bits n w = low_bits n v"
  by (simp add: low_bits_def)

lemma bit_mask_63: "bit (w AND 0x3f :: 32 word) i \<longleftrightarrow> i < 6 \<and> bit w i"
proof -
  have eq: "(0x3f :: 32 word) = mask 6" by (simp add: mask_eq_exp_minus_1)
  show ?thesis unfolding eq by (auto simp: bit_and_iff bit_mask_iff dest: bit_imp_le_length)
qed

lemma bit_mask_255: "bit (w AND 0xff :: 32 word) i \<longleftrightarrow> i < 8 \<and> bit w i"
proof -
  have eq: "(0xff :: 32 word) = mask 8" by (simp add: mask_eq_exp_minus_1)
  show ?thesis unfolding eq by (auto simp: bit_and_iff bit_mask_iff dest: bit_imp_le_length)
qed

lemma low_bits_mask: "low_bits 6 (w AND 0x3f :: 32 word) = low_bits 6 w"
  by (intro low_bits_cong) (simp add: bit_mask_63)

lemma low_bits_byte: "low_bits 8 (ucast (w AND 0xff :: 32 word) :: byte) = low_bits 8 w"
  by (intro low_bits_cong) (simp add: bit_ucast_iff bit_mask_255)

text \<open>Shifting in a value of \<open>k\<close> bits.\<close>

lemma low_bits_shift_in:
  fixes acc v :: "32 word"
  assumes "a + k \<le> 32" and "\<And>i. k \<le> i \<Longrightarrow> \<not> bit v i"
  shows "low_bits (a + k) (push_bit k acc OR v) = low_bits a acc @ low_bits k v"
proof -
  have "low_bits a (drop_bit k (push_bit k acc OR v)) = low_bits a acc"
    using assms by (intro low_bits_cong) (auto simp: bit_simps)
  moreover have "low_bits k (push_bit k acc OR v) = low_bits k v"
    using assms(1) by (intro low_bits_cong) (auto simp: bit_simps)
  ultimately show ?thesis by (simp add: low_bits_split)
qed

lemma low_bits_pad:
  fixes acc :: "32 word"
  assumes "a \<le> 6"
  shows "low_bits 6 (push_bit (6 - a) acc AND 0x3f) = low_bits a acc @ replicate (6 - a) False"
proof -
  have z: "low_bits (6 - a) (0 :: 32 word) = replicate (6 - a) False"
    by (intro nth_equalityI) (simp_all add: low_bits_def)
  have "low_bits (a + (6 - a)) (push_bit (6 - a) acc OR 0) = low_bits a acc @ low_bits (6 - a) (0 :: 32 word)"
    by (rule low_bits_shift_in) (use assms in simp_all)
  then show ?thesis using assms z by (simp add: low_bits_mask)
qed

lemma low_bits_inj: "low_bits 8 d = low_bits 8 e \<Longrightarrow> d = e" for d e :: byte
  by (intro bit_word_eqI) (auto simp: low_bits_def)

lemma bits8_inj: "length ds = length es \<Longrightarrow> bits8 ds = bits8 es \<Longrightarrow> ds = es"
proof (induction ds es rule: list_induct2)
  case (Cons d ds e es)
  then have "low_bits 8 d = low_bits 8 e \<and> bits8 ds = bits8 es"
    by (simp add: append_eq_append_conv)
  then show ?case using Cons.IH low_bits_inj by blast
qed simp

lemma bits8_prefix:
  assumes "bits8 ds @ p = bits8 es @ q" and "length p < 8" and "length q < 8"
  shows "ds = es"
proof -
  have "8 * length ds + length p = 8 * length es + length q"
    using arg_cong [OF assms(1), of length] by simp
  then have "length ds = length es" using assms(2,3) by linarith
  moreover have "bits8 ds = bits8 es" using assms(1) calculation by (simp add: append_eq_append_conv)
  ultimately show ?thesis by (rule bits8_inj)
qed

section \<open>The alphabet\<close>

abbreviation symbol :: "32 word \<Rightarrow> char" where
  "symbol v \<equiv> b64_table ! unat v"

abbreviation sextet :: "32 word \<Rightarrow> bool" where
  "sextet v \<equiv> v AND 0x3f = v"

definition symbol_ok :: "char \<times> nat \<Rightarrow> bool" where
  "symbol_ok p = (case p of (ch, k) \<Rightarrow>
     of_char ch \<le> (127 :: nat) \<and> \<not> is_space (of_char ch) \<and> ch \<noteq> CHR ''='' \<and> b64_table_r ! of_char ch = k)"

lemma alphabet_check: "list_all symbol_ok (zip b64_table [0..<64])"
  by (simp add: symbol_ok_def b64_table_def b64_table_r_def is_space_def upt_rec)

lemma sextet_less:
  assumes "sextet v"
  shows "unat v < 64"
proof -
  have "(0x3f :: 32 word) = mask 6" by (simp add: mask_eq_exp_minus_1)
  then have "v = take_bit 6 v" using assms by (simp add: take_bit_eq_mask)
  then have "unat v = take_bit 6 (unat v)" by (metis unsigned_take_bit_eq)
  then have "unat v < 2 ^ 6" by (metis take_bit_nat_less_exp)
  then show ?thesis by simp
qed

lemma symbol_facts:
  assumes "sextet v"
  shows "of_char (symbol v) \<le> (127 :: nat)" "\<not> is_space (of_char (symbol v))" "symbol v \<noteq> CHR ''=''"
    "of_nat (b64_table_r ! of_char (symbol v)) = v"
proof -
  have k: "unat v < 64" by (rule sextet_less [OF assms])
  have len: "length b64_table = 64" by (simp add: b64_table_def)
  have "symbol_ok (zip b64_table [0..<64] ! unat v)"
    using alphabet_check k len by (simp add: list_all_length)
  then have "symbol_ok (symbol v, unat v)" using k len by simp
  then show "of_char (symbol v) \<le> (127 :: nat)" "\<not> is_space (of_char (symbol v))" "symbol v \<noteq> CHR ''=''"
    "of_nat (b64_table_r ! of_char (symbol v)) = v"
    by (auto simp: symbol_ok_def)
qed

lemma sextet_mask [simp]: "sextet (w AND 0x3f)"
  by (simp add: and.assoc)

section \<open>Encoding\<close>

lemma put_at_update:
  "i < length xs \<Longrightarrow> put_at (Suc i) ys (xs[i := y]) = put_at i (y # ys) xs"
  by (simp add: put_at_def take_Suc_conv_app_nth drop_update_cancel take_update_cancel)

lemma put_at_snoc:
  "i + length xs < length zs \<Longrightarrow> (put_at i xs zs)[i + length xs := y] = put_at i (xs @ [y]) zs"
  using put_at_put_at [of i xs zs "[y]"] put_at_update [of "i + length xs" "put_at i xs zs" "[]" y]
  by (simp add: length_put_at)

lemma enc_flush_spec:
  assumes "outpos + n div 6 \<le> length retval"
  shows "\<exists>vs. (\<forall>v\<in>set vs. sextet v) \<and> length vs = n div 6 \<and>
     low_bits n acc = bits6 vs @ low_bits (n mod 6) acc \<and>
     enc_flush acc n outpos retval = (n mod 6, outpos + n div 6, put_at outpos (map symbol vs) retval)"
  using assms
proof (induction acc n outpos retval rule: enc_flush.induct)
  case (1 acc n outpos retval)
  show ?case
  proof (cases "6 \<le> n")
    case True
    let ?v = "drop_bit (n - 6) acc AND 0x3f"
    have n: "n div 6 = Suc ((n - 6) div 6)" "n mod 6 = (n - 6) mod 6" "6 + (n - 6) = n"
      using True by (simp_all add: le_div_geq le_mod_geq)
    have room: "outpos + 1 + (n - 6) div 6 \<le> length (retval[outpos := symbol ?v])" "outpos < length retval"
      using 1(2) n(1) by simp_all
    obtain vs where vs: "\<forall>v\<in>set vs. sextet v" "length vs = (n - 6) div 6"
      "low_bits (n - 6) acc = bits6 vs @ low_bits ((n - 6) mod 6) acc"
      "enc_flush acc (n - 6) (outpos + 1) (retval[outpos := symbol ?v]) =
         ((n - 6) mod 6, outpos + 1 + (n - 6) div 6, put_at (outpos + 1) (map symbol vs) (retval[outpos := symbol ?v]))"
      using 1(1) [OF True room(1)] by blast
    have "low_bits n acc = low_bits 6 ?v @ low_bits (n - 6) acc"
      using low_bits_split [of 6 "n - 6" acc] n(3) by (simp add: low_bits_mask)
    moreover have "enc_flush acc n outpos retval =
        (n mod 6, outpos + n div 6, put_at outpos (map symbol (?v # vs)) retval)"
      using True vs(4) n room(2) by (subst enc_flush.simps) (simp add: put_at_update)
    ultimately show ?thesis
      using vs(1-3) n by (intro exI [of _ "?v # vs"]) simp
  next
    case False
    then show ?thesis by (intro exI [of _ "[]"]) (simp add: enc_flush.simps)
  qed
qed

text \<open>The loop keeps fewer than six bits and has written the others, six by six.\<close>

lemma enc_loop_spec:
  assumes "n < 6" and "outpos + (n + 8 * length ds) div 6 \<le> length retval"
  shows "\<exists>vs acc'. (\<forall>v\<in>set vs. sextet v) \<and>
     low_bits n acc @ bits8 ds = bits6 vs @ low_bits ((n + 8 * length ds) mod 6) acc' \<and>
     enc_loop ds acc n outpos retval =
       (acc', (n + 8 * length ds) mod 6, outpos + length vs, put_at outpos (map symbol vs) retval)"
  using assms
proof (induction ds arbitrary: acc n outpos retval)
  case Nil
  then show ?case by (intro exI [of _ "[]"] exI [of _ acc]) simp
next
  case (Cons d ds)
  let ?acc = "push_bit 8 acc OR (ucast d AND 0xff) :: 32 word"
  have total: "(n + 8 * length (d # ds)) mod 6 = ((n + 8) mod 6 + 8 * length ds) mod 6"
    "(n + 8 * length (d # ds)) div 6 = (n + 8) div 6 + ((n + 8) mod 6 + 8 * length ds) div 6"
    by (simp_all add: algebra_simps) presburger+
  have room: "outpos + (n + 8) div 6 \<le> length retval" using Cons.prems(2) total(2) by linarith
  obtain us where us: "\<forall>v\<in>set us. sextet v" "length us = (n + 8) div 6"
    "low_bits (n + 8) ?acc = bits6 us @ low_bits ((n + 8) mod 6) ?acc"
    "enc_flush ?acc (n + 8) outpos retval =
       ((n + 8) mod 6, outpos + (n + 8) div 6, put_at outpos (map symbol us) retval)"
    using enc_flush_spec [OF room, of ?acc] by blast
  have len: "length (put_at outpos (map symbol us) retval) = length retval"
    using room us(2) by (intro length_put_at) simp
  have "(n + 8) mod 6 < 6" by simp
  moreover have "outpos + (n + 8) div 6 + ((n + 8) mod 6 + 8 * length ds) div 6
      \<le> length (put_at outpos (map symbol us) retval)"
    using Cons.prems(2) total(2) len by linarith
  ultimately obtain vs acc' where vs: "\<forall>v\<in>set vs. sextet v"
    "low_bits ((n + 8) mod 6) ?acc @ bits8 ds = bits6 vs @ low_bits (((n + 8) mod 6 + 8 * length ds) mod 6) acc'"
    "enc_loop ds ?acc ((n + 8) mod 6) (outpos + (n + 8) div 6) (put_at outpos (map symbol us) retval) =
       (acc', ((n + 8) mod 6 + 8 * length ds) mod 6, outpos + (n + 8) div 6 + length vs,
        put_at (outpos + (n + 8) div 6) (map symbol vs) (put_at outpos (map symbol us) retval))"
    using Cons.IH by blast
  have "low_bits (n + 8) ?acc = low_bits n acc @ low_bits 8 d"
  proof -
    have "low_bits (n + 8) ?acc = low_bits n acc @ low_bits 8 (ucast d AND 0xff :: 32 word)"
      by (rule low_bits_shift_in) (use Cons.prems(1) in \<open>simp_all add: bit_mask_255\<close>)
    moreover have "low_bits 8 (ucast d AND 0xff :: 32 word) = low_bits 8 d"
      by (intro low_bits_cong) (simp add: bit_mask_255 bit_ucast_iff)
    ultimately show ?thesis by simp
  qed
  then have "low_bits n acc @ bits8 (d # ds) = bits6 (us @ vs) @ low_bits ((n + 8 * length (d # ds)) mod 6) acc'"
    using us(3) vs(2) total(1) by simp (metis append.assoc)
  moreover have "enc_loop (d # ds) acc n outpos retval =
      (acc', (n + 8 * length (d # ds)) mod 6, outpos + length (us @ vs), put_at outpos (map symbol (us @ vs)) retval)"
    using us(2,4) vs(3) total(1) room put_at_put_at [of outpos "map symbol us" retval "map symbol vs"] by simp
  ultimately show ?case using us(1) vs(1) by (intro exI [of _ "us @ vs"] exI [of _ acc']) auto
qed

lemma encode_room: "(8 * n + 5) div 6 \<le> (n + 2) div 3 * (4 :: nat)"
  by presburger

lemma base64_encode_spec:
  assumes "length data \<le> 1024968"
  shows "\<exists>vs k. (\<forall>v\<in>set vs. sextet v) \<and> base64_encode data = map symbol vs @ replicate k (CHR ''='') \<and>
     length vs + k = (length data + 2) div 3 * 4 \<and>
     (\<exists>p. length p < 8 \<and> bits6 vs = bits8 data @ p)"
proof -
  let ?N = "(length data + 2) div 3 * 4"
  let ?r = "replicate ?N (CHR ''='')"
  have room: "0 + (0 + 8 * length data) div 6 \<le> length ?r" using encode_room [of "length data"] by simp
  obtain vs acc where vs: "\<forall>v\<in>set vs. sextet v"
    "low_bits 0 (0 :: 32 word) @ bits8 data = bits6 vs @ low_bits ((0 + 8 * length data) mod 6) acc"
    "enc_loop data 0 0 0 ?r = (acc, (0 + 8 * length data) mod 6, 0 + length vs, put_at 0 (map symbol vs) ?r)"
    using enc_loop_spec [OF _ room, of 0] by (metis zero_less_numeral)
  let ?b = "8 * length data mod 6"
  have lens: "8 * length data = 6 * length vs + ?b"
    using arg_cong [OF vs(2), of length] by simp
  have eq: "bits8 data = bits6 vs @ low_bits ?b acc" using vs(2) by simp
  show ?thesis
  proof (cases "?b = 0")
    case True
    then have "base64_encode data = map symbol vs @ replicate (?N - length vs) (CHR ''='')"
      using assms vs(3) by (simp add: base64_encode_def Let_def put_at_def)
    moreover have "length vs + (?N - length vs) = ?N" using lens encode_room [of "length data"] by linarith
    ultimately show ?thesis using True eq vs(1) by (intro exI [of _ vs] exI [of _ "?N - length vs"]) simp
  next
    case False
    let ?v = "push_bit (6 - ?b) acc AND 0x3f"
    have b: "?b < 6" by simp
    have small: "length vs < ?N" using lens encode_room [of "length data"] False by linarith
    have "base64_encode data = (put_at 0 (map symbol vs) ?r)[0 + length (map symbol vs) := symbol ?v]"
      using assms vs(3) False by (simp add: base64_encode_def Let_def)
    also have "\<dots> = put_at 0 (map symbol vs @ [symbol ?v]) ?r"
      by (rule put_at_snoc) (use small in simp)
    also have "\<dots> = map symbol (vs @ [?v]) @ replicate (?N - Suc (length vs)) (CHR ''='')"
      by (simp add: put_at_def)
    finally have e: "base64_encode data = map symbol (vs @ [?v]) @ replicate (?N - Suc (length vs)) (CHR ''='')" .
    have "bits6 (vs @ [?v]) = bits8 data @ replicate (6 - ?b) False"
      using low_bits_pad [of ?b acc] b eq by simp
    then show ?thesis
      using e small vs(1) by (intro exI [of _ "vs @ [?v]"] exI [of _ "?N - Suc (length vs)"] conjI exI [of _ "replicate (6 - ?b) False"]) auto
  qed
qed

section \<open>Decoding\<close>

lemma dec_loop_padding: "dec_loop (replicate k (CHR ''='')) acc n index buffer = Some (index, buffer)"
  by (induction k) (simp_all add: Let_def)

lemma dec_loop_spec:
  assumes "n < 8" and "\<forall>v\<in>set vs. sextet v" and "index + (n + 6 * length vs) div 8 \<le> length buffer"
  shows "\<exists>ds q. length q < 8 \<and> low_bits n acc @ bits6 vs = bits8 ds @ q \<and>
     dec_loop (map symbol vs @ replicate k (CHR ''='')) acc n index buffer =
       Some (index + length ds, put_at index ds buffer)"
  using assms
proof (induction vs arbitrary: acc n index buffer)
  case Nil
  then show ?case by (intro exI [of _ "[]"] exI [of _ "low_bits n acc"]) (simp add: dec_loop_padding)
next
  case (Cons v vs)
  let ?acc = "push_bit 6 acc OR v"
  have v: "sextet v" using Cons.prems(2) by simp
  have nobit: "\<not> bit v i" if "6 \<le> i" for i
    using that bit_mask_63 [of v i] v by simp
  have bits: "low_bits (n + 6) ?acc = low_bits n acc @ low_bits 6 v"
    by (rule low_bits_shift_in) (use Cons.prems(1) nobit in auto)
  note sym = symbol_facts [OF v]
  show ?case
  proof (cases "8 \<le> n + 6")
    case True
    let ?d = "ucast (drop_bit (n - 2) ?acc AND 0xff) :: byte"
    have total: "(n + 6 * length (v # vs)) div 8 = Suc ((n - 2 + 6 * length vs) div 8)"
      using True by (simp add: le_div_geq algebra_simps)
    have room: "index < length buffer" using Cons.prems(3) total by linarith
    have "low_bits (n + 6) ?acc = low_bits 8 ?d @ low_bits (n - 2) ?acc"
      using low_bits_split [of 8 "n - 2" ?acc] True by (simp add: low_bits_byte add.commute)
    then have split: "low_bits n acc @ low_bits 6 v = low_bits 8 ?d @ low_bits (n - 2) ?acc"
      using bits by simp
    obtain ds q where ds: "length q < 8" "low_bits (n - 2) ?acc @ bits6 vs = bits8 ds @ q"
      "dec_loop (map symbol vs @ replicate k (CHR ''='')) ?acc (n - 2) (index + 1) (buffer[index := ?d]) =
         Some (index + 1 + length ds, put_at (index + 1) ds (buffer[index := ?d]))"
    proof -
      have "n - 2 < 8" "index + 1 + (n - 2 + 6 * length vs) div 8 \<le> length (buffer[index := ?d])"
        using Cons.prems(1,3) total by simp_all
      then show thesis using that Cons.IH [of "n - 2" "index + 1" "buffer[index := ?d]" ?acc] Cons.prems(2)
        by (metis list.set_intros(2))
    qed
    have "low_bits n acc @ bits6 (v # vs) = bits8 (?d # ds) @ q"
      using split ds(2) by simp (metis append.assoc)
    moreover have "dec_loop (map symbol (v # vs) @ replicate k (CHR ''='')) acc n index buffer =
        Some (index + length (?d # ds), put_at index (?d # ds) buffer)"
      using sym True room ds(3) put_at_update [OF room, of ds ?d] by (simp add: Let_def)
    ultimately show ?thesis using ds(1) by blast
  next
    case False
    obtain ds q where ds: "length q < 8" "low_bits (n + 6) ?acc @ bits6 vs = bits8 ds @ q"
      "dec_loop (map symbol vs @ replicate k (CHR ''='')) ?acc (n + 6) index buffer =
         Some (index + length ds, put_at index ds buffer)"
      using Cons.IH [of "n + 6" index buffer ?acc] Cons.prems False by (auto simp: algebra_simps)
    have "dec_loop (map symbol (v # vs) @ replicate k (CHR ''='')) acc n index buffer =
        Some (index + length ds, put_at index ds buffer)"
      using sym False ds(3) by (simp add: Let_def)
    then show ?thesis using ds(1,2) bits by auto
  qed
qed

section \<open>Round trip\<close>

text \<open>
  C38: decoding what \<open>base64_encode\<close> produced from at most 1024968 bytes into memory with room for them
  writes exactly these bytes at its start, reports their number and leaves the rest of the memory unchanged,
  whatever size the caller passes; the encoded text has four characters for every three bytes begun.
  Above 1024968 bytes the encoder returns the empty string, which decodes to nothing.
\<close>

theorem base64_round_trip:
  assumes "length data \<le> length buffer"
  shows "base64_decode (base64_encode data) buffer sz =
      (if length data \<le> 1024968 then Some (length data, data @ drop (length data) buffer) else Some (0, buffer)) \<and>
    length (base64_encode data) = (if length data \<le> 1024968 then (length data + 2) div 3 * 4 else 0)"
proof (cases "length data \<le> 1024968")
  case True
  obtain vs k p where vs: "\<forall>v\<in>set vs. sextet v" "base64_encode data = map symbol vs @ replicate k (CHR ''='')"
    "length vs + k = (length data + 2) div 3 * 4" "length p < 8" "bits6 vs = bits8 data @ p"
    using base64_encode_spec [OF True] by blast
  have "6 * length vs = 8 * length data + length p" using arg_cong [OF vs(5), of length] by simp
  then have room: "0 + (0 + 6 * length vs) div 8 \<le> length buffer" using vs(4) assms by simp
  obtain ds q where ds: "length q < 8" "low_bits 0 (0 :: 32 word) @ bits6 vs = bits8 ds @ q"
    "dec_loop (map symbol vs @ replicate k (CHR ''='')) 0 0 0 buffer = Some (0 + length ds, put_at 0 ds buffer)"
    using dec_loop_spec [OF _ vs(1) room, of 0 k] by (metis zero_less_numeral)
  have "ds = data" using bits8_prefix [of data p ds q] ds(1,2) vs(4,5) by simp
  then show ?thesis using True vs(2,3) ds(3) by (simp add: base64_decode_def put_at_def)
next
  case False
  then show ?thesis by (simp add: base64_decode_def base64_encode_def)
qed

theorem base64_round_trip_witness:
  "base64_decode (base64_encode [77, 97]) [0, 0, 7] 1 = Some (2, [77, 97, 7])"
  using base64_round_trip [of "[77, 97]" "[0, 0, 7]" 1] by simp

end
