(* ===== verification/Block_Manager.thy ===== *)
theory Block_Manager
  imports Tcode_Prelude
begin

text \<open>
  The reference-counted memory blocks of \<open>src/block.cpp\<close> and the free lists of
  \<open>include/tcode/fixed_size_allocator.hpp\<close> they come from. Memory is an explicit store from
  addresses to blocks, so that sharing of a block between owners is visible. A block is its
  header (\<open>block_hdr\<close>) and the bytes after it; a handle is a possibly null address. An access
  through a dead address, or outside a block, is \<^const>\<open>None\<close>. \<open>std::malloc\<close> returns an
  address that was never used before and bytes nothing is known of (\<open>junk\<close>); that it may run
  out of memory is not modelled. The locks are not modelled: each operation is one step.
\<close>

type_synonym handle = "nat option"

record block =
  refcount :: int
  capacity :: nat
  data :: "byte list"

record fsa =
  alloc_size :: nat
  pool :: "nat list"

record manager =
  mem :: "nat \<Rightarrow> block option"
  brk :: nat
  junk :: "nat \<Rightarrow> byte"
  fsas :: "fsa list"

definition alloc_size_table :: "nat list" where
  "alloc_size_table = [4, 8, 16, 32, 64, 256, 1024, 2048, 4096, 8192, 16384]"

definition sizeof_block_hdr :: nat where
  "sizeof_block_hdr = 16"

definition FREE_THRESHOLD :: nat where
  "FREE_THRESHOLD = 4096"

text \<open>\<open>static_cast<std::size_t>(FREE_THRESHOLD * 0.8)\<close>.\<close>

definition FREE_REMAINS :: nat where
  "FREE_REMAINS = FREE_THRESHOLD * 8 div 10"

section \<open>The C library's allocator\<close>

definition std_malloc :: "nat \<Rightarrow> manager \<Rightarrow> nat \<times> manager" where
  "std_malloc n m =
     (brk m,
      m\<lparr>mem := (mem m)(brk m \<mapsto>
            \<lparr>refcount = 0, capacity = 0, data = map (junk m) [0..<n - sizeof_block_hdr]\<rparr>),
        brk := brk m + 1\<rparr>)"

definition std_free :: "nat \<Rightarrow> manager \<Rightarrow> manager" where
  "std_free p m = m\<lparr>mem := (mem m)(p := None)\<rparr>"

section \<open>The fixed size allocator\<close>

definition fsa_upd :: "nat \<Rightarrow> (fsa \<Rightarrow> fsa) \<Rightarrow> manager \<Rightarrow> manager" where
  "fsa_upd i f m = m\<lparr>fsas := (fsas m)[i := f (fsas m ! i)]\<rparr>"

definition fsa_clean_up :: "nat \<Rightarrow> manager \<Rightarrow> manager" where
  "fsa_clean_up i m = fsa_upd i (pool_update (\<lambda>_. [])) (fold std_free (rev (pool (fsas m ! i))) m)"

definition fsa_init :: "nat \<Rightarrow> nat \<Rightarrow> manager \<Rightarrow> manager" where
  "fsa_init i sz m =
     fsa_upd i (alloc_size_update (\<lambda>_. if sz < 8 then 8 else sz)) (fsa_clean_up i m)"

definition fsa_alloc :: "nat \<Rightarrow> manager \<Rightarrow> nat \<times> manager" where
  "fsa_alloc i m =
     (let a = fsas m ! i
      in if pool a \<noteq> [] then (last (pool a), fsa_upd i (pool_update butlast) m)
         else std_malloc (alloc_size a) m)"

text \<open>The trimming loop of \<open>free\<close>; \<open>back()\<close> of an empty vector is undefined.\<close>

function fsa_trim :: "nat \<Rightarrow> manager \<Rightarrow> manager option" where
  "fsa_trim i m =
     (if length (pool (fsas m ! i)) < FREE_REMAINS
      then (if pool (fsas m ! i) = [] \<or> length (fsas m) \<le> i then None
            else fsa_trim i (std_free (last (pool (fsas m ! i))) (fsa_upd i (pool_update butlast) m)))
      else Some m)"
  by pat_completeness auto
termination
  by (relation "measure (\<lambda>(i, m). length (pool (fsas m ! i)))") (auto simp: fsa_upd_def std_free_def)

declare fsa_trim.simps [simp del]

definition fsa_free :: "nat \<Rightarrow> handle \<Rightarrow> manager \<Rightarrow> manager option" where
  "fsa_free i ptr m =
     (case ptr of
        None \<Rightarrow> Some m
      | Some p \<Rightarrow>
          if length (pool (fsas m ! i)) > FREE_THRESHOLD then fsa_trim i (std_free p m)
          else Some (fsa_upd i (pool_update (\<lambda>ps. ps @ [p])) m))"

section \<open>The block manager\<close>

definition block_manager_ctor :: "(nat \<Rightarrow> byte) \<Rightarrow> manager" where
  "block_manager_ctor jnk =
     fold (\<lambda>i. fsa_init i (alloc_size_table ! i + sizeof_block_hdr)) [0..<length alloc_size_table]
       \<lparr>mem = Map.empty, brk = 0, junk = jnk,
        fsas = replicate (length alloc_size_table) \<lparr>alloc_size = 0, pool = []\<rparr>\<rparr>"

fun first_index :: "(nat \<Rightarrow> bool) \<Rightarrow> nat list \<Rightarrow> nat option" where
  "first_index P [] = None"
| "first_index P (x # xs) = (if P x then Some 0 else map_option Suc (first_index P xs))"

definition block_alloc :: "nat \<Rightarrow> manager \<Rightarrow> (handle \<times> manager) option" where
  "block_alloc sz m =
     (case first_index (\<lambda>s. sz \<le> s) alloc_size_table of
        Some i \<Rightarrow>
          (let (p, m1) = fsa_alloc i m
           in case mem m1 p of
                None \<Rightarrow> None
              | Some b \<Rightarrow> Some (Some p,
                  m1\<lparr>mem := (mem m1)(p \<mapsto> b\<lparr>capacity := alloc_size_table ! i, refcount := 1\<rparr>)\<rparr>))
      | None \<Rightarrow>
          (let n = size_add sz sizeof_block_hdr
           in if n < sizeof_block_hdr then None
              else (let (p, m1) = std_malloc n m
                    in case mem m1 p of
                         None \<Rightarrow> None
                       | Some b \<Rightarrow> Some (Some p,
                           m1\<lparr>mem := (mem m1)(p \<mapsto> b\<lparr>capacity := sz, refcount := 1\<rparr>)\<rparr>))))"

definition block_free :: "handle \<Rightarrow> manager \<Rightarrow> manager option" where
  "block_free ptr m =
     (case ptr of
        None \<Rightarrow> Some m
      | Some p \<Rightarrow>
          (case mem m p of
             None \<Rightarrow> None
           | Some b \<Rightarrow>
               (let m1 = m\<lparr>mem := (mem m)(p \<mapsto> b\<lparr>refcount := to_i32 (refcount b - 1)\<rparr>)\<rparr>
                in if refcount b = 1
                   then (case first_index (\<lambda>s. s = capacity b) alloc_size_table of
                           Some i \<Rightarrow> fsa_free i (Some p) m1
                         | None \<Rightarrow> Some (std_free p m1))
                   else Some m1)))"

text \<open>\<open>memcpy\<close> from and to the bytes of a block, with the bounds it needs to be defined.\<close>

definition mem_read :: "handle \<Rightarrow> nat \<Rightarrow> nat \<Rightarrow> manager \<Rightarrow> byte list option" where
  "mem_read h off n m =
     (case h of None \<Rightarrow> None
      | Some p \<Rightarrow> (case mem m p of None \<Rightarrow> None
                   | Some b \<Rightarrow> if off + n \<le> length (data b) then Some (seg off n (data b)) else None))"

definition mem_write :: "handle \<Rightarrow> nat \<Rightarrow> byte list \<Rightarrow> manager \<Rightarrow> manager option" where
  "mem_write h off bs m =
     (case h of None \<Rightarrow> None
      | Some p \<Rightarrow> (case mem m p of None \<Rightarrow> None
                   | Some b \<Rightarrow> if off + length bs \<le> length (data b)
                                then Some (m\<lparr>mem := (mem m)(p \<mapsto> b\<lparr>data := put_at off bs (data b)\<rparr>)\<rparr>)
                                else None))"

definition block_realloc :: "handle \<Rightarrow> nat \<Rightarrow> manager \<Rightarrow> (handle \<times> manager) option" where
  "block_realloc ptr sz m =
     (case ptr of
        None \<Rightarrow> block_alloc sz m
      | Some p \<Rightarrow>
          (case mem m p of
             None \<Rightarrow> None
           | Some b \<Rightarrow>
               if sz \<le> capacity b then Some (ptr, m)
               else Option.bind (block_alloc sz m) (\<lambda>(nptr, m1).
                    Option.bind (mem_read ptr 0 (capacity b) m1) (\<lambda>bs.
                    Option.bind (mem_write nptr 0 bs m1) (\<lambda>m2.
                    map_option (\<lambda>m3. (nptr, m3)) (block_free ptr m2))))))"

definition block_capacity :: "handle \<Rightarrow> manager \<Rightarrow> nat option" where
  "block_capacity ptr m =
     (case ptr of None \<Rightarrow> Some 0 | Some p \<Rightarrow> map_option capacity (mem m p))"

definition block_refcount :: "handle \<Rightarrow> manager \<Rightarrow> int option" where
  "block_refcount ptr m =
     (case ptr of None \<Rightarrow> Some 0 | Some p \<Rightarrow> map_option refcount (mem m p))"

definition block_duplicate :: "handle \<Rightarrow> manager \<Rightarrow> (handle \<times> manager) option" where
  "block_duplicate ptr m =
     (case ptr of
        None \<Rightarrow> Some (None, m)
      | Some p \<Rightarrow>
          (case mem m p of
             None \<Rightarrow> None
           | Some b \<Rightarrow> Some (ptr,
               m\<lparr>mem := (mem m)(p \<mapsto> b\<lparr>refcount := to_i32 (refcount b + 1)\<rparr>)\<rparr>)))"

definition block_copy :: "handle \<Rightarrow> manager \<Rightarrow> (handle \<times> manager) option" where
  "block_copy ptr m =
     (case ptr of
        None \<Rightarrow> Some (None, m)
      | Some p \<Rightarrow>
          Option.bind (block_capacity ptr m) (\<lambda>sz.
          Option.bind (block_alloc sz m) (\<lambda>(cpy, m1).
          Option.bind (mem_read ptr 0 sz m1) (\<lambda>bs.
          map_option (\<lambda>m2. (cpy, m2)) (mem_write cpy 0 bs m1)))))"

section \<open>The invariant\<close>

text \<open>
  Every allocated block is either live (positive reference count, capacity equal to its number
  of bytes) or waits in the free list of its size class with count zero, so no block leaks and
  none is in two free lists; no free list exceeds its threshold by more than one.
\<close>

definition pool_ok :: "manager \<Rightarrow> nat \<Rightarrow> bool" where
  "pool_ok m i \<longleftrightarrow>
     alloc_size (fsas m ! i) = alloc_size_table ! i + sizeof_block_hdr \<and>
     distinct (pool (fsas m ! i)) \<and> length (pool (fsas m ! i)) \<le> Suc FREE_THRESHOLD \<and>
     (\<forall>p \<in> set (pool (fsas m ! i)).
        \<exists>b. mem m p = Some b \<and> refcount b = 0 \<and> length (data b) = alloc_size_table ! i)"

definition block_ok :: "manager \<Rightarrow> nat \<Rightarrow> block \<Rightarrow> bool" where
  "block_ok m p b \<longleftrightarrow>
     p < brk m \<and> 0 \<le> refcount b \<and>
     (if 0 < refcount b
      then capacity b = length (data b) \<and>
           (capacity b \<in> set alloc_size_table \<or> 16384 < capacity b)
      else \<exists>i < length alloc_size_table. p \<in> set (pool (fsas m ! i)))"

definition manager_inv :: "manager \<Rightarrow> bool" where
  "manager_inv m \<longleftrightarrow>
     length (fsas m) = length alloc_size_table \<and>
     (\<forall>i < length alloc_size_table. pool_ok m i) \<and>
     (\<forall>p b. mem m p = Some b \<longrightarrow> block_ok m p b)"

definition live :: "manager \<Rightarrow> nat \<Rightarrow> bool" where
  "live m p \<longleftrightarrow> (\<exists>b. mem m p = Some b \<and> 0 < refcount b)"

lemma table_len [simp]: "length alloc_size_table = 11"
  by (simp add: alloc_size_table_def)

lemma table_distinct: "distinct alloc_size_table"
  by (simp add: alloc_size_table_def)

lemma first_index_Some:
  "first_index P xs = Some i \<longleftrightarrow> i < length xs \<and> P (xs ! i) \<and> (\<forall>j < i. \<not> P (xs ! j))"
proof (induction xs arbitrary: i)
  case (Cons x xs)
  show ?case
    by (cases i) (auto simp: Cons.IH less_Suc_eq_0_disj)
qed simp

lemma first_index_None: "first_index P xs = None \<longleftrightarrow> (\<forall>x \<in> set xs. \<not> P x)"
  by (induction xs) auto

lemma first_index_table_eq:
  "i < 11 \<Longrightarrow> first_index (\<lambda>s. s = alloc_size_table ! i) alloc_size_table = Some i"
  using table_distinct by (auto simp: first_index_Some nth_eq_iff_index_eq)

lemma size_class_big: "first_index (\<lambda>s. n \<le> s) alloc_size_table = None \<longleftrightarrow> 16384 < n"
  by (auto simp: first_index_None alloc_size_table_def)

lemma manager_invD:
  assumes "manager_inv m"
  shows "length (fsas m) = 11"
    and "i < 11 \<Longrightarrow> pool_ok m i"
    and "mem m p = Some b \<Longrightarrow> block_ok m p b"
  using assms by (auto simp: manager_inv_def)

lemma manager_invI:
  assumes "length (fsas m) = 11" and "\<And>i. i < 11 \<Longrightarrow> pool_ok m i"
    and "\<And>p b. mem m p = Some b \<Longrightarrow> block_ok m p b"
  shows "manager_inv m"
  using assms by (simp add: manager_inv_def)

lemma block_ok_mem [simp]: "block_ok (m\<lparr>mem := f\<rparr>) p b = block_ok m p b"
  by (simp add: block_ok_def)

lemma live_not_pooled:
  "manager_inv m \<Longrightarrow> live m p \<Longrightarrow> i < 11 \<Longrightarrow> p \<notin> set (pool (fsas m ! i))"
  using manager_invD(2) [of m i] by (auto simp: pool_ok_def live_def)

lemma pooledD:
  "manager_inv m \<Longrightarrow> i < 11 \<Longrightarrow> p \<in> set (pool (fsas m ! i)) \<Longrightarrow>
     \<exists>b. mem m p = Some b \<and> refcount b = 0 \<and> length (data b) = alloc_size_table ! i"
  using manager_invD(2) [of m i] by (simp add: pool_ok_def)

lemma pool_disjoint:
  assumes "manager_inv m" "i < 11" "j < 11" "p \<in> set (pool (fsas m ! i))" "p \<in> set (pool (fsas m ! j))"
  shows "i = j"
proof -
  have "alloc_size_table ! i = alloc_size_table ! j"
    using pooledD [OF assms(1,2,4)] pooledD [OF assms(1,3,5)] by force
  then show ?thesis
    using assms(2,3) table_distinct by (simp add: nth_eq_iff_index_eq)
qed

text \<open>Rewriting a live block, keeping it live and well formed, keeps the invariant.\<close>

lemma manager_inv_upd_live:
  assumes inv: "manager_inv m" and l: "live m p" and rc: "0 < refcount b"
    and cap: "capacity b = length (data b)" "capacity b \<in> set alloc_size_table \<or> 16384 < capacity b"
  shows "manager_inv (m\<lparr>mem := (mem m)(p \<mapsto> b)\<rparr>)"
proof -
  have "p < brk m"
    using manager_invD(3) [OF inv] l by (auto simp: live_def block_ok_def)
  moreover have "pool_ok (m\<lparr>mem := (mem m)(p \<mapsto> b)\<rparr>) i" if "i < 11" for i
    using manager_invD(2) [OF inv that] live_not_pooled [OF inv l that]
    by (auto simp: pool_ok_def)
  moreover have "block_ok m q c" if "((mem m)(p \<mapsto> b)) q = Some c" for q c
    using that manager_invD(3) [OF inv, of q c] \<open>p < brk m\<close> rc cap
    by (cases "q = p") (auto simp: block_ok_def)
  ultimately show ?thesis
    using manager_invD(1) [OF inv] by (intro manager_invI) auto
qed

lemma live_block_ok:
  assumes "manager_inv m" "mem m p = Some b" "0 < refcount b"
  shows "capacity b = length (data b)" "capacity b \<in> set alloc_size_table \<or> 16384 < capacity b"
    "p < brk m" "live m p"
  using manager_invD(3) [OF assms(1,2)] assms(2,3) by (auto simp: block_ok_def live_def)

section \<open>Allocation\<close>

text \<open>What a fresh block looks like; every client of \<open>alloc\<close> uses this predicate.\<close>

definition fresh_block :: "nat \<Rightarrow> manager \<Rightarrow> manager \<Rightarrow> nat \<Rightarrow> block \<Rightarrow> bool" where
  "fresh_block sz m m' p b \<longleftrightarrow>
     mem m' p = Some b \<and> refcount b = 1 \<and> sz \<le> capacity b \<and> capacity b = length (data b) \<and>
     \<not> live m p \<and> (\<forall>q. live m q \<longrightarrow> mem m' q = mem m q) \<and> manager_inv m'"

lemma fsa_alloc_pooled:
  assumes inv: "manager_inv m" and i: "i < 11" and ne: "pool (fsas m ! i) \<noteq> []"
    and p: "p = last (pool (fsas m ! i))" and b: "mem m p = Some b"
  shows "manager_inv ((fsa_upd i (pool_update butlast) m)
           \<lparr>mem := (mem m)(p \<mapsto> b\<lparr>capacity := alloc_size_table ! i, refcount := 1\<rparr>)\<rparr>)"
    (is "manager_inv ?m")
proof -
  have pin: "p \<in> set (pool (fsas m ! i))"
    using ne p by simp
  have ok: "pool_ok m i"
    using manager_invD(2) [OF inv i] .
  have notin: "p \<notin> set (butlast (pool (fsas m ! i)))"
    using ok ne p by (cases "pool (fsas m ! i)" rule: rev_cases) (auto simp: pool_ok_def)
  have others: "p \<notin> set (pool (fsas m ! j))" if "j < 11" "j \<noteq> i" for j
    using pool_disjoint [OF inv i that(1) pin] that(2) by blast
  have len: "length (fsas m) = 11"
    using manager_invD(1) [OF inv] .
  have "pool_ok ?m j" if j: "j < 11" for j
  proof (cases "j = i")
    case True
    then show ?thesis
      using ok notin len i by (auto simp: pool_ok_def fsa_upd_def distinct_butlast dest: in_set_butlastD)
  next
    case False
    then show ?thesis
      using manager_invD(2) [OF inv j] others [OF j False] by (auto simp: pool_ok_def fsa_upd_def)
  qed
  moreover have "block_ok ?m q c" if "mem ?m q = Some c" for q c
  proof (cases "q = p")
    case True
    have "length (data b) = alloc_size_table ! i"
      using ok pin b by (auto simp: pool_ok_def)
    with True that manager_invD(3) [OF inv b] i show ?thesis
      by (auto simp: block_ok_def fsa_upd_def)
  next
    case False
    with that have "block_ok m q c"
      using manager_invD(3) [OF inv] by simp
    moreover have "q \<in> set (pool (fsas m ! i)) \<longrightarrow> q \<in> set (butlast (pool (fsas m ! i)))"
      using False ne p by (cases "pool (fsas m ! i)" rule: rev_cases) auto
    ultimately show ?thesis
      using len i by (auto simp: block_ok_def fsa_upd_def nth_list_update)
  qed
  ultimately show ?thesis
    using len by (auto simp: manager_inv_def fsa_upd_def)
qed

lemma malloc_block_inv:
  assumes inv: "manager_inv m" and cap: "k \<in> set alloc_size_table \<or> 16384 < k"
    and n: "n = k + sizeof_block_hdr"
  shows "manager_inv ((snd (std_malloc n m))
           \<lparr>mem := (mem m)(brk m \<mapsto> \<lparr>refcount = 1, capacity = k, data = map (junk m) [0..<k]\<rparr>)\<rparr>)"
    (is "manager_inv ?m")
proof -
  have free: "mem m (brk m) = None"
    using manager_invD(3) [OF inv, of "brk m"] by (cases "mem m (brk m)") (auto simp: block_ok_def)
  have "pool_ok ?m i" if "i < 11" for i
    using manager_invD(2) [OF inv that] free by (fastforce simp: pool_ok_def std_malloc_def)
  moreover have "block_ok ?m q c" if "mem ?m q = Some c" for q c
    using that cap manager_invD(3) [OF inv, of q c]
    by (auto simp: block_ok_def std_malloc_def split: if_splits)
  ultimately show ?thesis
    using manager_invD(1) [OF inv] by (auto simp: manager_inv_def std_malloc_def)
qed

lemma block_alloc_fresh:
  assumes inv: "manager_inv m" and sz: "sz + sizeof_block_hdr < 2 ^ 64"
  shows "\<exists>p m' b. block_alloc sz m = Some (Some p, m') \<and> fresh_block sz m m' p b \<and>
           capacity b = (case first_index (\<lambda>s. sz \<le> s) alloc_size_table of
                           Some i \<Rightarrow> alloc_size_table ! i | None \<Rightarrow> sz)"
proof -
  have free: "mem m (brk m) = None"
    using manager_invD(3) [OF inv, of "brk m"] by (cases "mem m (brk m)") (auto simp: block_ok_def)
  show ?thesis
  proof (cases "first_index (\<lambda>s. sz \<le> s) alloc_size_table")
    case None
    then have big: "16384 < sz" by (simp add: size_class_big)
    let ?b = "\<lparr>refcount = 1, capacity = sz, data = map (junk m) [0..<sz]\<rparr>"
    have "manager_inv ((snd (std_malloc (sz + sizeof_block_hdr) m))\<lparr>mem := (mem m)(brk m \<mapsto> ?b)\<rparr>)"
      using malloc_block_inv [OF inv, of sz] big by blast
    moreover have "block_alloc sz m = Some (Some (brk m),
        (snd (std_malloc (sz + sizeof_block_hdr) m))\<lparr>mem := (mem m)(brk m \<mapsto> ?b)\<rparr>)"
      using None sz by (simp add: block_alloc_def size_add_id std_malloc_def)
    ultimately show ?thesis
      using None free by (auto simp: fresh_block_def live_def)
  next
    case (Some i)
    then have i: "i < 11" and le: "sz \<le> alloc_size_table ! i"
      by (auto simp: first_index_Some)
    have ok: "pool_ok m i" using manager_invD(2) [OF inv i] .
    show ?thesis
    proof (cases "pool (fsas m ! i) = []")
      case True
      let ?k = "alloc_size_table ! i"
      let ?b = "\<lparr>refcount = 1, capacity = ?k, data = map (junk m) [0..<?k]\<rparr>"
      have "manager_inv ((snd (std_malloc (?k + sizeof_block_hdr) m))\<lparr>mem := (mem m)(brk m \<mapsto> ?b)\<rparr>)"
        using malloc_block_inv [OF inv, of ?k] i by simp
      moreover have "block_alloc sz m = Some (Some (brk m),
          (snd (std_malloc (?k + sizeof_block_hdr) m))\<lparr>mem := (mem m)(brk m \<mapsto> ?b)\<rparr>)"
        using Some True ok by (simp add: block_alloc_def fsa_alloc_def pool_ok_def std_malloc_def)
      ultimately show ?thesis
        using Some le free by (auto simp: fresh_block_def live_def)
    next
      case False
      let ?p = "last (pool (fsas m ! i))"
      have "?p \<in> set (pool (fsas m ! i))" using False by simp
      with ok obtain b where b: "mem m ?p = Some b" "refcount b = 0" "length (data b) = alloc_size_table ! i"
        by (auto simp: pool_ok_def)
      let ?m = "(fsa_upd i (pool_update butlast) m)
           \<lparr>mem := (mem m)(?p \<mapsto> b\<lparr>capacity := alloc_size_table ! i, refcount := 1\<rparr>)\<rparr>"
      have "block_alloc sz m = Some (Some ?p, ?m)"
        using Some False b by (simp add: block_alloc_def fsa_alloc_def fsa_upd_def Let_def)
      then show ?thesis
        using Some le b fsa_alloc_pooled [OF inv i False refl b(1)]
        by (auto simp: fresh_block_def live_def)
    qed
  qed
qed

section \<open>Release\<close>

text \<open>
  What \<open>free\<close> does with the last reference: the block is in the free list of its class, or is
  returned to the C library when it is large or when that list is full.
\<close>

lemma fsa_trim_full: "FREE_REMAINS \<le> length (pool (fsas m ! i)) \<Longrightarrow> fsa_trim i m = Some m"
  by (simp add: fsa_trim.simps)

lemma FREE_REMAINS_less: "FREE_REMAINS < FREE_THRESHOLD"
  by (simp add: FREE_REMAINS_def FREE_THRESHOLD_def)

lemma std_free_inv:
  assumes inv: "manager_inv m" and l: "live m p"
  shows "manager_inv (std_free p m)"
proof (rule manager_invI)
  show "length (fsas (std_free p m)) = 11"
    using manager_invD(1) [OF inv] by (simp add: std_free_def)
  show "pool_ok (std_free p m) i" if "i < 11" for i
    using manager_invD(2) [OF inv that] live_not_pooled [OF inv l that]
    by (auto simp: pool_ok_def std_free_def)
  show "block_ok (std_free p m) q b" if "mem (std_free p m) q = Some b" for q b
    using that manager_invD(3) [OF inv, of q b] by (auto simp: std_free_def split: if_splits)
qed

lemma fsa_push_inv:
  assumes inv: "manager_inv m" and b: "mem m p = Some b" "0 < refcount b"
    and i: "i < 11" and cap: "capacity b = alloc_size_table ! i"
    and room: "length (pool (fsas m ! i)) \<le> FREE_THRESHOLD"
  shows "manager_inv (fsa_upd i (pool_update (\<lambda>ps. ps @ [p]))
           (m\<lparr>mem := (mem m)(p \<mapsto> b\<lparr>refcount := 0\<rparr>)\<rparr>))" (is "manager_inv ?m")
proof (rule manager_invI)
  have len: "length (fsas m) = 11"
    using manager_invD(1) [OF inv] .
  then show "length (fsas ?m) = 11" by (simp add: fsa_upd_def)
  have l: "live m p" using b by (simp add: live_def)
  show "pool_ok ?m j" if j: "j < 11" for j
    using manager_invD(2) [OF inv j] live_not_pooled [OF inv l j] len i cap room
      live_block_ok(1) [OF inv b]
    by (auto simp: pool_ok_def fsa_upd_def nth_list_update)
  show "block_ok ?m q c" if "mem ?m q = Some c" for q c
  proof (cases "q = p")
    case True
    with that i len manager_invD(3) [OF inv b(1)] show ?thesis
      by (auto simp: block_ok_def fsa_upd_def intro!: exI [of _ i])
  next
    case False
    with that have "block_ok m q c"
      using manager_invD(3) [OF inv] by (simp add: fsa_upd_def)
    with i len show ?thesis
      by (auto simp: block_ok_def fsa_upd_def nth_list_update)
  qed
qed

lemma block_free_shared:
  assumes inv: "manager_inv m" and b: "mem m p = Some b" "1 < refcount b" "refcount b < 2 ^ 31"
  shows "block_free (Some p) m = Some (m\<lparr>mem := (mem m)(p \<mapsto> b\<lparr>refcount := refcount b - 1\<rparr>)\<rparr>) \<and>
         manager_inv (m\<lparr>mem := (mem m)(p \<mapsto> b\<lparr>refcount := refcount b - 1\<rparr>)\<rparr>)"
proof
  show "block_free (Some p) m = Some (m\<lparr>mem := (mem m)(p \<mapsto> b\<lparr>refcount := refcount b - 1\<rparr>)\<rparr>)"
    using b by (simp add: block_free_def to_i32_id)
  show "manager_inv (m\<lparr>mem := (mem m)(p \<mapsto> b\<lparr>refcount := refcount b - 1\<rparr>)\<rparr>)"
    using live_block_ok [OF inv b(1)] b by (intro manager_inv_upd_live inv) auto
qed

lemma block_free_last:
  assumes inv: "manager_inv m" and b: "mem m p = Some b" "refcount b = 1"
  shows "\<exists>m'. block_free (Some p) m = Some m' \<and> manager_inv m' \<and> \<not> live m' p \<and>
           (\<forall>q. q \<noteq> p \<longrightarrow> mem m' q = mem m q) \<and>
           (\<forall>i < 11. capacity b = alloc_size_table ! i \<longrightarrow>
              pool (fsas m' ! i) = (if length (pool (fsas m ! i)) \<le> FREE_THRESHOLD
                                    then pool (fsas m ! i) @ [p] else pool (fsas m ! i)))"
proof -
  let ?m1 = "m\<lparr>mem := (mem m)(p \<mapsto> b\<lparr>refcount := 0\<rparr>)\<rparr>"
  have l: "live m p" using b by (simp add: live_def)
  have sf: "std_free p ?m1 = std_free p m" by (simp add: std_free_def)
  have finv: "manager_inv (std_free p m)" using std_free_inv [OF inv l] .
  show ?thesis
  proof (cases "first_index (\<lambda>s. s = capacity b) alloc_size_table")
    case None
    then have big: "capacity b \<noteq> alloc_size_table ! i" if "i < 11" for i
      using that by (auto simp: first_index_None)
    have "block_free (Some p) m = Some (std_free p m)"
      using b None sf by (simp add: block_free_def to_i32_def)
    with finv big show ?thesis by (auto simp: std_free_def live_def)
  next
    case (Some i)
    then have i: "i < 11" and cap: "capacity b = alloc_size_table ! i"
      by (auto simp: first_index_Some)
    have uniq: "j = i" if "j < 11" "capacity b = alloc_size_table ! j" for j
      using that i cap table_distinct by (simp add: nth_eq_iff_index_eq)
    show ?thesis
    proof (cases "length (pool (fsas m ! i)) \<le> FREE_THRESHOLD")
      case True
      have "block_free (Some p) m = Some (fsa_upd i (pool_update (\<lambda>ps. ps @ [p])) ?m1)"
        using b Some True by (simp add: block_free_def fsa_free_def to_i32_def)
      moreover have "manager_inv (fsa_upd i (pool_update (\<lambda>ps. ps @ [p])) ?m1)"
        using fsa_push_inv [OF inv b(1) _ i cap True] b by simp
      ultimately show ?thesis
        using True i uniq manager_invD(1) [OF inv] by (auto simp: fsa_upd_def live_def)
    next
      case False
      then have "fsa_trim i (std_free p m) = Some (std_free p m)"
        using FREE_REMAINS_less by (intro fsa_trim_full) (simp add: std_free_def)
      then have "block_free (Some p) m = Some (std_free p m)"
        using b Some False sf by (simp add: block_free_def fsa_free_def to_i32_def)
      with finv uniq False show ?thesis by (auto simp: std_free_def live_def)
    qed
  qed
qed

section \<open>The interface of the block store\<close>

text \<open>
  What an owner of handles sees of the store: the bytes and the reference count of each live
  block. The locale states the laws \<open>byte_buffer\<close> relies on.
\<close>

definition bytes_of :: "manager \<Rightarrow> nat \<Rightarrow> byte list option" where
  "bytes_of m p = (case mem m p of None \<Rightarrow> None
                   | Some b \<Rightarrow> if 0 < refcount b then Some (data b) else None)"

definition count_of :: "manager \<Rightarrow> nat \<Rightarrow> int" where
  "count_of m p = (case mem m p of None \<Rightarrow> 0 | Some b \<Rightarrow> refcount b)"

definition same_except :: "nat \<Rightarrow> manager \<Rightarrow> manager \<Rightarrow> bool" where
  "same_except p m m' \<longleftrightarrow>
     (\<forall>q. q \<noteq> p \<longrightarrow> bytes_of m' q = bytes_of m q \<and> count_of m' q = count_of m q)"

primrec iter_opt :: "nat \<Rightarrow> ('s \<Rightarrow> 's option) \<Rightarrow> 's \<Rightarrow> 's option" where
  "iter_opt 0 f s = Some s"
| "iter_opt (Suc n) f s = Option.bind (f s) (iter_opt n f)"

locale block_store =
  fixes inv :: "'m \<Rightarrow> bool"
    and bytes :: "'m \<Rightarrow> nat \<Rightarrow> byte list option"
    and rc :: "'m \<Rightarrow> nat \<Rightarrow> int"
    and same :: "nat \<Rightarrow> 'm \<Rightarrow> 'm \<Rightarrow> bool"
    and alloc :: "nat \<Rightarrow> 'm \<Rightarrow> (handle \<times> 'm) option"
    and dup :: "handle \<Rightarrow> 'm \<Rightarrow> (handle \<times> 'm) option"
    and release :: "handle \<Rightarrow> 'm \<Rightarrow> 'm option"
  assumes alloc_law: "inv m \<Longrightarrow> sz + 16 < 2 ^ 64 \<Longrightarrow>
      \<exists>p m' bs. alloc sz m = Some (Some p, m') \<and> inv m' \<and> bytes m p = None \<and>
        bytes m' p = Some bs \<and> sz \<le> length bs \<and> length bs \<le> max sz 16384 \<and> rc m' p = 1 \<and> same p m m'"
    and dup_law: "inv m \<Longrightarrow> bytes m p = Some bs \<Longrightarrow> rc m p + 1 < 2 ^ 31 \<Longrightarrow>
      \<exists>m'. dup (Some p) m = Some (Some p, m') \<and> inv m' \<and> bytes m' p = Some bs \<and>
        rc m' p = rc m p + 1 \<and> same p m m'"
    and release_shared_law: "inv m \<Longrightarrow> bytes m p = Some bs \<Longrightarrow> 1 < rc m p \<Longrightarrow> rc m p < 2 ^ 31 \<Longrightarrow>
      \<exists>m'. release (Some p) m = Some m' \<and> inv m' \<and> bytes m' p = Some bs \<and>
        rc m' p = rc m p - 1 \<and> same p m m'"
    and release_last_law: "inv m \<Longrightarrow> bytes m p = Some bs \<Longrightarrow> rc m p = 1 \<Longrightarrow>
      \<exists>m'. release (Some p) m = Some m' \<and> inv m' \<and> bytes m' p = None \<and> same p m m'"
    and same_refl: "same p m m"
    and same_trans: "same p m m' \<Longrightarrow> same p m' m'' \<Longrightarrow> same p m m''"
begin

definition dup_step :: "nat \<Rightarrow> 'm \<Rightarrow> 'm option" where
  "dup_step p m = map_option snd (dup (Some p) m)"

lemma dup_iter:
  "inv m \<Longrightarrow> bytes m p = Some bs \<Longrightarrow> rc m p + int n < 2 ^ 31 \<Longrightarrow>
     \<exists>m'. iter_opt n (dup_step p) m = Some m' \<and> inv m' \<and> bytes m' p = Some bs \<and>
       rc m' p = rc m p + int n \<and> same p m m'"
proof (induction n arbitrary: m)
  case 0
  then show ?case by (simp add: same_refl)
next
  case (Suc n)
  from Suc.prems obtain m1 where d: "dup (Some p) m = Some (Some p, m1)" and i1: "inv m1"
    and b1: "bytes m1 p = Some bs" and r1: "rc m1 p = rc m p + 1" and s1: "same p m m1"
    using dup_law [of m p bs] by auto
  from Suc.prems r1 have "rc m1 p + int n < 2 ^ 31" by simp
  from Suc.IH [OF i1 b1 this] obtain m' where "iter_opt n (dup_step p) m1 = Some m'"
    "inv m'" "bytes m' p = Some bs" "rc m' p = rc m1 p + int n" "same p m1 m'"
    by blast
  moreover from d have "dup_step p m = Some m1" by (simp add: dup_step_def)
  ultimately show ?case using r1 same_trans [OF s1] by auto
qed

lemma release_iter:
  "inv m \<Longrightarrow> bytes m p = Some bs \<Longrightarrow> int n < rc m p \<Longrightarrow> rc m p < 2 ^ 31 \<Longrightarrow>
     \<exists>m'. iter_opt n (release (Some p)) m = Some m' \<and> inv m' \<and> bytes m' p = Some bs \<and>
       rc m' p = rc m p - int n \<and> same p m m'"
proof (induction n arbitrary: m)
  case 0
  then show ?case by (simp add: same_refl)
next
  case (Suc n)
  from Suc.prems obtain m1 where d: "release (Some p) m = Some m1" and i1: "inv m1"
    and b1: "bytes m1 p = Some bs" and r1: "rc m1 p = rc m p - 1" and s1: "same p m m1"
    using release_shared_law [of m p bs] by auto
  from Suc.prems r1 have "int n < rc m1 p" "rc m1 p < 2 ^ 31" by simp_all
  from Suc.IH [OF i1 b1 this] obtain m' where "iter_opt n (release (Some p)) m1 = Some m'"
    "inv m'" "bytes m' p = Some bs" "rc m' p = rc m1 p - int n" "same p m1 m'"
    by blast
  with d r1 same_trans [OF s1] show ?case by auto
qed

lemma release_all:
  assumes "inv m" "bytes m p = Some bs" "rc m p = int n + 1" "rc m p < 2 ^ 31"
  shows "\<exists>m1 m2. iter_opt n (release (Some p)) m = Some m1 \<and> bytes m1 p = Some bs \<and>
           release (Some p) m1 = Some m2 \<and> inv m2 \<and> bytes m2 p = None \<and> same p m m2"
proof -
  obtain m1 where m1: "iter_opt n (release (Some p)) m = Some m1" "inv m1" "bytes m1 p = Some bs"
    "rc m1 p = rc m p - int n" "same p m m1"
    using release_iter [OF assms(1,2), of n] assms(3,4) by auto
  then obtain m2 where "release (Some p) m1 = Some m2" "inv m2" "bytes m2 p = None" "same p m1 m2"
    using release_last_law [of m1 p bs] assms(3) by auto
  with m1 same_trans show ?thesis by blast
qed

end

lemma bytes_of_Some:
  "bytes_of m p = Some bs \<longleftrightarrow> (\<exists>b. mem m p = Some b \<and> 0 < refcount b \<and> data b = bs)"
  by (auto simp: bytes_of_def split: option.splits if_splits)

lemma bytes_of_None: "bytes_of m p = None \<longleftrightarrow> \<not> live m p"
  by (auto simp: bytes_of_def live_def split: option.splits)

lemma count_of_mem [simp]: "mem m p = Some b \<Longrightarrow> count_of m p = refcount b"
  by (simp add: count_of_def)

lemma views_same: "mem m' q = mem m q \<Longrightarrow> bytes_of m' q = bytes_of m q \<and> count_of m' q = count_of m q"
  by (simp add: bytes_of_def count_of_def)

lemma block_duplicate_live:
  assumes inv: "manager_inv m" and b: "mem m p = Some b" "0 < refcount b" "refcount b + 1 < 2 ^ 31"
  shows "block_duplicate (Some p) m = Some (Some p, m\<lparr>mem := (mem m)(p \<mapsto> b\<lparr>refcount := refcount b + 1\<rparr>)\<rparr>) \<and>
         manager_inv (m\<lparr>mem := (mem m)(p \<mapsto> b\<lparr>refcount := refcount b + 1\<rparr>)\<rparr>)"
proof
  show "block_duplicate (Some p) m = Some (Some p, m\<lparr>mem := (mem m)(p \<mapsto> b\<lparr>refcount := refcount b + 1\<rparr>)\<rparr>)"
    using b by (simp add: block_duplicate_def to_i32_id)
  show "manager_inv (m\<lparr>mem := (mem m)(p \<mapsto> b\<lparr>refcount := refcount b + 1\<rparr>)\<rparr>)"
    using live_block_ok [OF inv b(1)] b by (intro manager_inv_upd_live inv) auto
qed

lemma same_except_upd: "same_except p m (m\<lparr>mem := (mem m)(p := v)\<rparr>)"
  by (simp add: same_except_def bytes_of_def count_of_def)

lemma table_nth_le: "i < 11 \<Longrightarrow> alloc_size_table ! i \<le> 16384"
proof -
  have "\<forall>s \<in> set alloc_size_table. s \<le> 16384" by (simp add: alloc_size_table_def)
  then show "i < 11 \<Longrightarrow> alloc_size_table ! i \<le> 16384" by simp
qed

lemma block_alloc_frame:
  "block_alloc sz m = Some (Some p, m') \<Longrightarrow> q \<noteq> p \<Longrightarrow> mem m' q = mem m q"
  by (auto simp: block_alloc_def fsa_alloc_def std_malloc_def fsa_upd_def Let_def
      split: option.splits if_splits)

lemma manager_alloc_law:
  assumes "manager_inv m" "sz + 16 < 2 ^ 64"
  shows "\<exists>p m' bs. block_alloc sz m = Some (Some p, m') \<and> manager_inv m' \<and> bytes_of m p = None \<and>
           bytes_of m' p = Some bs \<and> sz \<le> length bs \<and> length bs \<le> max sz 16384 \<and>
           count_of m' p = 1 \<and> same_except p m m'"
proof -
  obtain p m' b where al: "block_alloc sz m = Some (Some p, m')" and fb: "fresh_block sz m m' p b"
    and cap: "capacity b = (case first_index (\<lambda>s. sz \<le> s) alloc_size_table of
                           Some i \<Rightarrow> alloc_size_table ! i | None \<Rightarrow> sz)"
    using block_alloc_fresh [OF assms(1), of sz] assms(2) by (auto simp: sizeof_block_hdr_def)
  have "same_except p m m'"
    unfolding same_except_def using views_same block_alloc_frame [OF al] by blast
  moreover have "capacity b \<le> max sz 16384"
  proof (cases "first_index (\<lambda>s. sz \<le> s) alloc_size_table")
    case (Some i)
    then have "i < 11" by (simp add: first_index_Some)
    with Some cap table_nth_le [of i] show ?thesis by simp
  qed (use cap in simp)
  ultimately show ?thesis
    using al fb by (auto simp: fresh_block_def bytes_of_Some bytes_of_None)
qed

interpretation bs: block_store manager_inv bytes_of count_of same_except
  block_alloc block_duplicate block_free
proof unfold_locales
  fix m p bs
  assume inv: "manager_inv m" and bb: "bytes_of m p = Some bs"
  then obtain b where b: "mem m p = Some b" "0 < refcount b" "data b = bs"
    by (auto simp: bytes_of_Some)
  show "\<exists>m'. block_duplicate (Some p) m = Some (Some p, m') \<and> manager_inv m' \<and>
          bytes_of m' p = Some bs \<and> count_of m' p = count_of m p + 1 \<and> same_except p m m'"
    if "count_of m p + 1 < 2 ^ 31"
    using block_duplicate_live [OF inv b(1,2)] b that
    by (intro exI [of _ "m\<lparr>mem := (mem m)(p \<mapsto> b\<lparr>refcount := refcount b + 1\<rparr>)\<rparr>"])
      (simp add: bytes_of_def count_of_def same_except_upd)
  show "\<exists>m'. block_free (Some p) m = Some m' \<and> manager_inv m' \<and> bytes_of m' p = Some bs \<and>
          count_of m' p = count_of m p - 1 \<and> same_except p m m'"
    if "1 < count_of m p" "count_of m p < 2 ^ 31"
    using block_free_shared [OF inv b(1)] b that
    by (intro exI [of _ "m\<lparr>mem := (mem m)(p \<mapsto> b\<lparr>refcount := refcount b - 1\<rparr>)\<rparr>"])
      (simp add: bytes_of_def count_of_def same_except_upd)
  show "\<exists>m'. block_free (Some p) m = Some m' \<and> manager_inv m' \<and> bytes_of m' p = None \<and>
          same_except p m m'"
    if "count_of m p = 1"
    using block_free_last [OF inv b(1)] b that views_same
    unfolding bytes_of_None same_except_def by (metis count_of_mem)
qed (rule manager_alloc_law, assumption+, simp_all add: same_except_def)

section \<open>Properties\<close>

text \<open>
  The operations of the manager, called by its clients in any order on live handles.
\<close>

inductive manager_step :: "manager \<Rightarrow> manager \<Rightarrow> bool" where
  step_alloc: "block_alloc sz m = Some (h, m') \<Longrightarrow> sz + sizeof_block_hdr < 2 ^ 64 \<Longrightarrow> manager_step m m'"
| step_dup: "live m p \<Longrightarrow> count_of m p + 1 < 2 ^ 31 \<Longrightarrow> block_duplicate (Some p) m = Some (h, m') \<Longrightarrow>
    manager_step m m'"
| step_free: "live m p \<Longrightarrow> block_free (Some p) m = Some m' \<Longrightarrow> count_of m p < 2 ^ 31 \<Longrightarrow> manager_step m m'"
| step_write: "live m p \<Longrightarrow> mem_write (Some p) off xs m = Some m' \<Longrightarrow> manager_step m m'"

inductive manager_reach :: "manager \<Rightarrow> bool" where
  reach_ctor: "manager_reach (block_manager_ctor jnk)"
| reach_step: "manager_reach m \<Longrightarrow> manager_step m m' \<Longrightarrow> manager_reach m'"

lemma list_update_numeral: "(x # xs)[numeral k := y] = x # xs[pred_numeral k := y]"
  by (simp add: numeral_eq_Suc)

lemma ctor_unfold:
  "block_manager_ctor jnk =
     \<lparr>mem = Map.empty, brk = 0, junk = jnk,
      fsas = map (\<lambda>s. \<lparr>alloc_size = s + sizeof_block_hdr, pool = []\<rparr>) alloc_size_table\<rparr>"
  by (simp add: block_manager_ctor_def fsa_init_def fsa_clean_up_def fsa_upd_def
      alloc_size_table_def sizeof_block_hdr_def list_update_numeral upt_rec_numeral)

lemma ctor_fields:
  "fsas (block_manager_ctor jnk) =
     map (\<lambda>s. \<lparr>alloc_size = s + sizeof_block_hdr, pool = []\<rparr>) alloc_size_table"
  "mem (block_manager_ctor jnk) p = None" "brk (block_manager_ctor jnk) = 0"
  by (simp_all add: ctor_unfold)

lemma ctor_inv: "manager_inv (block_manager_ctor jnk)"
  by (rule manager_invI) (simp_all add: pool_ok_def ctor_fields)

lemma mem_write_inv:
  assumes inv: "manager_inv m" and l: "live m p" and w: "mem_write (Some p) off xs m = Some m'"
  shows "manager_inv m'"
proof -
  obtain b where b: "mem m p = Some b" "0 < refcount b"
    using l by (auto simp: live_def)
  with w live_block_ok [OF inv b] show ?thesis
    by (auto simp: mem_write_def length_put_at split: if_splits intro!: manager_inv_upd_live [OF inv l])
qed

lemma manager_step_inv: "manager_step m m' \<Longrightarrow> manager_inv m \<Longrightarrow> manager_inv m'"
proof (induction rule: manager_step.induct)
  case (step_alloc sz m h m')
  then show ?case using block_alloc_fresh [of m sz] by (auto simp: fresh_block_def)
next
  case (step_dup m p h m')
  then obtain xs where "bytes_of m p = Some xs" by (auto simp: live_def bytes_of_def)
  with step_dup show ?case using bs.dup_law [of m p xs] by auto
next
  case (step_free m p m')
  then obtain xs where xs: "bytes_of m p = Some xs" and "0 < count_of m p"
    by (auto simp: live_def bytes_of_def)
  then consider "count_of m p = 1" | "1 < count_of m p" by linarith
  then show ?case
    using step_free xs bs.release_last_law [of m p xs] bs.release_shared_law [of m p xs]
    by cases auto
next
  case (step_write m p off xs m')
  then show ?case by (blast intro: mem_write_inv)
qed

lemma manager_reach_inv: "manager_reach m \<Longrightarrow> manager_inv m"
  by (induction rule: manager_reach.induct) (auto intro: ctor_inv manager_step_inv)

text \<open>
  C16. In every state the manager can reach, an allocated block is either live and in no free
  list, or has reference count zero and is in exactly one free list, whose blocks all have its
  size; so no block leaks and none is handed out twice.
\<close>

theorem block_live_or_pooled_once:
  assumes "manager_reach m" and "mem m p = Some b"
  shows "if 0 < refcount b
         then capacity b = length (data b) \<and> (\<forall>i < 11. p \<notin> set (pool (fsas m ! i)))
         else \<exists>!i. i < 11 \<and> p \<in> set (pool (fsas m ! i)) \<and> length (data b) = alloc_size_table ! i"
proof -
  have inv: "manager_inv m" using assms(1) by (rule manager_reach_inv)
  show ?thesis
  proof (cases "0 < refcount b")
    case True
    with live_block_ok [OF inv assms(2)] live_not_pooled [OF inv] show ?thesis by auto
  next
    case False
    then obtain i where i: "i < 11" "p \<in> set (pool (fsas m ! i))"
      using manager_invD(3) [OF inv assms(2)] by (auto simp: block_ok_def)
    moreover have "length (data b) = alloc_size_table ! i"
      using pooledD [OF inv i] assms(2) by simp
    ultimately have "\<exists>!i. i < 11 \<and> p \<in> set (pool (fsas m ! i)) \<and> length (data b) = alloc_size_table ! i"
      using pool_disjoint [OF inv i(1) _ i(2)] by blast
    with False show ?thesis by simp
  qed
qed

theorem block_live_or_pooled_once_witness:
  "\<exists>m b. manager_reach m \<and> mem m 0 = Some b \<and> capacity b = length (data b)"
proof -
  obtain p m' where a: "block_alloc 5 (block_manager_ctor (\<lambda>_. 0)) = Some (Some p, m')"
    using block_alloc_fresh [OF ctor_inv, of 5 "\<lambda>_. 0"] by (auto simp: sizeof_block_hdr_def)
  have p: "p = 0" "\<exists>b. mem m' 0 = Some b \<and> 0 < refcount b"
    using a by (auto simp: block_alloc_def fsa_alloc_def std_malloc_def ctor_fields Let_def
        alloc_size_table_def)
  then obtain b where b: "mem m' 0 = Some b" "0 < refcount b" by blast
  have r: "manager_reach m'"
    by (rule reach_step [OF reach_ctor step_alloc [OF a]]) (simp add: sizeof_block_hdr_def)
  show ?thesis
    using block_live_or_pooled_once [OF r b(1)] r b by auto
qed

text \<open>
  C17. \<open>alloc\<close> never fails and returns a block nobody owned, with reference count one and at
  least the requested capacity: the smallest class that fits for requests up to 16384 bytes,
  exactly the request above; no live block is touched.
\<close>

theorem block_alloc_correct:
  assumes "manager_reach m" and "sz + sizeof_block_hdr < 2 ^ 64"
  shows "\<exists>p m' b. block_alloc sz m = Some (Some p, m') \<and> fresh_block sz m m' p b \<and>
           (if sz \<le> 16384
            then capacity b \<in> set alloc_size_table \<and> (\<forall>s \<in> set alloc_size_table. sz \<le> s \<longrightarrow> capacity b \<le> s)
            else capacity b = sz)"
proof -
  obtain p m' b where f: "block_alloc sz m = Some (Some p, m')" "fresh_block sz m m' p b"
      "capacity b = (case first_index (\<lambda>s. sz \<le> s) alloc_size_table of
                       Some i \<Rightarrow> alloc_size_table ! i | None \<Rightarrow> sz)"
    using block_alloc_fresh [OF manager_reach_inv [OF assms(1)] assms(2)] by blast
  have "sorted alloc_size_table" by (simp add: alloc_size_table_def)
  then have least: "alloc_size_table ! i \<le> s"
    if "first_index (\<lambda>s. sz \<le> s) alloc_size_table = Some i" "s \<in> set alloc_size_table" "sz \<le> s" for i s
    using that by (metis first_index_Some in_set_conv_nth linorder_not_less order_less_imp_le sorted_nth_mono)
  have "if sz \<le> 16384
        then capacity b \<in> set alloc_size_table \<and> (\<forall>s \<in> set alloc_size_table. sz \<le> s \<longrightarrow> capacity b \<le> s)
        else capacity b = sz"
  proof (cases "first_index (\<lambda>s. sz \<le> s) alloc_size_table")
    case None
    with f(3) show ?thesis by (simp add: size_class_big)
  next
    case (Some i)
    then have "sz \<le> 16384" using size_class_big [of sz] by force
    moreover have "i < 11" using Some by (simp add: first_index_Some)
    ultimately show ?thesis using Some f(3) least [OF Some] by simp
  qed
  with f show ?thesis by blast
qed

theorem block_alloc_correct_witness:
  "\<exists>p m' b. block_alloc 100 (block_manager_ctor (\<lambda>_. 7)) = Some (Some p, m') \<and> 100 \<le> capacity b \<and>
     fresh_block 100 (block_manager_ctor (\<lambda>_. 7)) m' p b"
  using block_alloc_correct [OF reach_ctor, of 100 "\<lambda>_. 7"]
  by (auto simp: sizeof_block_hdr_def fresh_block_def)

text \<open>
  C18. Reference counting keeps a block alive exactly as long as it has owners: after \<open>n\<close>
  duplications of a fresh handle, \<open>n\<close> of the \<open>n + 1\<close> releases leave the bytes in place and
  readable, and the last one returns the block; no other block changes.
\<close>

theorem refcount_protocol:
  assumes "manager_reach m" and "bytes_of m p = Some xs" and "count_of m p = 1" and "int n < 2 ^ 31 - 1"
  shows "\<exists>m1 m2 m3. iter_opt n (\<lambda>m. map_option snd (block_duplicate (Some p) m)) m = Some m1 \<and>
           count_of m1 p = int n + 1 \<and>
           iter_opt n (block_free (Some p)) m1 = Some m2 \<and> bytes_of m2 p = Some xs \<and>
           block_free (Some p) m2 = Some m3 \<and> bytes_of m3 p = None \<and> same_except p m m3"
proof -
  have inv: "manager_inv m" using assms(1) by (rule manager_reach_inv)
  have st: "bs.dup_step p = (\<lambda>m. map_option snd (block_duplicate (Some p) m))"
    by (rule ext) (simp add: bs.dup_step_def)
  obtain m1 where m1: "iter_opt n (bs.dup_step p) m = Some m1" "manager_inv m1"
      "bytes_of m1 p = Some xs" "count_of m1 p = int n + 1" "same_except p m m1"
    using bs.dup_iter [OF inv assms(2), of n] assms(3,4) by auto
  then obtain m2 m3 where "iter_opt n (block_free (Some p)) m1 = Some m2" "bytes_of m2 p = Some xs"
      "block_free (Some p) m2 = Some m3" "bytes_of m3 p = None" "same_except p m1 m3"
    using bs.release_all [of m1 p xs n] assms(4) by auto
  with m1 show ?thesis unfolding st using bs.same_trans by blast
qed

theorem refcount_protocol_witness:
  "\<exists>m p xs m1 m2 m3. iter_opt 2 (\<lambda>m. map_option snd (block_duplicate (Some p) m)) m = Some m1 \<and>
     count_of m1 p = 3 \<and> iter_opt 2 (block_free (Some p)) m1 = Some m2 \<and> bytes_of m2 p = Some xs \<and>
     block_free (Some p) m2 = Some m3 \<and> bytes_of m3 p = None"
proof -
  obtain p m' b where a: "block_alloc 100 (block_manager_ctor (\<lambda>_. 7)) = Some (Some p, m')"
    and f: "fresh_block 100 (block_manager_ctor (\<lambda>_. 7)) m' p b"
    using block_alloc_fresh [OF ctor_inv, of 100 "\<lambda>_. 7"] by (auto simp: sizeof_block_hdr_def)
  have r: "manager_reach m'"
    by (rule reach_step [OF reach_ctor step_alloc [OF a]]) (simp add: sizeof_block_hdr_def)
  have "bytes_of m' p = Some (data b)" "count_of m' p = 1"
    using f by (auto simp: fresh_block_def bytes_of_Some)
  from refcount_protocol [OF r this, of 2] show ?thesis by simp blast
qed

text \<open>
  Releasing a block whose free list is above \<open>FREE_THRESHOLD\<close> returns that one block to the
  C library and leaves the list as it is: the loop that is meant to trim the list down to
  \<open>FREE_REMAINS\<close> entries never runs, for its condition is \<open>size() < FREE_REMAINS\<close>.
\<close>

theorem fsa_free_never_trims:
  assumes "FREE_THRESHOLD < length (pool (fsas m ! i))"
  shows "fsa_free i (Some p) m = Some (std_free p m) \<and>
         pool (fsas (std_free p m) ! i) = pool (fsas m ! i)"
  using assms FREE_REMAINS_less by (simp add: fsa_free_def fsa_trim_full std_free_def)

theorem fsa_free_never_trims_witness:
  "fsa_free 0 (Some 9) \<lparr>mem = Map.empty, brk = 10, junk = (\<lambda>_. 0),
       fsas = [\<lparr>alloc_size = 20, pool = replicate 5000 3\<rparr>]\<rparr> =
     Some (std_free 9 \<lparr>mem = Map.empty, brk = 10, junk = (\<lambda>_. 0),
       fsas = [\<lparr>alloc_size = 20, pool = replicate 5000 3\<rparr>]\<rparr>)"
  by (rule fsa_free_never_trims [THEN conjunct1]) (simp add: FREE_THRESHOLD_def)

end
