(* ===== verification/Byte_Buffer.thy ===== *)
theory Byte_Buffer
  imports Block_Manager
begin

text \<open>
  The buffer of \<open>src/byte_buffer.cpp\<close>: a handle to a shared block and a pair of positions. The
  operations pass the block manager and the buffer explicitly. A null block where the code
  asserts one, and a \<open>memcpy\<close> outside its objects, are \<^const>\<open>None\<close>. Positions are
  \<open>std::size_t\<close>, moves are \<open>int\<close>; every conversion between them is written out.
\<close>

record position =
  pos_read :: nat
  pos_write :: nat

record byte_buffer =
  bb_block :: handle
  bb_pos :: position

section \<open>Positions\<close>

definition position_ctor :: position where
  "position_ctor = \<lparr>pos_read = 0, pos_write = 0\<rparr>"

definition position_copy :: "position \<Rightarrow> position" where
  "position_copy rhs = \<lparr>pos_read = pos_read rhs, pos_write = pos_write rhs\<rparr>"

definition position_assign :: "position \<Rightarrow> position \<Rightarrow> position" where
  "position_assign self rhs = self\<lparr>pos_read := pos_read rhs, pos_write := pos_write rhs\<rparr>"

definition position_set :: "nat \<Rightarrow> nat \<Rightarrow> position \<Rightarrow> position" where
  "position_set r w p = p\<lparr>pos_read := r, pos_write := w\<rparr>"

definition position_swap :: "position \<Rightarrow> position \<Rightarrow> position \<times> position" where
  "position_swap p q =
     (p\<lparr>pos_read := pos_read q, pos_write := pos_write q\<rparr>,
      q\<lparr>pos_read := pos_read p, pos_write := pos_write p\<rparr>)"

section \<open>Sizes and moves\<close>

definition bb_capacity :: "manager \<Rightarrow> byte_buffer \<Rightarrow> nat option" where
  "bb_capacity m b = block_capacity (bb_block b) m"

definition bb_length :: "byte_buffer \<Rightarrow> nat" where
  "bb_length b = size_sub (pos_write (bb_pos b)) (pos_read (bb_pos b))"

definition bb_space :: "manager \<Rightarrow> byte_buffer \<Rightarrow> nat option" where
  "bb_space m b = map_option (\<lambda>c. size_sub c (pos_write (bb_pos b))) (bb_capacity m b)"

definition set_write :: "nat \<Rightarrow> byte_buffer \<Rightarrow> byte_buffer" where
  "set_write w b = b\<lparr>bb_pos := (bb_pos b)\<lparr>pos_write := w\<rparr>\<rparr>"

definition set_read :: "nat \<Rightarrow> byte_buffer \<Rightarrow> byte_buffer" where
  "set_read r b = b\<lparr>bb_pos := (bb_pos b)\<lparr>pos_read := r\<rparr>\<rparr>"

text \<open>The pointers \<open>wr_ptr()\<close> and \<open>rd_ptr()\<close>: a block and an offset into it.\<close>

definition wr_ptr :: "byte_buffer \<Rightarrow> (nat \<times> nat) option" where
  "wr_ptr b = map_option (\<lambda>p. (p, pos_write (bb_pos b))) (bb_block b)"

definition rd_ptr :: "byte_buffer \<Rightarrow> (nat \<times> nat) option" where
  "rd_ptr b = map_option (\<lambda>p. (p, pos_read (bb_pos b))) (bb_block b)"

definition wr_ptr_move :: "int \<Rightarrow> manager \<Rightarrow> byte_buffer \<Rightarrow> (int \<times> byte_buffer) option" where
  "wr_ptr_move move m b =
     (if 0 \<le> move
      then map_option (\<lambda>sp. (let realmove = min move (to_i32 (int sp))
                             in (realmove, set_write (size_add_int (pos_write (bb_pos b)) realmove) b)))
             (bb_space m b)
      else (let realmove = max move (to_i32 (- to_i32 (int (bb_length b))))
            in Some (realmove, set_write (size_add_int (pos_write (bb_pos b)) realmove) b)))"

definition rd_ptr_move :: "int \<Rightarrow> byte_buffer \<Rightarrow> int \<times> byte_buffer" where
  "rd_ptr_move move b =
     (let realmove = (if 0 \<le> move then min move (to_i32 (int (bb_length b)))
                      else max move (to_i32 (- to_i32 (int (pos_read (bb_pos b))))))
      in (realmove, set_read (size_add_int (pos_read (bb_pos b)) realmove) b))"

definition bb_clear :: "byte_buffer \<Rightarrow> byte_buffer" where
  "bb_clear b = b\<lparr>bb_pos := position_set 0 0 (bb_pos b)\<rparr>"

definition bb_tell :: "byte_buffer \<Rightarrow> position" where
  "bb_tell b = position_copy (bb_pos b)"

definition bb_seek :: "position \<Rightarrow> byte_buffer \<Rightarrow> byte_buffer" where
  "bb_seek p b = b\<lparr>bb_pos := position_assign (bb_pos b) p\<rparr>"

section \<open>Reading and writing\<close>

definition bb_peak :: "nat \<Rightarrow> manager \<Rightarrow> byte_buffer \<Rightarrow> byte list option" where
  "bb_peak sz m b =
     Option.bind (rd_ptr b) (\<lambda>(p, off). mem_read (Some p) off (min sz (bb_length b)) m)"

definition bb_read :: "nat \<Rightarrow> manager \<Rightarrow> byte_buffer \<Rightarrow> (byte list \<times> byte_buffer) option" where
  "bb_read sz m b =
     map_option (\<lambda>bs. (bs, snd (rd_ptr_move (to_i32 (int (length bs))) b))) (bb_peak sz m b)"

text \<open>
  \<open>src\<close> is the object the source pointer points into; the result is the number of bytes the
  call reports, the new memory and the new buffer.
\<close>

definition bb_write :: "byte list \<Rightarrow> nat \<Rightarrow> manager \<Rightarrow> byte_buffer \<Rightarrow> (nat \<times> manager \<times> byte_buffer) option" where
  "bb_write src sz m b =
     Option.bind (bb_space m b) (\<lambda>sp.
       (let cpysize = min sz sp
        in if length src < cpysize then None
           else Option.bind (wr_ptr b) (\<lambda>(p, off).
                Option.bind (mem_write (Some p) off (take cpysize src) m) (\<lambda>m'.
                map_option (\<lambda>(r, b'). (to_size r, m', b')) (wr_ptr_move (to_i32 (int cpysize)) m' b)))))"

section \<open>Construction, assignment, destruction\<close>

definition bb_ctor :: byte_buffer where
  "bb_ctor = \<lparr>bb_block = None, bb_pos = position_ctor\<rparr>"

definition bb_ctor_size :: "nat \<Rightarrow> manager \<Rightarrow> (manager \<times> byte_buffer) option" where
  "bb_ctor_size sz m =
     map_option (\<lambda>(h, m'). (m', \<lparr>bb_block = h, bb_pos = position_ctor\<rparr>)) (block_alloc sz m)"

definition bb_ctor_bytes :: "byte list \<Rightarrow> nat \<Rightarrow> manager \<Rightarrow> (manager \<times> byte_buffer) option" where
  "bb_ctor_bytes buf len m =
     Option.bind (bb_ctor_size len m) (\<lambda>(m1, b). map_option snd (bb_write buf len m1 b))"

definition bb_copy_ctor :: "byte_buffer \<Rightarrow> manager \<Rightarrow> (manager \<times> byte_buffer) option" where
  "bb_copy_ctor rhs m =
     map_option (\<lambda>(h, m'). (m', \<lparr>bb_block = h, bb_pos = position_copy (bb_pos rhs)\<rparr>))
       (block_duplicate (bb_block rhs) m)"

text \<open>The moved-from buffer is returned second.\<close>

definition bb_move_ctor :: "byte_buffer \<Rightarrow> byte_buffer \<times> byte_buffer" where
  "bb_move_ctor rhs =
     (\<lparr>bb_block = bb_block rhs, bb_pos = position_copy (bb_pos rhs)\<rparr>,
      \<lparr>bb_block = None, bb_pos = position_set 0 0 (bb_pos rhs)\<rparr>)"

definition bb_assign :: "byte_buffer \<Rightarrow> byte_buffer \<Rightarrow> manager \<Rightarrow> (manager \<times> byte_buffer) option" where
  "bb_assign self rhs m =
     Option.bind (block_duplicate (bb_block rhs) m) (\<lambda>(h, m1).
     map_option (\<lambda>m2. (m2, \<lparr>bb_block = h, bb_pos = position_assign (bb_pos self) (bb_pos rhs)\<rparr>))
       (block_free (bb_block self) m1))"

definition bb_move_assign ::
    "byte_buffer \<Rightarrow> byte_buffer \<Rightarrow> manager \<Rightarrow> (manager \<times> byte_buffer \<times> byte_buffer) option" where
  "bb_move_assign self rhs m =
     Option.bind (block_duplicate (bb_block rhs) m) (\<lambda>(h, m1).
     Option.bind (block_free (bb_block self) m1) (\<lambda>m2.
     map_option (\<lambda>m3. (m3, \<lparr>bb_block = h, bb_pos = position_assign (bb_pos self) (bb_pos rhs)\<rparr>,
                         \<lparr>bb_block = None, bb_pos = position_set 0 0 (bb_pos rhs)\<rparr>))
       (block_free (bb_block rhs) m2)))"

definition bb_dtor :: "byte_buffer \<Rightarrow> manager \<Rightarrow> manager option" where
  "bb_dtor b m = block_free (bb_block b) m"

definition bb_swap :: "byte_buffer \<Rightarrow> byte_buffer \<Rightarrow> byte_buffer \<times> byte_buffer" where
  "bb_swap b rhs =
     (let (p, q) = position_swap (bb_pos b) (bb_pos rhs)
      in (\<lparr>bb_block = bb_block rhs, bb_pos = p\<rparr>, \<lparr>bb_block = bb_block b, bb_pos = q\<rparr>))"

section \<open>Compaction and growth\<close>

definition bb_fit :: "manager \<Rightarrow> byte_buffer \<Rightarrow> (manager \<times> byte_buffer) option" where
  "bb_fit m b =
     Option.bind (rd_ptr b) (\<lambda>(p, off).
     Option.bind (mem_read (Some p) off (bb_length b) m) (\<lambda>bs.
     map_option (\<lambda>m'. (m', set_read 0 (set_write (bb_length b) b))) (mem_write (bb_block b) 0 bs m)))"

definition bb_shrink_to_fit :: "manager \<Rightarrow> byte_buffer \<Rightarrow> (int \<times> manager \<times> byte_buffer) option" where
  "bb_shrink_to_fit m b =
     Option.bind (block_alloc (bb_length b) m) (\<lambda>(h, m1).
     Option.bind (rd_ptr b) (\<lambda>(p, off).
     Option.bind (mem_read (Some p) off (bb_length b) m1) (\<lambda>bs.
     Option.bind (mem_write h 0 bs m1) (\<lambda>m2.
     map_option (\<lambda>m3. (to_i32 (int (pos_read (bb_pos b))), m3,
                         set_read 0 (set_write (bb_length b) (b\<lparr>bb_block := h\<rparr>))))
       (block_free (bb_block b) m2)))))"

text \<open>The local buffer \<open>nb\<close> holds the old block after the swap and its destructor releases it.\<close>

definition bb_reserve :: "int \<Rightarrow> manager \<Rightarrow> byte_buffer \<Rightarrow> (manager \<times> byte_buffer) option" where
  "bb_reserve sz m b =
     Option.bind (block_refcount (bb_block b) m) (\<lambda>rc.
     Option.bind (bb_capacity m b) (\<lambda>cap.
       if rc = 1 \<and> sz < to_i32 (int cap) then Some (m, b)
       else Option.bind (bb_ctor_size (to_size sz) m) (\<lambda>(m1, nb).
            Option.bind
              (if bb_block b \<noteq> None
               then Option.bind (rd_ptr b) (\<lambda>(p, off).
                    Option.bind (bb_space m1 nb) (\<lambda>sp.
                    Option.bind (mem_read (Some p) off (min (bb_length b) sp) m1) (\<lambda>src.
                    map_option snd (bb_write src (bb_length b) m1 nb))))
               else Some (m1, nb)) (\<lambda>(m2, nb2).
            (let (b', nb') = bb_swap b nb2
             in map_option (\<lambda>m3. (m3, b')) (bb_dtor nb' m2))))))"

section \<open>Messages and copies\<close>

text \<open>
  \<open>vsnprintf\<close> into the zeroed 2048 byte array: the first 2047 bytes of the formatted text, the
  result is the length of the whole text.
\<close>

definition fmt_buffer :: "byte list \<Rightarrow> byte list" where
  "fmt_buffer text = take 2047 text @ replicate (2048 - length (take 2047 text)) 0"

definition bb_write_fmt :: "byte list \<Rightarrow> manager \<Rightarrow> byte_buffer \<Rightarrow> (nat \<times> manager \<times> byte_buffer) option" where
  "bb_write_fmt text m b = bb_write (fmt_buffer text) (to_size (to_i32 (int (length text)))) m b"

definition c_string :: "byte list \<Rightarrow> byte list" where
  "c_string msg = takeWhile (\<lambda>c. c \<noteq> 0) msg"

definition bb_write_msg :: "byte list \<Rightarrow> manager \<Rightarrow> byte_buffer \<Rightarrow> (nat \<times> manager \<times> byte_buffer) option" where
  "bb_write_msg msg m b = bb_write (c_string msg) (length (c_string msg)) m b"

text \<open>A wide character is four bytes.\<close>

definition bb_write_msg_w :: "nat list \<Rightarrow> manager \<Rightarrow> byte_buffer \<Rightarrow> (nat \<times> manager \<times> byte_buffer) option" where
  "bb_write_msg_w msg m b =
     (let w = takeWhile (\<lambda>c. c \<noteq> 0) msg
      in bb_write (concat (map (le_bytes 4) w)) (length w * 4) m b)"

definition bb_sub_buffer :: "nat \<Rightarrow> nat \<Rightarrow> manager \<Rightarrow> byte_buffer \<Rightarrow> (manager \<times> byte_buffer) option" where
  "bb_sub_buffer start len m b =
     Option.bind (rd_ptr b) (\<lambda>(p, off).
     Option.bind (bb_ctor_size len m) (\<lambda>(m1, nb).
     Option.bind (bb_space m1 nb) (\<lambda>sp.
     Option.bind (mem_read (Some p) (off + start) (min len sp) m1) (\<lambda>src.
     map_option snd (bb_write src len m1 nb)))))"

definition bb_duplicate :: "byte_buffer \<Rightarrow> manager \<Rightarrow> (manager \<times> byte_buffer) option" where
  "bb_duplicate b m = bb_copy_ctor b m"

definition bb_copy :: "byte_buffer \<Rightarrow> manager \<Rightarrow> (manager \<times> byte_buffer) option" where
  "bb_copy b m =
     map_option (\<lambda>(h, m'). (m', \<lparr>bb_block = h, bb_pos = position_copy (bb_pos b)\<rparr>))
       (block_copy (bb_block b) m)"

text \<open>The stream operators on a POD object of \<open>n\<close> bytes with value \<open>v\<close>.\<close>

definition put_pod :: "nat \<Rightarrow> nat \<Rightarrow> manager \<Rightarrow> byte_buffer \<Rightarrow> (manager \<times> byte_buffer) option" where
  "put_pod n v m b = map_option snd (bb_write (le_bytes n v) n m b)"

definition get_pod :: "nat \<Rightarrow> manager \<Rightarrow> byte_buffer \<Rightarrow> (byte list \<times> byte_buffer) option" where
  "get_pod n m b = bb_read n m b"

section \<open>Well-formed buffers and their contents\<close>

text \<open>
  A buffer over a live block \<open>p\<close> with bytes \<open>bs\<close>: its positions are ordered and inside the
  block, and the block is small enough for its size to be an \<open>int\<close>. An empty buffer has no
  block. Its contents are the bytes between the two positions.
\<close>

definition bb_view :: "manager \<Rightarrow> byte_buffer \<Rightarrow> nat \<Rightarrow> byte list \<Rightarrow> bool" where
  "bb_view m b p bs \<longleftrightarrow>
     bb_block b = Some p \<and> bytes_of m p = Some bs \<and> pos_read (bb_pos b) \<le> pos_write (bb_pos b) \<and>
     pos_write (bb_pos b) \<le> length bs \<and> length bs < 2 ^ 31"

definition contents :: "manager \<Rightarrow> byte_buffer \<Rightarrow> byte list" where
  "contents m b =
     (case bb_block b of
        None \<Rightarrow> []
      | Some p \<Rightarrow> (case bytes_of m p of
           None \<Rightarrow> []
         | Some bs \<Rightarrow> seg (pos_read (bb_pos b)) (pos_write (bb_pos b) - pos_read (bb_pos b)) bs))"

named_theorems bb \<open>behaviour of buffer operations on well-formed buffers\<close>

lemma set_pos_simps [simp]:
  "bb_block (set_write w b) = bb_block b" "bb_block (set_read r b) = bb_block b"
  "pos_write (bb_pos (set_write w b)) = w" "pos_read (bb_pos (set_write w b)) = pos_read (bb_pos b)"
  "pos_read (bb_pos (set_read r b)) = r" "pos_write (bb_pos (set_read r b)) = pos_write (bb_pos b)"
  by (simp_all add: set_write_def set_read_def)

lemma position_ctor_simps [simp]: "pos_read position_ctor = 0" "pos_write position_ctor = 0"
  by (simp_all add: position_ctor_def)

lemma bytes_of_mem:
  assumes "manager_inv m" "bytes_of m p = Some bs"
  obtains b where "mem m p = Some b" "data b = bs" "capacity b = length bs" "0 < refcount b"
    "count_of m p = refcount b"
  using assms live_block_ok(1) [OF assms(1)] by (fastforce simp: bytes_of_Some)

lemma block_capacity_bytes:
  assumes "manager_inv m" "bytes_of m p = Some bs"
  shows "block_capacity (Some p) m = Some (length bs)"
  using assms by (rule bytes_of_mem) (simp add: block_capacity_def)

lemma block_refcount_bytes:
  assumes "manager_inv m" "bytes_of m p = Some bs"
  shows "block_refcount (Some p) m = Some (count_of m p)"
  using assms by (rule bytes_of_mem) (simp add: block_refcount_def)

lemma mem_read_bytes:
  assumes "manager_inv m" "bytes_of m p = Some bs" "off + n \<le> length bs"
  shows "mem_read (Some p) off n m = Some (seg off n bs)"
  using assms(1,2) by (rule bytes_of_mem) (use assms(3) in \<open>simp add: mem_read_def\<close>)

lemma mem_write_bytes:
  assumes inv: "manager_inv m" and bs: "bytes_of m p = Some bs" and fits: "off + length xs \<le> length bs"
  obtains m' where "mem_write (Some p) off xs m = Some m'" "manager_inv m'"
    "bytes_of m' p = Some (put_at off xs bs)" "count_of m' p = count_of m p" "same_except p m m'"
proof -
  obtain b where b: "mem m p = Some b" "data b = bs" "0 < refcount b"
    using inv bs by (rule bytes_of_mem)
  let ?m = "m\<lparr>mem := (mem m)(p \<mapsto> b\<lparr>data := put_at off xs bs\<rparr>)\<rparr>"
  have w: "mem_write (Some p) off xs m = Some ?m"
    using b fits by (simp add: mem_write_def)
  moreover have "manager_inv ?m"
    using inv w b(1,3) by (intro mem_write_inv [OF inv _ w]) (auto simp: live_def)
  ultimately show ?thesis
    using that [of ?m] b by (simp add: bytes_of_def count_of_def same_except_upd)
qed

lemma bb_viewD:
  assumes "bb_view m b p bs"
  shows "bb_block b = Some p" "bytes_of m p = Some bs" "pos_read (bb_pos b) \<le> pos_write (bb_pos b)"
    "pos_write (bb_pos b) \<le> length bs" "length bs < 2147483648"
  using assms by (simp_all add: bb_view_def)

lemma contents_view:
  "bb_view m b p bs \<Longrightarrow>
     contents m b = seg (pos_read (bb_pos b)) (pos_write (bb_pos b) - pos_read (bb_pos b)) bs"
  by (simp add: contents_def bb_view_def)

lemma bb_length_view [bb]:
  "bb_view m b p bs \<Longrightarrow> bb_length b = pos_write (bb_pos b) - pos_read (bb_pos b)"
  using bb_viewD [of m b p bs] by (simp add: bb_length_def size_sub_le)

lemma length_contents [bb]: "bb_view m b p bs \<Longrightarrow> length (contents m b) = bb_length b"
  using bb_viewD [of m b p bs] by (simp add: contents_view bb_length_view)

lemma bb_capacity_view [bb]:
  "manager_inv m \<Longrightarrow> bb_view m b p bs \<Longrightarrow> bb_capacity m b = Some (length bs)"
  using bb_viewD [of m b p bs] by (simp add: bb_capacity_def block_capacity_bytes)

lemma bb_space_view [bb]:
  "manager_inv m \<Longrightarrow> bb_view m b p bs \<Longrightarrow> bb_space m b = Some (length bs - pos_write (bb_pos b))"
  using bb_viewD [of m b p bs] by (simp add: bb_space_def bb_capacity_view size_sub_le)

lemma wr_ptr_move_view [bb]:
  assumes "manager_inv m" "bb_view m b p bs" "- (2 ^ 31) \<le> k" "k < 2 ^ 31"
  shows "wr_ptr_move k m b =
     (let r = (if 0 \<le> k then min k (int (length bs - pos_write (bb_pos b)))
               else max k (- int (bb_length b)))
      in Some (r, set_write (nat (int (pos_write (bb_pos b)) + r)) b))"
  using bb_viewD [OF assms(2)] bb_space_view [OF assms(1,2)] bb_length_view [OF assms(2)] assms(3,4)
  by (auto simp: wr_ptr_move_def to_i32_id size_add_int_id Let_def min_def max_def)

lemma rd_ptr_move_view [bb]:
  assumes "bb_view m b p bs" "- (2 ^ 31) \<le> k" "k < 2 ^ 31"
  shows "rd_ptr_move k b =
     (let r = (if 0 \<le> k then min k (int (bb_length b)) else max k (- int (pos_read (bb_pos b))))
      in (r, set_read (nat (int (pos_read (bb_pos b)) + r)) b))"
  using bb_viewD [OF assms(1)] bb_length_view [OF assms(1)] assms(2,3)
  by (auto simp: rd_ptr_move_def to_i32_id size_add_int_id Let_def min_def max_def)

lemma bb_peak_view [bb]:
  assumes "manager_inv m" "bb_view m b p bs"
  shows "bb_peak n m b = Some (take n (contents m b))"
proof -
  have "mem_read (Some p) (pos_read (bb_pos b)) (min n (bb_length b)) m =
      Some (seg (pos_read (bb_pos b)) (min n (bb_length b)) bs)"
    using bb_viewD [OF assms(2)] bb_length_view [OF assms(2)] assms(1)
    by (intro mem_read_bytes) auto
  then show ?thesis
    using bb_viewD [OF assms(2)] bb_length_view [OF assms(2)]
    by (simp add: bb_peak_def rd_ptr_def contents_view [OF assms(2)] take_seg)
qed

lemma bb_read_view [bb]:
  assumes "manager_inv m" "bb_view m b p bs"
  shows "bb_read n m b =
     Some (take n (contents m b), set_read (pos_read (bb_pos b) + min n (bb_length b)) b)"
  using bb_viewD [OF assms(2)] bb_length_view [OF assms(2)]
  by (simp add: bb_read_def bb_peak_view [OF assms] length_contents [OF assms(2)] to_i32_id
      rd_ptr_move_view [OF assms(2)] nat_add_distrib)

lemma bb_read_contents:
  assumes "bb_view m b p bs"
  shows "bb_view m (set_read (pos_read (bb_pos b) + min n (bb_length b)) b) p bs \<and>
         contents m (set_read (pos_read (bb_pos b) + min n (bb_length b)) b) = drop n (contents m b)"
proof -
  have v: "bb_view m (set_read (pos_read (bb_pos b) + min n (bb_length b)) b) p bs"
    using assms bb_length_view [OF assms] by (auto simp: bb_view_def)
  then show ?thesis
    using bb_viewD [OF assms] bb_length_view [OF assms] contents_view [OF v]
    by (auto simp: contents_view [OF assms] drop_seg min_def)
qed

lemma bb_write_view:
  assumes inv: "manager_inv m" and v: "bb_view m b p bs" and src: "sz \<le> length src"
  defines "n \<equiv> min sz (length bs - pos_write (bb_pos b))"
  obtains m' where "bb_write src sz m b = Some (n, m', set_write (pos_write (bb_pos b) + n) b)"
    "manager_inv m'" "bb_view m' (set_write (pos_write (bb_pos b) + n) b) p
       (put_at (pos_write (bb_pos b)) (take n src) bs)"
    "contents m' (set_write (pos_write (bb_pos b) + n) b) = contents m b @ take n src"
    "count_of m' p = count_of m p" "same_except p m m'"
proof -
  note d = bb_viewD [OF v]
  let ?w = "pos_write (bb_pos b)" and ?xs = "take n src"
  have len: "length ?xs = n" "n < 2 ^ 31" and fits: "?w + length ?xs \<le> length bs"
    using d src by (auto simp: n_def min_def)
  obtain m' where w: "mem_write (Some p) ?w ?xs m = Some m'" and inv': "manager_inv m'"
    and bs': "bytes_of m' p = Some (put_at ?w ?xs bs)" and c: "count_of m' p = count_of m p"
    and s: "same_except p m m'"
    using inv d(2) fits by (rule mem_write_bytes)
  have v': "bb_view m' b p (put_at ?w ?xs bs)"
    using d bs' fits by (simp add: bb_view_def length_put_at)
  have "n \<le> length (put_at ?w ?xs bs) - ?w"
    using fits len(1) by (simp add: length_put_at)
  then have "wr_ptr_move (int n) m' b = Some (int n, set_write (?w + n) b)"
    using wr_ptr_move_view [OF inv' v', of "int n"] len(2) by (simp add: nat_add_distrib min_def)
  moreover have "min sz (length bs - ?w) = n" "\<not> length src < n"
    using src by (auto simp: n_def)
  ultimately have "bb_write src sz m b = Some (n, m', set_write (?w + n) b)"
    using d w src len(2) bb_space_view [OF inv v]
    by (simp add: bb_write_def wr_ptr_def to_i32_id to_size_id)
  moreover have v2: "bb_view m' (set_write (?w + n) b) p (put_at ?w ?xs bs)"
    using v' fits len by (simp add: bb_view_def length_put_at)
  moreover have "contents m' (set_write (?w + n) b) = contents m b @ ?xs"
    using seg_put_at_extend [OF d(3) fits] d(3) len(1)
    by (simp add: contents_view [OF v2] contents_view [OF v])
  ultimately show ?thesis using that [of m'] inv' c s by blast
qed

section \<open>Allocation of buffers, compaction and growth\<close>

lemma bytes_same: "same_except p m m' \<Longrightarrow> q \<noteq> p \<Longrightarrow> bytes_of m' q = bytes_of m q"
  and count_same: "same_except p m m' \<Longrightarrow> q \<noteq> p \<Longrightarrow> count_of m' q = count_of m q"
  by (simp_all add: same_except_def)

lemma bb_view_same:
  "same_except p m m' \<Longrightarrow> q \<noteq> p \<Longrightarrow> bb_view m' b q bs = bb_view m b q bs"
  by (simp add: bb_view_def bytes_same)

lemma contents_same:
  "same_except p m m' \<Longrightarrow> bb_block b \<noteq> Some p \<Longrightarrow> contents m' b = contents m b"
  by (cases "bb_block b") (simp_all add: contents_def bytes_same)

lemma bb_ctor_size_view:
  assumes "manager_inv m" "sz < 2 ^ 31"
  obtains m' p bs where "bb_ctor_size sz m = Some (m', \<lparr>bb_block = Some p, bb_pos = position_ctor\<rparr>)"
    "manager_inv m'" "bb_view m' \<lparr>bb_block = Some p, bb_pos = position_ctor\<rparr> p bs"
    "sz \<le> length bs" "bytes_of m p = None" "count_of m' p = 1" "same_except p m m'"
proof -
  obtain p m' bs where a: "block_alloc sz m = Some (Some p, m')" "manager_inv m'" "bytes_of m p = None"
      "bytes_of m' p = Some bs" "sz \<le> length bs" "length bs \<le> max sz 16384" "count_of m' p = 1"
      "same_except p m m'"
    using bs.alloc_law [OF assms(1), of sz] assms(2) by auto
  then have "length bs < 2 ^ 31" using assms(2) by simp
  with a that [of m' p bs] show ?thesis
    by (simp add: bb_ctor_size_def bb_view_def)
qed

lemma contents_ctor [simp]: "contents m \<lparr>bb_block = h, bb_pos = position_ctor\<rparr> = []"
  by (simp add: contents_def split: option.splits)

text \<open>A fresh buffer filled with all of a byte list.\<close>

lemma bb_fresh_write:
  assumes inv: "manager_inv m" and sz: "length src < 2 ^ 31"
  obtains m1 p m' nb bs where
    "bb_ctor_size (length src) m = Some (m1, \<lparr>bb_block = Some p, bb_pos = position_ctor\<rparr>)"
    "bb_space m1 \<lparr>bb_block = Some p, bb_pos = position_ctor\<rparr> = Some (length bs)"
    "length src \<le> length bs" "same_except p m m1" "manager_inv m1"
    "bb_write src (length src) m1 \<lparr>bb_block = Some p, bb_pos = position_ctor\<rparr> = Some (length src, m', nb)"
    "manager_inv m'" "bb_view m' nb p (put_at 0 src bs)" "contents m' nb = src"
    "bytes_of m p = None" "count_of m' p = 1" "same_except p m m'" "pos_read (bb_pos nb) = 0"
proof -
  let ?b = "\<lambda>p. \<lparr>bb_block = Some p, bb_pos = position_ctor\<rparr>"
  obtain m1 p bs where c: "bb_ctor_size (length src) m = Some (m1, ?b p)" and inv1: "manager_inv m1"
    and v: "bb_view m1 (?b p) p bs" and le: "length src \<le> length bs" and fr: "bytes_of m p = None"
    and rc: "count_of m1 p = 1" and s1: "same_except p m m1"
    using inv sz by (rule bb_ctor_size_view)
  have n: "min (length src) (length bs - pos_write (bb_pos (?b p))) = length src"
    using le by simp
  have sp: "bb_space m1 (?b p) = Some (length bs)"
    using bb_space_view [OF inv1 v] by simp
  let ?w = "pos_write (bb_pos (?b p))" and ?n = "min (length src) (length bs - pos_write (bb_pos (?b p)))"
  obtain m' where w: "bb_write src (length src) m1 (?b p) = Some (?n, m', set_write (?w + ?n) (?b p))"
      "manager_inv m'" "bb_view m' (set_write (?w + ?n) (?b p)) p (put_at ?w (take ?n src) bs)"
      "contents m' (set_write (?w + ?n) (?b p)) = contents m1 (?b p) @ take ?n src"
      "count_of m' p = count_of m1 p" "same_except p m1 m'"
    by (rule bb_write_view [OF inv1 v order_refl])
  moreover from this have "same_except p m m'"
    using s1 bs.same_trans by blast
  moreover have "?w = 0" by simp
  ultimately show ?thesis
    using that [of m1 p bs m' "set_write (?w + ?n) (?b p)"] c fr rc inv1 s1 le sp n
    by simp
qed

lemma bb_fit_view:
  assumes inv: "manager_inv m" and v: "bb_view m b p bs"
  obtains m' where "bb_fit m b = Some (m', set_read 0 (set_write (bb_length b) b))" "manager_inv m'"
    "bb_view m' (set_read 0 (set_write (bb_length b) b)) p (put_at 0 (contents m b) bs)"
    "contents m' (set_read 0 (set_write (bb_length b) b)) = contents m b"
    "count_of m' p = count_of m p" "same_except p m m'"
proof -
  note d = bb_viewD [OF v] bb_length_view [OF v] length_contents [OF v]
  have r: "mem_read (Some p) (pos_read (bb_pos b)) (bb_length b) m = Some (contents m b)"
    using mem_read_bytes [OF inv d(2)] d by (simp add: contents_view [OF v])
  have fits: "0 + length (contents m b) \<le> length bs" using d by simp
  obtain m' where w: "mem_write (Some p) 0 (contents m b) m = Some m'" and inv': "manager_inv m'"
    and bs': "bytes_of m' p = Some (put_at 0 (contents m b) bs)" and c: "count_of m' p = count_of m p"
    and s: "same_except p m m'"
    using inv d(2) fits by (rule mem_write_bytes)
  have v': "bb_view m' (set_read 0 (set_write (bb_length b) b)) p (put_at 0 (contents m b) bs)"
    using d bs' fits by (simp add: bb_view_def length_put_at)
  moreover have "contents m' (set_read 0 (set_write (bb_length b) b)) = contents m b"
    using seg_put_at_same [OF fits] d contents_view [OF v'] by simp
  ultimately show ?thesis
    using that [of m'] r w inv' c s d by (simp add: bb_fit_def rd_ptr_def)
qed

lemma bb_sub_buffer_view:
  assumes inv: "manager_inv m" and v: "bb_view m b p bs" and len: "start + len \<le> bb_length b"
  obtains m' nb q qs where "bb_sub_buffer start len m b = Some (m', nb)" "manager_inv m'"
    "bb_view m' nb q qs" "contents m' nb = take len (drop start (contents m b))"
    "bytes_of m q = None" "count_of m' q = 1" "same_except q m m'"
proof -
  note d = bb_viewD [OF v] bb_length_view [OF v]
  let ?src = "seg (pos_read (bb_pos b) + start) len bs"
  have lsrc: "length ?src = len" "length ?src < 2 ^ 31" using d len by auto
  obtain m1 q m' nb qs where
    f0: "bb_ctor_size (length ?src) m = Some (m1, \<lparr>bb_block = Some q, bb_pos = position_ctor\<rparr>)"
       "bb_space m1 \<lparr>bb_block = Some q, bb_pos = position_ctor\<rparr> = Some (length qs)"
       "length ?src \<le> length qs" "same_except q m m1" "manager_inv m1"
       "bb_write ?src (length ?src) m1 \<lparr>bb_block = Some q, bb_pos = position_ctor\<rparr> = Some (length ?src, m', nb)"
       "manager_inv m'" "bb_view m' nb q (put_at 0 ?src qs)" "contents m' nb = ?src"
       "bytes_of m q = None" "count_of m' q = 1" "same_except q m m'" "pos_read (bb_pos nb) = 0"
    by (rule bb_fresh_write [OF inv lsrc(2)])
  note f = f0 [unfolded lsrc(1)]
  have "p \<noteq> q" using d(2) f(10) by auto
  then have "bytes_of m1 p = Some bs" using bytes_same [OF f(4)] d(2) by simp
  then have "mem_read (Some p) (pos_read (bb_pos b) + start) len m1 = Some ?src"
    using d len by (intro mem_read_bytes f(5)) auto
  then have "bb_sub_buffer start len m b = Some (m', nb)"
    using f(1,2,3,6) d(1) by (simp add: bb_sub_buffer_def rd_ptr_def min_def)
  moreover have "?src = take len (drop start (contents m b))"
    using len d by (auto simp: contents_view [OF v] drop_seg take_seg min_def)
  ultimately show ?thesis using that f by metis
qed

definition others_kept :: "handle \<Rightarrow> manager \<Rightarrow> manager \<Rightarrow> bool" where
  "others_kept h m m' \<longleftrightarrow>
     (\<forall>q. bytes_of m q \<noteq> None \<longrightarrow> h \<noteq> Some q \<longrightarrow>
        bytes_of m' q = bytes_of m q \<and> count_of m' q = count_of m q)"

text \<open>A buffer its owner may use: no block and no bytes, or a reference to a live block.\<close>

definition bb_ok :: "manager \<Rightarrow> byte_buffer \<Rightarrow> bool" where
  "bb_ok m b \<longleftrightarrow>
     (case bb_block b of
        None \<Rightarrow> bb_pos b = position_ctor
      | Some p \<Rightarrow> (\<exists>bs. bb_view m b p bs) \<and> 0 < count_of m p \<and> count_of m p < 2 ^ 31)"

lemma release_bytes:
  assumes "manager_inv m" "bytes_of m p = Some bs" "0 < count_of m p" "count_of m p < 2 ^ 31"
  obtains m' where "block_free (Some p) m = Some m'" "manager_inv m'" "same_except p m m'"
proof (cases "count_of m p = 1")
  case True
  then show ?thesis using that bs.release_last_law [OF assms(1,2)] by blast
next
  case False
  then show ?thesis
    using that bs.release_shared_law [OF assms(1,2)] assms(3,4) by force
qed

lemma bb_swap_simps [simp]: "bb_swap b rhs = (rhs, b)"
  by (simp add: bb_swap_def position_swap_def)

text \<open>\<open>reserve\<close> when it allocates: the old contents move to a block that is large enough.\<close>

lemma bb_reserve_grow:
  assumes inv: "manager_inv m" and v: "bb_view m b p bs" and c: "0 < count_of m p" "count_of m p < 2 ^ 31"
    and sz: "int (bb_length b) \<le> sz" "sz < 2 ^ 31" and grow: "count_of m p \<noteq> 1 \<or> int (length bs) \<le> sz"
  obtains m' b' q qs where "bb_reserve sz m b = Some (m', b')" "manager_inv m'" "bb_view m' b' q qs"
    "contents m' b' = contents m b" "sz \<le> int (length qs)" "pos_read (bb_pos b') = 0"
    "count_of m' q = 1" "others_kept (Some p) m m'"
proof -
  note d = bb_viewD [OF v] bb_length_view [OF v] length_contents [OF v]
  have nsz: "nat sz < 2 ^ 31" "to_size sz = nat sz" "0 \<le> sz"
    using sz by (auto simp: to_size_id)
  obtain m1 q qs where a: "bb_ctor_size (nat sz) m = Some (m1, \<lparr>bb_block = Some q, bb_pos = position_ctor\<rparr>)"
      "manager_inv m1" "bb_view m1 \<lparr>bb_block = Some q, bb_pos = position_ctor\<rparr> q qs"
      "nat sz \<le> length qs" "bytes_of m q = None" "count_of m1 q = 1" "same_except q m m1"
    using inv nsz(1) by (rule bb_ctor_size_view)
  let ?nb = "\<lparr>bb_block = Some q, bb_pos = position_ctor\<rparr>"
  have pq: "p \<noteq> q" using d(2) a(5) by auto
  have sp: "bb_space m1 ?nb = Some (length qs)" using bb_space_view [OF a(2,3)] by simp
  have le: "bb_length b \<le> length qs" using sz(1) a(4) by linarith
  have b1: "bytes_of m1 p = Some bs" using bytes_same [OF a(7) pq] d(2) by simp
  have r: "mem_read (Some p) (pos_read (bb_pos b)) (bb_length b) m1 = Some (contents m b)"
    using mem_read_bytes [OF a(2) b1] d by (simp add: contents_view [OF v])
  have ge: "bb_length b \<le> length (contents m b)" using d by simp
  let ?n = "min (bb_length b) (length qs - pos_write (bb_pos ?nb))"
  obtain m2 where w: "bb_write (contents m b) (bb_length b) m1 ?nb =
        Some (?n, m2, set_write (pos_write (bb_pos ?nb) + ?n) ?nb)" "manager_inv m2"
      "bb_view m2 (set_write (pos_write (bb_pos ?nb) + ?n) ?nb) q
         (put_at (pos_write (bb_pos ?nb)) (take ?n (contents m b)) qs)"
      "contents m2 (set_write (pos_write (bb_pos ?nb) + ?n) ?nb) =
         contents m1 ?nb @ take ?n (contents m b)"
      "count_of m2 q = count_of m1 q" "same_except q m1 m2"
    by (rule bb_write_view [OF a(2,3) ge])
  have n: "pos_write (bb_pos ?nb) + ?n = bb_length b" "?n = bb_length b" using le by simp_all
  let ?b' = "set_write (bb_length b) ?nb"
  have b2: "bytes_of m2 p = Some bs" and c2: "count_of m2 p = count_of m p"
    using bytes_same [OF w(6) pq] count_same [OF w(6) pq] count_same [OF a(7) pq] b1 by simp_all
  obtain m3 where f: "block_free (Some p) m2 = Some m3" "manager_inv m3" "same_except p m2 m3"
    using w(2) b2 by (rule release_bytes) (use c c2 in auto)
  have "bb_reserve sz m b = Some (m3, ?b')"
    using grow d nsz sz a(1) sp r w(1) f(1) le n block_refcount_bytes [OF inv d(2)]
      bb_capacity_view [OF inv v]
    by (auto simp: bb_reserve_def rd_ptr_def to_i32_id min_def bb_dtor_def)
  moreover have "bb_view m3 ?b' q (put_at 0 (contents m b) qs)"
    using w(3) n pq d bb_view_same [OF f(3)] by simp
  moreover have "contents m3 ?b' = contents m b"
    using w(4) n d contents_same [OF f(3), of ?b'] pq by simp
  moreover have "sz \<le> int (length (put_at 0 (contents m b) qs))"
    using a(4) nsz(3) le d by (simp add: length_put_at nat_le_iff)
  moreover have "count_of m3 q = 1" using count_same [OF f(3)] w(5) a(6) pq by simp
  moreover have "others_kept (Some p) m m3"
    using a(5,7) w(6) f(3) unfolding others_kept_def same_except_def by (metis option.distinct(1))
  ultimately show ?thesis using that f(2) by simp
qed

lemma bb_reserve_ok:
  assumes inv: "manager_inv m" and ok: "bb_ok m b" and sz: "int (bb_length b) \<le> sz" "sz < 2 ^ 31"
  obtains m' b' q qs where "bb_reserve sz m b = Some (m', b')" "manager_inv m'" "bb_view m' b' q qs"
    "contents m' b' = contents m b" "sz \<le> int (length qs)"
    "pos_read (bb_pos b) = 0 \<longrightarrow> pos_read (bb_pos b') = 0" "count_of m' q = 1"
    "others_kept (bb_block b) m m'"
proof (cases "bb_block b")
  case None
  then have b: "b = \<lparr>bb_block = None, bb_pos = position_ctor\<rparr>"
    using ok by (cases b) (simp add: bb_ok_def)
  have nsz: "nat sz < 2 ^ 31" "to_size sz = nat sz" "0 \<le> sz"
    using sz by (auto simp: to_size_id)
  obtain m1 q qs where a: "bb_ctor_size (nat sz) m = Some (m1, \<lparr>bb_block = Some q, bb_pos = position_ctor\<rparr>)"
      "manager_inv m1" "bb_view m1 \<lparr>bb_block = Some q, bb_pos = position_ctor\<rparr> q qs"
      "nat sz \<le> length qs" "bytes_of m q = None" "count_of m1 q = 1" "same_except q m m1"
    using inv nsz(1) by (rule bb_ctor_size_view)
  have "bb_reserve sz m b = Some (m1, \<lparr>bb_block = Some q, bb_pos = position_ctor\<rparr>)"
    using a(1) nsz
    by (simp add: bb_reserve_def b block_refcount_def bb_capacity_def block_capacity_def
        bb_dtor_def block_free_def)
  moreover have "others_kept None m m1"
    using a(5,7) unfolding others_kept_def same_except_def by (metis option.distinct(1))
  ultimately show ?thesis using that a b nsz by (simp add: nat_le_iff)
next
  case (Some p)
  then obtain bs where v: "bb_view m b p bs" and c: "0 < count_of m p" "count_of m p < 2 ^ 31"
    using ok by (auto simp: bb_ok_def)
  note d = bb_viewD [OF v]
  show ?thesis
  proof (cases "count_of m p = 1 \<and> sz < int (length bs)")
    case True
    then have "bb_reserve sz m b = Some (m, b)"
      using d block_refcount_bytes [OF inv d(2)] bb_capacity_view [OF inv v]
      by (simp add: bb_reserve_def to_i32_id)
    then show ?thesis using that [of m b p bs] inv v True by (simp add: others_kept_def)
  next
    case False
    then have "count_of m p \<noteq> 1 \<or> int (length bs) \<le> sz" by auto
    with inv v c sz obtain m' b' q qs where "bb_reserve sz m b = Some (m', b')" "manager_inv m'"
        "bb_view m' b' q qs" "contents m' b' = contents m b" "sz \<le> int (length qs)"
        "pos_read (bb_pos b') = 0" "count_of m' q = 1" "others_kept (Some p) m m'"
      by (rule bb_reserve_grow)
    then show ?thesis using that [of m' b' q qs] Some by simp
  qed
qed

section \<open>Properties\<close>

text \<open>A concrete state for the witnesses: one block of four bytes, three of them written.\<close>

definition demo_manager :: manager where
  "demo_manager =
     \<lparr>mem = [0 \<mapsto> \<lparr>refcount = 1, capacity = 4, data = [1, 2, 3, 0]\<rparr>], brk = 1, junk = (\<lambda>_. 0),
      fsas = map (\<lambda>s. \<lparr>alloc_size = s + sizeof_block_hdr, pool = []\<rparr>) alloc_size_table\<rparr>"

definition demo_buffer :: byte_buffer where
  "demo_buffer = \<lparr>bb_block = Some 0, bb_pos = \<lparr>pos_read = 0, pos_write = 3\<rparr>\<rparr>"

lemma demo_inv: "manager_inv demo_manager"
proof (rule manager_invI)
  show "pool_ok demo_manager i" if "i < 11" for i
    using that by (simp add: demo_manager_def pool_ok_def)
  show "block_ok demo_manager p b" if "mem demo_manager p = Some b" for p b
    using that by (auto simp: demo_manager_def block_ok_def alloc_size_table_def split: if_splits)
qed (simp add: demo_manager_def)

lemma demo_view: "bb_view demo_manager demo_buffer 0 [1, 2, 3, 0]"
  by (simp add: bb_view_def demo_manager_def demo_buffer_def bytes_of_def)

lemma demo_contents: "contents demo_manager demo_buffer = [1, 2, 3]"
  using contents_view [OF demo_view] by (simp add: demo_buffer_def seg_def)

lemma demo_length: "bb_length demo_buffer = 3"
  using bb_length_view [OF demo_view] by (simp add: demo_buffer_def)

lemma demo_count: "count_of demo_manager 0 = 1"
  by (simp add: demo_manager_def count_of_def)

text \<open>
  C19. Writing appends: on a well-formed buffer \<open>write\<close> copies as many of the given bytes as
  there is space for, reports that number, appends exactly these bytes to the contents, keeps
  the buffer well formed and leaves every other block alone.
\<close>

theorem write_appends:
  assumes "manager_inv m" and "bb_view m b p bs" and "sz \<le> length src"
  shows "\<exists>n m' b' bs'. bb_write src sz m b = Some (n, m', b') \<and>
           Some n = map_option (min sz) (bb_space m b) \<and>
           contents m' b' = contents m b @ take n src \<and>
           manager_inv m' \<and> bb_view m' b' p bs' \<and> length bs' = length bs \<and> same_except p m m'"
proof -
  let ?w = "pos_write (bb_pos b)" and ?n = "min sz (length bs - pos_write (bb_pos b))"
  obtain m' where w: "bb_write src sz m b = Some (?n, m', set_write (?w + ?n) b)" "manager_inv m'"
      "bb_view m' (set_write (?w + ?n) b) p (put_at ?w (take ?n src) bs)"
      "contents m' (set_write (?w + ?n) b) = contents m b @ take ?n src"
      "count_of m' p = count_of m p" "same_except p m m'"
    by (rule bb_write_view [OF assms])
  moreover have "length (put_at ?w (take ?n src) bs) = length bs"
    using bb_viewD [OF assms(2)] assms(3) by (intro length_put_at) simp
  ultimately show ?thesis
    using bb_space_view [OF assms(1,2)] by fastforce
qed

theorem write_appends_witness:
  "\<exists>n m' b'. bb_write [9, 8] 2 demo_manager demo_buffer = Some (n, m', b') \<and>
     Some n = map_option (min 2) (bb_space demo_manager demo_buffer) \<and>
     contents m' b' = [1, 2, 3] @ take n [9, 8]"
  using write_appends [OF demo_inv demo_view, of 2 "[9, 8]"] by (auto simp: demo_contents)

text \<open>
  C20. Reading consumes: \<open>peak\<close> returns the first bytes of the contents without moving, \<open>read\<close>
  returns the same bytes and removes them; neither changes memory.
\<close>

theorem read_consumes:
  assumes "manager_inv m" and "bb_view m b p bs"
  shows "\<exists>b'. bb_peak n m b = Some (take n (contents m b)) \<and>
           bb_read n m b = Some (take n (contents m b), b') \<and>
           contents m b' = drop n (contents m b) \<and> bb_view m b' p bs"
  using bb_peak_view [OF assms] bb_read_view [OF assms] bb_read_contents [OF assms(2)] by blast

theorem read_consumes_witness:
  "\<exists>b'. bb_peak 2 demo_manager demo_buffer = Some [1, 2] \<and>
     bb_read 2 demo_manager demo_buffer = Some ([1, 2], b') \<and> contents demo_manager b' = [3]"
  using read_consumes [OF demo_inv demo_view, of 2] by (auto simp: demo_contents)

text \<open>
  Moving a position never leaves the buffer: for every \<open>int\<close> the clamped moves of \<open>wr_ptr\<close>
  and \<open>rd_ptr\<close> keep the positions ordered and inside the block, return the distance moved,
  and a move forward within the limits is made in full.
\<close>

theorem moves_stay_inside:
  assumes "manager_inv m" and "bb_view m b p bs" and "- (2 ^ 31) \<le> k" and "k < 2 ^ 31"
  shows "(\<exists>r b1. wr_ptr_move k m b = Some (r, b1) \<and> bb_view m b1 p bs \<and>
           int (pos_write (bb_pos b1)) = int (pos_write (bb_pos b)) + r \<and>
           (0 \<le> k \<and> k \<le> int (length bs - pos_write (bb_pos b)) \<longrightarrow> r = k)) \<and>
         (\<exists>r b2. rd_ptr_move k b = (r, b2) \<and> bb_view m b2 p bs \<and>
           int (pos_read (bb_pos b2)) = int (pos_read (bb_pos b)) + r \<and>
           (0 \<le> k \<and> k \<le> int (bb_length b) \<longrightarrow> r = k))"
  using bb_viewD [OF assms(2)] bb_length_view [OF assms(2)] assms(3,4)
  by (auto simp: wr_ptr_move_view [OF assms] rd_ptr_move_view [OF assms(2-4)] Let_def bb_view_def
      min_def max_def)

theorem moves_stay_inside_witness:
  "\<exists>r b1. wr_ptr_move (- 2) demo_manager demo_buffer = Some (r, b1) \<and>
     bb_view demo_manager b1 0 [1, 2, 3, 0]"
  using moves_stay_inside [OF demo_inv demo_view, of "- 2"] by auto

text \<open>
  Compaction and growth keep the contents: \<open>fit\<close> moves the bytes to the front of the block,
  and \<open>reserve\<close> of at least the current length leaves the contents as they are in a block with
  at least the requested capacity that nobody else holds.
\<close>

theorem fit_and_reserve_keep_contents:
  assumes "manager_inv m" and "bb_view m b p bs" and "0 < count_of m p" and "count_of m p < 2 ^ 31"
    and "int (bb_length b) \<le> sz" and "sz < 2 ^ 31"
  shows "(\<exists>m1 b1. bb_fit m b = Some (m1, b1) \<and> contents m1 b1 = contents m b \<and>
            pos_read (bb_pos b1) = 0 \<and> manager_inv m1 \<and> same_except p m m1) \<and>
         (\<exists>m2 b2 q qs. bb_reserve sz m b = Some (m2, b2) \<and> contents m2 b2 = contents m b \<and>
            bb_view m2 b2 q qs \<and> sz \<le> int (length qs) \<and> count_of m2 q = 1 \<and> manager_inv m2 \<and>
            others_kept (Some p) m m2)"
proof
  show "\<exists>m1 b1. bb_fit m b = Some (m1, b1) \<and> contents m1 b1 = contents m b \<and>
          pos_read (bb_pos b1) = 0 \<and> manager_inv m1 \<and> same_except p m m1"
    by (rule bb_fit_view [OF assms(1,2)]) auto
  have ok: "bb_ok m b" using assms bb_viewD(1) [OF assms(2)] by (auto simp: bb_ok_def)
  obtain m2 b2 q qs where "bb_reserve sz m b = Some (m2, b2)" "manager_inv m2" "bb_view m2 b2 q qs"
      "contents m2 b2 = contents m b" "sz \<le> int (length qs)" "count_of m2 q = 1"
      "others_kept (bb_block b) m m2"
    by (rule bb_reserve_ok [OF assms(1) ok assms(5,6)])
  then show "\<exists>m2 b2 q qs. bb_reserve sz m b = Some (m2, b2) \<and> contents m2 b2 = contents m b \<and>
          bb_view m2 b2 q qs \<and> sz \<le> int (length qs) \<and> count_of m2 q = 1 \<and> manager_inv m2 \<and>
          others_kept (Some p) m m2"
    using bb_viewD(1) [OF assms(2)] by force
qed

theorem fit_and_reserve_keep_contents_witness:
  "\<exists>m2 b2. bb_reserve 4096 demo_manager demo_buffer = Some (m2, b2) \<and> contents m2 b2 = [1, 2, 3]"
  using fit_and_reserve_keep_contents [OF demo_inv demo_view, of 4096]
  by (auto simp: demo_contents demo_count demo_length)

text \<open>
  \<open>copy\<close> is deep and \<open>duplicate\<close> is shallow: a copy has the same contents in a block of its
  own, a duplicate shares the block and counts one more owner.
\<close>

theorem copy_deep_duplicate_shallow:
  assumes inv: "manager_inv m" and v: "bb_view m b p bs" and rc: "count_of m p + 1 < 2 ^ 31"
  shows "(\<exists>m1 b1 q. bb_copy b m = Some (m1, b1) \<and> contents m1 b1 = contents m b \<and>
            bb_block b1 = Some q \<and> bytes_of m q = None \<and> count_of m1 q = 1 \<and> manager_inv m1 \<and>
            same_except q m m1) \<and>
         (\<exists>m2 b2. bb_duplicate b m = Some (m2, b2) \<and> contents m2 b2 = contents m b \<and>
            bb_block b2 = bb_block b \<and> count_of m2 p = count_of m p + 1 \<and> manager_inv m2 \<and>
            same_except p m m2)"
proof
  note d = bb_viewD [OF v]
  obtain q m1 qs where a: "block_alloc (length bs) m = Some (Some q, m1)" "manager_inv m1"
      "bytes_of m q = None" "bytes_of m1 q = Some qs" "length bs \<le> length qs" "count_of m1 q = 1"
      "same_except q m m1"
    using bs.alloc_law [OF inv, of "length bs"] d(5) by auto
  have pq: "p \<noteq> q" using d(2) a(3) by auto
  have r: "mem_read (Some p) 0 (length bs) m1 = Some bs"
    using mem_read_bytes [OF a(2), of p bs 0] bytes_same [OF a(7) pq] d(2) by simp
  have fits: "0 + length bs \<le> length qs" using a(5) by simp
  obtain m2 where w: "mem_write (Some q) 0 bs m1 = Some m2" "manager_inv m2"
      "bytes_of m2 q = Some (put_at 0 bs qs)" "count_of m2 q = count_of m1 q" "same_except q m1 m2"
    by (rule mem_write_bytes [OF a(2,4) fits])
  let ?b1 = "\<lparr>bb_block = Some q, bb_pos = position_copy (bb_pos b)\<rparr>"
  have "bb_copy b m = Some (m2, ?b1)"
    using d a(1) r w(1) block_capacity_bytes [OF inv d(2)]
    by (simp add: bb_copy_def block_copy_def)
  moreover have "contents m2 ?b1 = contents m b"
    using d w(3) by (simp add: contents_def position_copy_def put_at_def seg_def)
  ultimately show "\<exists>m1 b1 q. bb_copy b m = Some (m1, b1) \<and> contents m1 b1 = contents m b \<and>
      bb_block b1 = Some q \<and> bytes_of m q = None \<and> count_of m1 q = 1 \<and> manager_inv m1 \<and>
      same_except q m m1"
    using a w bs.same_trans [OF a(7) w(5)]
    by (intro exI [of _ m2] exI [of _ ?b1] exI [of _ q]) simp
next
  note d = bb_viewD [OF v]
  obtain m2 where "block_duplicate (Some p) m = Some (Some p, m2)" "manager_inv m2"
      "bytes_of m2 p = Some bs" "count_of m2 p = count_of m p + 1" "same_except p m m2"
    using bs.dup_law [OF inv d(2) rc] by blast
  with d show "\<exists>m2 b2. bb_duplicate b m = Some (m2, b2) \<and> contents m2 b2 = contents m b \<and>
      bb_block b2 = bb_block b \<and> count_of m2 p = count_of m p + 1 \<and> manager_inv m2 \<and>
      same_except p m m2"
    by (simp add: bb_duplicate_def bb_copy_ctor_def contents_def position_copy_def)
qed

theorem copy_deep_duplicate_shallow_witness:
  "\<exists>m1 b1. bb_copy demo_buffer demo_manager = Some (m1, b1) \<and> contents m1 b1 = [1, 2, 3]"
  using copy_deep_duplicate_shallow [OF demo_inv demo_view] by (auto simp: demo_count demo_contents)

text \<open>
  The stream operators round-trip: an \<open>n\<close>-byte object written to a buffer with room for it
  is what \<open>operator>>\<close> reads after the bytes that were there before.
\<close>

theorem pod_round_trip:
  assumes inv: "manager_inv m" and v: "bb_view m b p bs" and room: "pos_write (bb_pos b) + n \<le> length bs"
    and val: "x < 256 ^ n"
  shows "\<exists>m' b1 b2 b3. put_pod n x m b = Some (m', b1) \<and>
           bb_read (bb_length b) m' b1 = Some (contents m b, b2) \<and>
           get_pod n m' b2 = Some (le_bytes n x, b3) \<and> le_val (le_bytes n x) = x \<and>
           contents m' b3 = []"
proof -
  let ?w = "pos_write (bb_pos b)" and ?n = "min n (length bs - pos_write (bb_pos b))"
  have n: "?n = n" using room by simp
  obtain m' where w0: "bb_write (le_bytes n x) n m b = Some (?n, m', set_write (?w + ?n) b)" "manager_inv m'"
      "bb_view m' (set_write (?w + ?n) b) p (put_at ?w (take ?n (le_bytes n x)) bs)"
      "contents m' (set_write (?w + ?n) b) = contents m b @ take ?n (le_bytes n x)"
    by (rule bb_write_view [OF inv v, of n "le_bytes n x"]) auto
  note w = w0 [unfolded n]
  obtain b2 where r: "bb_read (bb_length b) m' (set_write (?w + n) b) =
        Some (take (bb_length b) (contents m' (set_write (?w + n) b)), b2)"
      "contents m' b2 = drop (bb_length b) (contents m' (set_write (?w + n) b))"
      "bb_view m' b2 p (put_at ?w (take n (le_bytes n x)) bs)"
    using bb_read_view [OF w(2,3)] bb_read_contents [OF w(3)] by blast
  have c2: "contents m' b2 = le_bytes n x"
    using r(2) w(4) length_contents [OF v] by simp
  show ?thesis
    using w(1,4) r(1) length_contents [OF v] bb_read_view [OF w(2) r(3), of n]
      bb_read_contents [OF r(3), of n] c2 val
    by (auto simp: put_pod_def get_pod_def le_val_le_bytes)
qed

theorem pod_round_trip_witness:
  "\<exists>m' b1 b2 b3. put_pod 1 200 demo_manager demo_buffer = Some (m', b1) \<and>
     bb_read 3 m' b1 = Some ([1, 2, 3], b2) \<and> get_pod 1 m' b2 = Some (le_bytes 1 200, b3)"
  using pod_round_trip [OF demo_inv demo_view, of 1 200]
  by (auto simp: demo_buffer_def [symmetric] demo_contents demo_length) (auto simp: demo_buffer_def)

text \<open>
  \<open>write_fmt\<close> appends the formatted text when it is shorter than its 2048 byte array and
  fits; for a longer text in a buffer with more room it copies from beyond the array.
\<close>

theorem write_fmt_bounds:
  assumes inv: "manager_inv m" and v: "bb_view m b p bs" and len: "length text < 2 ^ 31"
  shows "(length text < 2048 \<and> pos_write (bb_pos b) + length text \<le> length bs \<longrightarrow>
            (\<exists>m' b'. bb_write_fmt text m b = Some (length text, m', b') \<and>
                     contents m' b' = contents m b @ text)) \<and>
         (2048 < length text \<and> pos_write (bb_pos b) + 2048 < length bs \<longrightarrow>
            bb_write_fmt text m b = None)"
proof (intro conjI impI)
  have n: "to_size (to_i32 (int (length text))) = length text"
    using len by (simp add: to_i32_id to_size_id)
  show "bb_write_fmt text m b = None"
    if "2048 < length text \<and> pos_write (bb_pos b) + 2048 < length bs"
  proof -
    have "length (fmt_buffer text) < min (length text) (length bs - pos_write (bb_pos b))"
      using that by (auto simp: fmt_buffer_def)
    then show ?thesis
      using n bb_space_view [OF inv v] by (simp add: bb_write_fmt_def bb_write_def)
  qed
  show "\<exists>m' b'. bb_write_fmt text m b = Some (length text, m', b') \<and>
          contents m' b' = contents m b @ text"
    if t: "length text < 2048 \<and> pos_write (bb_pos b) + length text \<le> length bs"
  proof -
    have l: "length text \<le> length (fmt_buffer text)"
      and tk: "take (length text) (fmt_buffer text) = text"
      using t by (simp_all add: fmt_buffer_def min_def)
    have k: "min (length text) (length bs - pos_write (bb_pos b)) = length text"
      using t by linarith
    show ?thesis
      by (rule bb_write_view [OF inv v l]) (auto simp: bb_write_fmt_def n k tk)
  qed
qed

theorem write_fmt_bounds_witness:
  "\<exists>m' b'. bb_write_fmt [7] demo_manager demo_buffer = Some (1, m', b') \<and>
     contents m' b' = [1, 2, 3, 7]"
  using write_fmt_bounds [OF demo_inv demo_view, of "[7]"]
  by (auto simp: demo_contents) (auto simp: demo_buffer_def)

end
