(* ===== verification/Time_Util.thy ===== *)
theory Time_Util
  imports Tcode_Prelude
begin

text \<open>
  Time spans, time stamps and calendar dates: \<open>src/time/timespan.cpp\<close>,
  \<open>src/time/timestamp.cpp\<close>, \<open>src/time/util.cpp\<close> and \<open>src/time/systemtime.cpp\<close>. Both classes
  hold a number of microseconds in an \<open>int64_t\<close>; arithmetic wraps at that width and division
  truncates towards zero, as the machine does. Division by the integer zero is \<^const>\<open>None\<close>.
\<close>

record timespan =
  span_delta :: int

record timestamp =
  stamp_tick :: int

definition mk_span :: "int \<Rightarrow> timespan" where
  "mk_span d = \<lparr>span_delta = to_i64 d\<rparr>"

definition mk_stamp :: "int \<Rightarrow> timestamp" where
  "mk_stamp t = \<lparr>stamp_tick = to_i64 t\<rparr>"

section \<open>Time spans\<close>

definition span_ctor :: timespan where
  "span_ctor = \<lparr>span_delta = 0\<rparr>"

definition span_copy :: "timespan \<Rightarrow> timespan" where
  "span_copy rhs = \<lparr>span_delta = span_delta rhs\<rparr>"

definition span_assign :: "timespan \<Rightarrow> timespan \<Rightarrow> timespan" where
  "span_assign self rhs = self\<lparr>span_delta := span_delta rhs\<rparr>"

definition span_eq :: "timespan \<Rightarrow> timespan \<Rightarrow> bool" where
  "span_eq a b = (span_delta a = span_delta b)"
definition span_ne :: "timespan \<Rightarrow> timespan \<Rightarrow> bool" where
  "span_ne a b = (span_delta a \<noteq> span_delta b)"
definition span_gt :: "timespan \<Rightarrow> timespan \<Rightarrow> bool" where
  "span_gt a b = (span_delta a > span_delta b)"
definition span_ge :: "timespan \<Rightarrow> timespan \<Rightarrow> bool" where
  "span_ge a b = (span_delta a \<ge> span_delta b)"
definition span_lt :: "timespan \<Rightarrow> timespan \<Rightarrow> bool" where
  "span_lt a b = (span_delta a < span_delta b)"
definition span_le :: "timespan \<Rightarrow> timespan \<Rightarrow> bool" where
  "span_le a b = (span_delta a \<le> span_delta b)"

definition span_add :: "timespan \<Rightarrow> timespan \<Rightarrow> timespan" where
  "span_add a b = mk_span (span_delta a + span_delta b)"
definition span_sub :: "timespan \<Rightarrow> timespan \<Rightarrow> timespan" where
  "span_sub a b = mk_span (span_delta a - span_delta b)"
definition span_mul :: "timespan \<Rightarrow> int \<Rightarrow> timespan" where
  "span_mul a n = mk_span (span_delta a * n)"
definition span_div :: "timespan \<Rightarrow> int \<Rightarrow> timespan option" where
  "span_div a n = (if n = 0 then None else Some (mk_span (span_delta a sdiv n)))"

text \<open>The compound assignments; the result is the new value of the left operand.\<close>

definition span_add_assign :: "timespan \<Rightarrow> timespan \<Rightarrow> timespan" where
  "span_add_assign a b = a\<lparr>span_delta := to_i64 (span_delta a + span_delta b)\<rparr>"
definition span_sub_assign :: "timespan \<Rightarrow> timespan \<Rightarrow> timespan" where
  "span_sub_assign a b = a\<lparr>span_delta := to_i64 (span_delta a - span_delta b)\<rparr>"
definition span_mul_assign :: "timespan \<Rightarrow> int \<Rightarrow> timespan" where
  "span_mul_assign a n = a\<lparr>span_delta := to_i64 (span_delta a * n)\<rparr>"
definition span_div_assign :: "timespan \<Rightarrow> int \<Rightarrow> timespan option" where
  "span_div_assign a n =
     (if n = 0 then None else Some (a\<lparr>span_delta := to_i64 (span_delta a sdiv n)\<rparr>))"

definition span_div_span :: "timespan \<Rightarrow> timespan \<Rightarrow> int" where
  "span_div_span a b = (if span_delta b = 0 then 0 else to_i64 (span_delta a sdiv span_delta b))"
definition span_neg :: "timespan \<Rightarrow> timespan" where
  "span_neg a = mk_span (- span_delta a)"

definition total_microseconds :: "timespan \<Rightarrow> int" where
  "total_microseconds a = span_delta a"
definition total_milliseconds :: "timespan \<Rightarrow> int" where
  "total_milliseconds a = span_delta a sdiv 1000"
definition total_seconds :: "timespan \<Rightarrow> int" where
  "total_seconds a = span_delta a sdiv (1000 * 1000)"
definition total_minutes :: "timespan \<Rightarrow> int" where
  "total_minutes a = span_delta a sdiv (60 * 1000 * 1000)"
definition total_hours :: "timespan \<Rightarrow> int" where
  "total_hours a = span_delta a sdiv (60 * 60 * 1000 * 1000)"
definition total_days :: "timespan \<Rightarrow> int" where
  "total_days a = span_delta a sdiv (24 * 60 * 60 * 1000 * 1000)"

definition days :: "int \<Rightarrow> timespan" where
  "days c = mk_span (c * 24 * 60 * 60 * 1000 * 1000)"
definition hours :: "int \<Rightarrow> timespan" where
  "hours c = mk_span (c * 60 * 60 * 1000 * 1000)"
definition minutes :: "int \<Rightarrow> timespan" where
  "minutes c = mk_span (c * 60 * 1000 * 1000)"
definition seconds :: "int \<Rightarrow> timespan" where
  "seconds c = mk_span (c * 1000 * 1000)"
definition milliseconds :: "int \<Rightarrow> timespan" where
  "milliseconds c = mk_span (c * 1000)"
definition microseconds :: "int \<Rightarrow> timespan" where
  "microseconds c = mk_span c"

section \<open>Time stamps\<close>

definition stamp_copy :: "timestamp \<Rightarrow> timestamp" where
  "stamp_copy rhs = \<lparr>stamp_tick = stamp_tick rhs\<rparr>"
definition stamp_assign :: "timestamp \<Rightarrow> timestamp \<Rightarrow> timestamp" where
  "stamp_assign self rhs = self\<lparr>stamp_tick := stamp_tick rhs\<rparr>"
definition stamp_eq :: "timestamp \<Rightarrow> timestamp \<Rightarrow> bool" where
  "stamp_eq a b = (stamp_tick a = stamp_tick b)"
definition stamp_ne :: "timestamp \<Rightarrow> timestamp \<Rightarrow> bool" where
  "stamp_ne a b = (stamp_tick a \<noteq> stamp_tick b)"
definition stamp_gt :: "timestamp \<Rightarrow> timestamp \<Rightarrow> bool" where
  "stamp_gt a b = (stamp_tick a > stamp_tick b)"
definition stamp_ge :: "timestamp \<Rightarrow> timestamp \<Rightarrow> bool" where
  "stamp_ge a b = (stamp_tick a \<ge> stamp_tick b)"
definition stamp_lt :: "timestamp \<Rightarrow> timestamp \<Rightarrow> bool" where
  "stamp_lt a b = (stamp_tick a < stamp_tick b)"
definition stamp_le :: "timestamp \<Rightarrow> timestamp \<Rightarrow> bool" where
  "stamp_le a b = (stamp_tick a \<le> stamp_tick b)"

definition stamp_add :: "timestamp \<Rightarrow> timespan \<Rightarrow> timestamp" where
  "stamp_add a d = mk_stamp (stamp_tick a + total_microseconds d)"
definition stamp_sub :: "timestamp \<Rightarrow> timespan \<Rightarrow> timestamp" where
  "stamp_sub a d = mk_stamp (stamp_tick a - total_microseconds d)"
definition stamp_add_assign :: "timestamp \<Rightarrow> timespan \<Rightarrow> timestamp" where
  "stamp_add_assign a d = a\<lparr>stamp_tick := to_i64 (stamp_tick a + total_microseconds d)\<rparr>"
definition stamp_sub_assign :: "timestamp \<Rightarrow> timespan \<Rightarrow> timestamp" where
  "stamp_sub_assign a d = a\<lparr>stamp_tick := to_i64 (stamp_tick a - total_microseconds d)\<rparr>"
definition stamp_diff :: "timestamp \<Rightarrow> timestamp \<Rightarrow> timespan" where
  "stamp_diff a b = mk_span (stamp_tick a - stamp_tick b)"
definition span_add_stamp :: "timespan \<Rightarrow> timestamp \<Rightarrow> timestamp" where
  "span_add_stamp d a = stamp_add a d"

text \<open>
  \<open>timestamp::now\<close> on Linux: the argument is what \<open>clock_gettime\<close> delivers, or on its failure
  what \<open>std::time\<close> does.
\<close>

definition stamp_now :: "(int \<times> int) option \<Rightarrow> int \<Rightarrow> timestamp" where
  "stamp_now clock fallback =
     (case clock of
        None \<Rightarrow> mk_stamp (fallback * 1000 * 1000)
      | Some (tv_sec, tv_nsec) \<Rightarrow> mk_stamp (tv_sec * 1000 * 1000 + tv_nsec sdiv 1000))"

section \<open>The calendar\<close>

definition MONTH_TABLE :: "bool \<Rightarrow> int list" where
  "MONTH_TABLE leap =
     (if leap then [31, 29, 31, 30, 31, 30, 31, 31, 30, 31, 30, 31]
      else [31, 28, 31, 30, 31, 30, 31, 31, 30, 31, 30, 31])"

definition is_leap_year :: "int \<Rightarrow> bool" where
  "is_leap_year year =
     (if year smod 4 = 0
      then (if year smod 100 = 0 then (if year smod 400 = 0 then True else False) else True)
      else False)"

definition days_per_year :: "int \<Rightarrow> int" where
  "days_per_year year = (if is_leap_year year then 366 else 365)"

text \<open>
  The sums over years are taken without the overflow of an \<open>int\<close>, which needs an interval of more
  than five million years.
\<close>

function days_between_loop :: "int \<Rightarrow> int \<Rightarrow> int \<Rightarrow> int" where
  "days_between_loop year year_end tot =
     (if year \<le> year_end then days_between_loop (year + 1) year_end (tot + days_per_year year) else tot)"
  by pat_completeness auto
termination
  by (relation "measure (\<lambda>(y, e, t). nat (e + 1 - y))") auto

declare days_between_loop.simps [simp del]

definition number_of_days_between_years :: "int \<Rightarrow> int \<Rightarrow> int" where
  "number_of_days_between_years year_start year_end =
     (if year_end < year_start then 0 else days_between_loop year_start year_end 0)"

text \<open>A month outside 1 to 12 reads outside the table.\<close>

definition month_entry :: "bool \<Rightarrow> int \<Rightarrow> int option" where
  "month_entry leap mon = (if 1 \<le> mon \<and> mon \<le> 12 then Some (MONTH_TABLE leap ! nat (mon - 1)) else None)"

function months_between_loop :: "bool \<Rightarrow> int \<Rightarrow> int \<Rightarrow> int \<Rightarrow> int option" where
  "months_between_loop leap mon mon_end tot =
     (if mon \<le> mon_end
      then (case month_entry leap mon of
              None \<Rightarrow> None
            | Some d \<Rightarrow> months_between_loop leap (mon + 1) mon_end (tot + d))
      else Some tot)"
  by pat_completeness auto
termination
  by (relation "measure (\<lambda>(l, m, e, t). nat (e + 1 - m))") auto

declare months_between_loop.simps [simp del]

definition number_of_days_between_months :: "int \<Rightarrow> int \<Rightarrow> int \<Rightarrow> int option" where
  "number_of_days_between_months year mon_start mon_end =
     (if mon_end < mon_start then Some 0
      else months_between_loop (is_leap_year year) mon_start mon_end 0)"

definition number_of_days :: "int \<Rightarrow> int \<Rightarrow> int option" where
  "number_of_days year month = month_entry (is_leap_year year) month"

record tm =
  tm_sec :: int
  tm_min :: int
  tm_hour :: int
  tm_mday :: int
  tm_mon :: int
  tm_year :: int
  tm_wday :: int
  tm_yday :: int
  tm_isdst :: int

function year_loop :: "int \<Rightarrow> int \<Rightarrow> int \<times> int" where
  "year_loop year daycount =
     (if daycount < days_per_year year then (year, daycount)
      else year_loop (year + 1) (daycount - days_per_year year))"
  by pat_completeness auto
termination
  by (relation "measure (\<lambda>(y, d). nat d)") (auto simp: days_per_year_def split: if_splits)

declare year_loop.simps [simp del]

fun month_loop :: "int list \<Rightarrow> int \<Rightarrow> int \<Rightarrow> (int \<times> int) option" where
  "month_loop [] month daycount = None"
| "month_loop (d # ds) month daycount =
     (if daycount < d then Some (month, daycount) else month_loop ds (month + 1) (daycount - d))"

definition convert_to_tm_of_time :: "int \<Rightarrow> tm option" where
  "convert_to_tm_of_time t =
     (let (year, yday) = year_loop 1970 (to_i32 (t sdiv (60 * 60 * 24)))
      in map_option (\<lambda>(month, rest).
           \<lparr>tm_sec = t smod 60, tm_min = (t smod (60 * 60)) sdiv 60,
            tm_hour = (t smod (60 * 60 * 24)) sdiv (60 * 60), tm_mday = rest + 1, tm_mon = month,
            tm_year = year - 1900, tm_wday = (t sdiv (60 * 60 * 24) + 4) smod 7,
            tm_yday = yday, tm_isdst = 0\<rparr>)
         (month_loop (MONTH_TABLE (is_leap_year year)) 0 yday))"

definition convert_to_time_t :: "timestamp \<Rightarrow> int" where
  "convert_to_time_t st = stamp_tick st sdiv (1000 * 1000)"

definition convert_to_tm :: "timestamp \<Rightarrow> tm option" where
  "convert_to_tm st = convert_to_tm_of_time (stamp_tick st sdiv (1000 * 1000))"

text \<open>\<open>timeval\<close> and \<open>timespec\<close> as pairs of seconds and a fraction.\<close>

definition convert_to_timeval :: "timestamp \<Rightarrow> int \<times> int" where
  "convert_to_timeval st = (stamp_tick st sdiv (1000 * 1000), stamp_tick st smod (1000 * 1000))"

definition convert_to_timespec :: "timestamp \<Rightarrow> int \<times> int" where
  "convert_to_timespec st =
     (stamp_tick st sdiv (1000 * 1000), (stamp_tick st smod (1000 * 1000)) * 1000)"

record filetime =
  dwHighDateTime :: nat
  dwLowDateTime :: nat

definition filetime_ctor :: filetime where
  "filetime_ctor = \<lparr>dwHighDateTime = 0, dwLowDateTime = 0\<rparr>"

text \<open>The low word is declared \<open>uint16_t\<close>.\<close>

definition convert_to_filetime :: "timestamp \<Rightarrow> filetime" where
  "convert_to_filetime st =
     (let tv0 = to_size (stamp_tick st);
          tv1 = to_size (int tv0 - (- 11644473600 * 1000 * 1000));
          tv = to_size (int tv1 * 10)
      in \<lparr>dwHighDateTime = to_u32 (int (tv div 2 ^ 32)),
          dwLowDateTime = to_u16 (int (tv mod 2 ^ 32))\<rparr>)"

definition filetime_of_stamp :: "timestamp \<Rightarrow> filetime" where
  "filetime_of_stamp ts = convert_to_filetime ts"

record systemtime =
  wYear :: nat
  wMonth :: nat
  wDayOfWeek :: nat
  wDay :: nat
  wHour :: nat
  wMinute :: nat
  wSecond :: nat
  wMilliseconds :: nat

definition systemtime_ctor :: systemtime where
  "systemtime_ctor = \<lparr>wYear = 0, wMonth = 0, wDayOfWeek = 0, wDay = 0, wHour = 0, wMinute = 0,
     wSecond = 0, wMilliseconds = 0\<rparr>"

text \<open>
  The target keeps the field no line assigns, \<open>wDayOfWeek\<close>; \<open>out\<close> is what it held before (for
  the constructor, uninitialised memory).
\<close>

definition convert_to_systemtime :: "timestamp \<Rightarrow> systemtime \<Rightarrow> systemtime option" where
  "convert_to_systemtime st out =
     map_option (\<lambda>d. out\<lparr>wHour := to_u16 (tm_hour d), wMinute := to_u16 (tm_min d),
         wDay := to_u16 (tm_mday d), wMonth := to_u16 (tm_mon d + 1), wSecond := to_u16 (tm_sec d),
         wYear := to_u16 (tm_year d + 1900),
         wMilliseconds := to_u16 ((stamp_tick st smod (1000 * 1000)) sdiv 1000)\<rparr>)
       (convert_to_tm st)"

definition systemtime_of_stamp :: "timestamp \<Rightarrow> systemtime \<Rightarrow> systemtime option" where
  "systemtime_of_stamp ts uninit =
     map_option (\<lambda>d. uninit\<lparr>wHour := to_u16 (tm_hour d), wMinute := to_u16 (tm_min d),
         wDay := to_u16 (tm_mday d), wMonth := to_u16 (tm_mon d + 1), wSecond := to_u16 (tm_sec d),
         wYear := to_u16 (tm_year d + 1900),
         wMilliseconds := to_u16 ((stamp_tick ts smod (1000 * 1000)) sdiv 1000)\<rparr>)
       (convert_to_tm ts)"

definition ctime_tick :: "timestamp \<Rightarrow> int" where
  "ctime_tick ts = (stamp_tick ts sdiv 1000) sdiv 1000"

section \<open>Lemmas\<close>

lemma negative_mod: "t < 0 \<Longrightarrow> 0 < b \<Longrightarrow> t smod b = - (- t mod b)" for t b :: int
  by (simp add: signed_modulo_int_def)

lemma negative_div: "0 \<le> t \<Longrightarrow> 0 < b \<Longrightarrow> (- t) sdiv b = - (t div b)" for t b :: int
  by (simp add: signed_divide_int_def sgn_if)

lemma sdiv_mult_cancel: "b \<noteq> 0 \<Longrightarrow> (c * b) sdiv b = c" for b c :: int
  by (simp add: signed_divide_int_def sgn_mult abs_mult sgn_mult_abs mult.assoc [symmetric])
     (simp add: sgn_if)

lemma to_i64_diff: "- (2 ^ 63) \<le> d \<Longrightarrow> d < 2 ^ 63 \<Longrightarrow> to_i64 (to_i64 (a + d) - a) = d"
proof -
  assume d: "- (2 ^ 63) \<le> d" "d < 2 ^ 63"
  have "(to_i64 (a + d) - a + 2 ^ 63) mod 2 ^ 64 = (a + d + 2 ^ 63 - 2 ^ 63 - a + 2 ^ 63) mod 2 ^ 64"
    unfolding to_i64_def by (smt (verit) mod_diff_left_eq mod_add_left_eq)
  then show ?thesis using d by (simp add: to_i64_def)
qed

lemma days_per_year_pos [simp]: "0 < days_per_year y"
  by (simp add: days_per_year_def)

text \<open>The loop over the years adds up the lengths of the years of the interval.\<close>

lemma days_between_years_sum:
  "number_of_days_between_years a b = (\<Sum>y\<in>{a..b}. days_per_year y)"
proof -
  have loop: "days_between_loop a b t = t + (\<Sum>y\<in>{a..b}. days_per_year y)" for t
  proof (induction a b t rule: days_between_loop.induct)
    case (1 a b t)
    have "a \<le> b \<Longrightarrow> {a..b} = insert a {a + 1..b}" by auto
    with 1 show ?case by (subst days_between_loop.simps) (auto simp: add.assoc)
  qed
  show ?thesis by (simp add: number_of_days_between_years_def loop)
qed

lemma year_loop_sum:
  assumes "year_loop y d = (y', d')" and "0 \<le> d"
  shows "y \<le> y' \<and> 0 \<le> d' \<and> d' < days_per_year y' \<and>
         (\<Sum>i\<in>{y..y' - 1}. days_per_year i) + d' = d"
  using assms
proof (induction y d rule: year_loop.induct)
  case (1 y d)
  show ?case
  proof (cases "d < days_per_year y")
    case True
    with 1 show ?thesis by (subst (asm) year_loop.simps) auto
  next
    case False
    with 1 have ih: "y + 1 \<le> y' \<and> 0 \<le> d' \<and> d' < days_per_year y' \<and>
        (\<Sum>i\<in>{y + 1..y' - 1}. days_per_year i) + d' = d - days_per_year y"
      by (subst (asm) (2) year_loop.simps) auto
    then have "{y..y' - 1} = insert y {y + 1..y' - 1}" by auto
    with ih show ?thesis by auto
  qed
qed

lemma length_MONTH_TABLE [simp]: "length (MONTH_TABLE leap) = 12"
  by (simp add: MONTH_TABLE_def)

lemma sum_MONTH_TABLE: "sum_list (MONTH_TABLE (is_leap_year y)) = days_per_year y"
  by (simp add: MONTH_TABLE_def days_per_year_def)

lemma month_loop_sum:
  assumes "0 \<le> d" and "d < sum_list ms"
  shows "\<exists>k r. month_loop ms m d = Some (m + int k, r) \<and> k < length ms \<and>
           0 \<le> r \<and> r < ms ! k \<and> sum_list (take k ms) + r = d"
  using assms
proof (induction ms arbitrary: m d)
  case (Cons x ms)
  show ?case
  proof (cases "d < x")
    case True
    with Cons.prems show ?thesis by (auto intro!: exI [of _ 0])
  next
    case False
    with Cons.prems Cons.IH [of "d - x" "m + 1"] obtain k r where
      "month_loop ms (m + 1) (d - x) = Some (m + 1 + int k, r)" "k < length ms"
      "0 \<le> r" "r < ms ! k" "sum_list (take k ms) + r = d - x" by auto
    with False show ?thesis by (auto intro!: exI [of _ "Suc k"])
  qed
qed simp

lemma months_loop_seg:
  "1 \<le> a \<Longrightarrow> a + int n \<le> 13 \<Longrightarrow>
     months_between_loop leap a (a + int n - 1) t =
       Some (t + sum_list (seg (nat (a - 1)) n (MONTH_TABLE leap)))"
proof (induction n arbitrary: a t)
  case 0
  then show ?case by (subst months_between_loop.simps) simp
next
  case (Suc n)
  have i: "nat (a - 1) < 12" using Suc.prems by auto
  have "seg (nat (a - 1)) (Suc n) (MONTH_TABLE leap) =
      MONTH_TABLE leap ! nat (a - 1) # seg (nat a) n (MONTH_TABLE leap)"
    using i Suc.prems by (simp add: seg_def Cons_nth_drop_Suc [symmetric] Suc_nat_eq_nat_zadd1)
  moreover have "months_between_loop leap (a + 1) (a + 1 + int n - 1)
      (t + MONTH_TABLE leap ! nat (a - 1)) =
      Some (t + MONTH_TABLE leap ! nat (a - 1) +
            sum_list (seg (nat (a + 1 - 1)) n (MONTH_TABLE leap)))"
    using Suc.prems by (intro Suc.IH) auto
  ultimately show ?case
    using Suc.prems by (subst months_between_loop.simps) (simp add: month_entry_def add.assoc)
qed

lemma days_between_months_take:
  assumes "k \<le> 12"
  shows "number_of_days_between_months y 1 (int k) =
           Some (sum_list (take k (MONTH_TABLE (is_leap_year y))))"
  using months_loop_seg [of 1 k "is_leap_year y" 0] assms
  by (cases k) (auto simp: number_of_days_between_months_def)

lemmas time_fields = sdiv_nonneg smod_nonneg

lemma mixed_radix:
  fixes t a b c :: int
  assumes "c dvd b" and "b dvd a"
  shows "t mod a = t mod a div b * b + t mod b div c * c + t mod c"
proof -
  have "t mod a mod b = t mod b" "t mod b mod c = t mod c"
    using assms by (simp_all add: mod_mod_cancel)
  then show ?thesis
    using div_mult_mod_eq [of "t mod a" b] div_mult_mod_eq [of "t mod b" c] by linarith
qed

lemma time_of_day:
  "t mod 86400 = t mod 86400 div 3600 * 3600 + t mod 3600 div 60 * 60 + t mod 60" for t :: int
  by (rule mixed_radix) simp_all

lemma time_with_days:
  "t = t div 86400 * 86400 + t mod 86400 div 3600 * 3600 + t mod 3600 div 60 * 60 + t mod 60"
  for t :: int
  by (subst div_mult_mod_eq [of t 86400, symmetric], subst time_of_day) (simp only: add.assoc)

lemma div_below: "x div b < c" if "0 < b" and "x < c * b" for x b c :: int
proof (rule ccontr)
  assume "\<not> x div b < c"
  then have "c * b \<le> x div b * b" using that(1) by (intro mult_right_mono) auto
  moreover have "x div b * b = x - x mod b" by (simp add: minus_mod_eq_div_mult)
  ultimately show False using that pos_mod_sign [of b x] by linarith
qed

lemma time_of_day_bounds:
  "t mod 86400 div 3600 < 24" "t mod 3600 div 60 < 60" for t :: int
  by (rule div_below; simp)+

lemma convert_to_tm_exists:
  assumes "0 \<le> t" and "t div 86400 < 2 ^ 31"
  obtains y k r where
    "convert_to_tm_of_time t = Some \<lparr>tm_sec = t mod 60, tm_min = t mod 3600 div 60,
       tm_hour = t mod 86400 div 3600, tm_mday = r + 1, tm_mon = int k, tm_year = y - 1900,
       tm_wday = (t div 86400 + 4) mod 7,
       tm_yday = sum_list (take k (MONTH_TABLE (is_leap_year y))) + r, tm_isdst = 0\<rparr>"
    and "1970 \<le> y" and "k < 12" and "0 \<le> r" and "r < MONTH_TABLE (is_leap_year y) ! k"
    and "(\<Sum>i\<in>{1970..y - 1}. days_per_year i) +
         (sum_list (take k (MONTH_TABLE (is_leap_year y))) + r) = t div 86400"
proof -
  define d where "d = t div 86400"
  have d: "0 \<le> d" "to_i32 d = d"
    using assms by (simp_all add: d_def to_i32_id pos_imp_zdiv_nonneg_iff)
  obtain y yd where yl: "year_loop 1970 d = (y, yd)" by fastforce
  from year_loop_sum [OF this d(1)]
  have y: "1970 \<le> y" "0 \<le> yd" "yd < sum_list (MONTH_TABLE (is_leap_year y))"
    "(\<Sum>i\<in>{1970..y - 1}. days_per_year i) + yd = d"
    by (auto simp: sum_MONTH_TABLE)
  from month_loop_sum [OF y(2,3), of 0] obtain k r where
    k: "month_loop (MONTH_TABLE (is_leap_year y)) 0 yd = Some (int k, r)" "k < 12" "0 \<le> r"
      "r < MONTH_TABLE (is_leap_year y) ! k"
      "sum_list (take k (MONTH_TABLE (is_leap_year y))) + r = yd"
    by auto
  have "convert_to_tm_of_time t = Some \<lparr>tm_sec = t mod 60, tm_min = t mod 3600 div 60,
       tm_hour = t mod 86400 div 3600, tm_mday = r + 1, tm_mon = int k, tm_year = y - 1900,
       tm_wday = (t div 86400 + 4) mod 7, tm_yday = yd, tm_isdst = 0\<rparr>"
    using assms(1) d yl k(1)
    by (simp add: convert_to_tm_of_time_def time_fields d_def [symmetric])
  with y k show ?thesis by (intro that) (auto simp: d_def)
qed

section \<open>The Gregorian calendar\<close>

text \<open>
  The calendar as it is defined, independent of the program: the leap rule, the lengths of the months, and the
  number of a day counted from the first of January of the year 1, which is day 1 and a Monday. Before a month
  \<open>m\<close> lie \<open>(367 * m - 362) div 12\<close> days, less what February lacks.
\<close>

definition gregorian_leap :: "int \<Rightarrow> bool" where
  "gregorian_leap y \<longleftrightarrow> 4 dvd y \<and> (100 dvd y \<longrightarrow> 400 dvd y)"

definition gregorian_month_length :: "int \<Rightarrow> int \<Rightarrow> int" where
  "gregorian_month_length y m =
     (if m = 2 then (if gregorian_leap y then 29 else 28) else if m \<in> {4, 6, 9, 11} then 30 else 31)"

definition gregorian_date :: "int \<Rightarrow> int \<Rightarrow> int \<Rightarrow> bool" where
  "gregorian_date y m d \<longleftrightarrow> 1 \<le> m \<and> m \<le> 12 \<and> 1 \<le> d \<and> d \<le> gregorian_month_length y m"

definition rata_die :: "int \<Rightarrow> int \<Rightarrow> int \<Rightarrow> int" where
  "rata_die y m d =
     365 * (y - 1) + (y - 1) div 4 - (y - 1) div 100 + (y - 1) div 400 +
     (367 * m - 362) div 12 + (if m \<le> 2 then 0 else if gregorian_leap y then - 1 else - 2) + d"

lemma rata_die_1970: "rata_die 1970 1 1 = 719163"
  by (simp add: rata_die_def)

lemma rata_die_day: "rata_die y m d = rata_die y m 1 + d - 1"
  by (simp add: rata_die_def)

lemma smod_zero_iff: "x smod n = 0 \<longleftrightarrow> n dvd x" if "0 < n" for x n :: int
proof (cases "0 \<le> x")
  case True
  then show ?thesis using that by (simp add: smod_nonneg dvd_eq_mod_eq_0)
next
  case False
  then have "x smod n = - (- x mod n)" using that by (intro negative_mod) simp_all
  then have "x smod n = 0 \<longleftrightarrow> - x mod n = 0" by simp
  then show ?thesis using dvd_eq_mod_eq_0 [of n "- x"] by simp
qed

lemma leap_gregorian: "is_leap_year y = gregorian_leap y"
  by (auto simp: is_leap_year_def gregorian_leap_def smod_zero_iff)

lemma div_step: "y div n = (y - 1) div n + (if n dvd y then 1 else 0)" if "1 < n" for y n :: int
proof -
  define q r where "q = y div n" and "r = y mod n"
  then have y: "y = q * n + r" "0 \<le> r" "r < n" using that by simp_all
  have "n dvd y \<longleftrightarrow> r = 0" by (simp add: r_def dvd_eq_mod_eq_0)
  moreover have "y div n = q" by (simp add: q_def)
  moreover have "(y - 1) div n = (if r = 0 then q - 1 else q)"
  proof (cases "r = 0")
    case True
    then have "y - 1 = (q - 1) * n + (n - 1)" using y by (simp add: left_diff_distrib)
    then have "(y - 1) div n = q - 1" using that by (intro int_div_pos_eq [of _ n _ "n - 1"]) (simp_all add: mult.commute)
    then show ?thesis using True by simp
  next
    case False
    then have "y - 1 = q * n + (r - 1)" "0 \<le> r - 1" "r - 1 < n" using y by simp_all
    then have "(y - 1) div n = q" using that by (intro int_div_pos_eq [of _ n _ "r - 1"]) (simp_all add: mult.commute)
    then show ?thesis using False by simp
  qed
  ultimately show ?thesis by simp
qed

lemma year_gregorian: "days_per_year y = rata_die (y + 1) 1 1 - rata_die y 1 1"
proof -
  have "rata_die (y + 1) 1 1 - rata_die y 1 1 =
      365 + (y div 4 - (y - 1) div 4) - (y div 100 - (y - 1) div 100) + (y div 400 - (y - 1) div 400)"
    by (simp add: rata_die_def)
  also have "\<dots> = 365 + (if 4 dvd y then 1 else 0) - (if 100 dvd y then 1 else 0) + (if 400 dvd y then 1 else 0)"
    using div_step [of 4 y] div_step [of 100 y] div_step [of 400 y] by simp
  also have "\<dots> = days_per_year y"
    using dvd_trans [of 4 100 y] dvd_trans [of 100 400 y]
    by (cases "4 dvd y"; cases "100 dvd y"; cases "400 dvd y") (simp_all add: days_per_year_def leap_gregorian gregorian_leap_def)
  finally show ?thesis by simp
qed

lemma years_gregorian:
  assumes "1970 \<le> y"
  shows "(\<Sum>i\<in>{1970..y - 1}. days_per_year i) = rata_die y 1 1 - rata_die 1970 1 1"
  using assms
proof (induction y rule: int_ge_induct)
  case (step y)
  have "{1970..y + 1 - 1} = insert y {1970..y - 1}" using step.hyps by auto
  then show ?case using step.IH year_gregorian [of y] by simp
qed simp

lemma month_table_gregorian:
  assumes "k < 12"
  shows "MONTH_TABLE (is_leap_year y) ! k = gregorian_month_length y (int k + 1)"
    and "sum_list (take k (MONTH_TABLE (is_leap_year y))) = rata_die y (int k + 1) 1 - rata_die y 1 1"
proof -
  have k: "k = 0 \<or> k = 1 \<or> k = 2 \<or> k = 3 \<or> k = 4 \<or> k = 5 \<or> k = 6 \<or> k = 7 \<or> k = 8 \<or> k = 9 \<or> k = 10 \<or> k = 11"
    using assms by arith
  show "MONTH_TABLE (is_leap_year y) ! k = gregorian_month_length y (int k + 1)"
    using k by (elim disjE) (simp_all add: MONTH_TABLE_def gregorian_month_length_def leap_gregorian)
  show "sum_list (take k (MONTH_TABLE (is_leap_year y))) = rata_die y (int k + 1) 1 - rata_die y 1 1"
    using k by (elim disjE) (simp_all add: MONTH_TABLE_def rata_die_def leap_gregorian)
qed

section \<open>Properties\<close>

text \<open>
  C40. For every time from 1970 on whose day number is an \<open>int32_t\<close>, \<open>convert_to\<close> gives its date in the
  Gregorian calendar, which is defined here on its own, without the tables and loops of the program: the date
  exists, it is as many days behind the first of January 1970 as the time, the day of the week and of the year
  are those of the calendar, and the time of day is in range and exact; the leap years and the sums of days the
  helpers give are those of the calendar too.
\<close>

theorem calendar_date_correct:
  assumes "0 \<le> t" and "t div 86400 < 2 ^ 31"
  shows "\<exists>d y m. convert_to_tm_of_time t = Some d \<and> y = tm_year d + 1900 \<and> m = tm_mon d + 1 \<and>
     gregorian_date y m (tm_mday d) \<and> rata_die y m (tm_mday d) = rata_die 1970 1 1 + t div 86400 \<and>
     tm_wday d = rata_die y m (tm_mday d) mod 7 \<and> tm_yday d = rata_die y m (tm_mday d) - rata_die y 1 1 \<and>
     0 \<le> tm_sec d \<and> tm_sec d < 60 \<and> 0 \<le> tm_min d \<and> tm_min d < 60 \<and> 0 \<le> tm_hour d \<and> tm_hour d < 24 \<and>
     t mod 86400 = tm_hour d * 3600 + tm_min d * 60 + tm_sec d \<and>
     is_leap_year y = gregorian_leap y \<and> number_of_days y m = Some (gregorian_month_length y m) \<and>
     number_of_days_between_years 1970 (y - 1) = rata_die y 1 1 - rata_die 1970 1 1 \<and>
     number_of_days_between_months y 1 (tm_mon d) = Some (rata_die y m 1 - rata_die y 1 1)"
proof -
  obtain y k r where d: "convert_to_tm_of_time t = Some \<lparr>tm_sec = t mod 60, tm_min = t mod 3600 div 60,
       tm_hour = t mod 86400 div 3600, tm_mday = r + 1, tm_mon = int k, tm_year = y - 1900,
       tm_wday = (t div 86400 + 4) mod 7,
       tm_yday = sum_list (take k (MONTH_TABLE (is_leap_year y))) + r, tm_isdst = 0\<rparr>"
      (is "_ = Some ?d")
    and y: "1970 \<le> y" "k < 12" "0 \<le> r" "r < MONTH_TABLE (is_leap_year y) ! k"
      "(\<Sum>i\<in>{1970..y - 1}. days_per_year i) +
         (sum_list (take k (MONTH_TABLE (is_leap_year y))) + r) = t div 86400"
    by (rule convert_to_tm_exists [OF assms])
  let ?m = "int k + 1"
  note months = month_table_gregorian [OF y(2), of y]
  have years: "(\<Sum>i\<in>{1970..y - 1}. days_per_year i) = rata_die y 1 1 - rata_die 1970 1 1"
    by (rule years_gregorian [OF y(1)])
  have rd: "rata_die y ?m (r + 1) = rata_die y 1 1 + sum_list (take k (MONTH_TABLE (is_leap_year y))) + r"
    using months(2) by (simp add: rata_die_day [of _ _ "r + 1"])
  then have rt: "rata_die y ?m (r + 1) = rata_die 1970 1 1 + t div 86400" using y(5) years by linarith
  have date: "gregorian_date y ?m (r + 1)" using y(2-4) months(1) by (simp add: gregorian_date_def)
  have wd: "(t div 86400 + 4) mod 7 = rata_die y ?m (r + 1) mod 7"
  proof -
    have "rata_die y ?m (r + 1) = t div 86400 + 4 + 102737 * 7" unfolding rt by (simp add: rata_die_1970)
    then show ?thesis by (simp only: mod_mult_self1)
  qed
  have tod: "t mod 86400 = t mod 86400 div 3600 * 3600 + t mod 3600 div 60 * 60 + t mod 60" by (rule time_of_day)
  have nd: "number_of_days y ?m = Some (gregorian_month_length y ?m)"
    using y(2) months(1) by (simp add: number_of_days_def month_entry_def)
  have nm: "number_of_days_between_months y 1 (int k) = Some (rata_die y ?m 1 - rata_die y 1 1)"
    using y(2) months(2) by (simp add: days_between_months_take)
  have ny: "number_of_days_between_years 1970 (y - 1) = rata_die y 1 1 - rata_die 1970 1 1"
    using years by (simp add: days_between_years_sum)
  have nonneg: "0 \<le> t mod 86400 div 3600" "0 \<le> t mod 3600 div 60" by (simp_all add: pos_imp_zdiv_nonneg_iff)
  show ?thesis
  proof (rule exI [of _ ?d], rule exI [of _ y], rule exI [of _ ?m], intro conjI)
    show "t mod 86400 = tm_hour ?d * 3600 + tm_min ?d * 60 + tm_sec ?d" using tod by simp
    show "tm_yday ?d = rata_die y ?m (tm_mday ?d) - rata_die y 1 1" using rd by simp
  qed (simp_all add: d date rt [unfolded add.commute [of r]] rt wd nd nm ny nonneg time_of_day_bounds leap_gregorian)
qed

text \<open>The last day of February 2000, a Tuesday.\<close>

theorem calendar_date_correct_witness:
  "\<exists>d. convert_to_tm_of_time 951782400 = Some d \<and>
     rata_die (tm_year d + 1900) (tm_mon d + 1) (tm_mday d) = rata_die 2000 2 29 \<and> tm_wday d = 2"
proof -
  have "0 \<le> (951782400 :: int)" "951782400 div 86400 < (2 :: int) ^ 31" by simp_all
  from calendar_date_correct [OF this] obtain d where
    "convert_to_tm_of_time 951782400 = Some d"
    "rata_die (tm_year d + 1900) (tm_mon d + 1) (tm_mday d) = rata_die 1970 1 1 + 951782400 div 86400"
    "tm_wday d = rata_die (tm_year d + 1900) (tm_mon d + 1) (tm_mday d) mod 7" by blast
  then show ?thesis by (simp add: rata_die_1970) (simp add: rata_die_def gregorian_leap_def)
qed

text \<open>
  A whole number of days, hours, minutes, seconds, milliseconds or microseconds whose
  microseconds fit an \<open>int64_t\<close> is recovered from the span it makes; adding a span to a time
  stamp and taking the difference gives the span back, even when the stamp wraps around.
\<close>

theorem span_round_trips:
  assumes "\<bar>c\<bar> * 86400000000 < 2 ^ 63" and "- (2 ^ 63) \<le> span_delta d \<and> span_delta d < 2 ^ 63"
  shows "total_days (days c) = c \<and> total_hours (hours c) = c \<and> total_minutes (minutes c) = c \<and>
     total_seconds (seconds c) = c \<and> total_milliseconds (milliseconds c) = c \<and>
     total_microseconds (microseconds c) = c \<and> span_eq (stamp_diff (stamp_add a d) a) d"
proof -
  have unit: "to_i64 (c * u) = c * u" if "0 < u" "u \<le> 86400000000" for u
  proof -
    have "\<bar>c\<bar> * u \<le> \<bar>c\<bar> * 86400000000" using that by (intro mult_left_mono) auto
    then have "\<bar>c * u\<bar> < 2 ^ 63" using assms(1) that by (simp add: abs_mult)
    then show ?thesis by (intro to_i64_id) auto
  qed
  have "total_days (days c) = c"
    using unit [of 86400000000] sdiv_mult_cancel [of 86400000000 c]
    by (simp add: total_days_def days_def mk_span_def mult.assoc)
  moreover have "total_hours (hours c) = c"
    using unit [of 3600000000] sdiv_mult_cancel [of 3600000000 c]
    by (simp add: total_hours_def hours_def mk_span_def mult.assoc)
  moreover have "total_minutes (minutes c) = c"
    using unit [of 60000000] sdiv_mult_cancel [of 60000000 c]
    by (simp add: total_minutes_def minutes_def mk_span_def mult.assoc)
  moreover have "total_seconds (seconds c) = c"
    using unit [of 1000000] sdiv_mult_cancel [of 1000000 c]
    by (simp add: total_seconds_def seconds_def mk_span_def mult.assoc)
  moreover have "total_milliseconds (milliseconds c) = c"
    using unit [of 1000] sdiv_mult_cancel [of 1000 c]
    by (simp add: total_milliseconds_def milliseconds_def mk_span_def)
  moreover have "total_microseconds (microseconds c) = c"
    using unit [of 1] by (simp add: total_microseconds_def microseconds_def mk_span_def)
  moreover have "span_eq (stamp_diff (stamp_add a d) a) d"
    using assms(2) to_i64_diff [of "span_delta d" "stamp_tick a"]
    by (simp add: span_eq_def stamp_diff_def stamp_add_def mk_span_def mk_stamp_def
        total_microseconds_def)
  ultimately show ?thesis by blast
qed

theorem span_round_trips_witness:
  "total_hours (hours (- 5)) = - 5 \<and>
   span_eq (stamp_diff (stamp_add (mk_stamp (2 ^ 63 - 1)) (days 2)) (mk_stamp (2 ^ 63 - 1))) (days 2)"
  using span_round_trips [of "- 5" "days 2" "mk_stamp (2 ^ 63 - 1)"]
  by (simp add: days_def mk_span_def to_i64_def)

text \<open>
  What the conversions lose. The low word of a file time, declared \<open>uint16_t\<close>, keeps 16 of
  its 32 bits, so two stamps 65536 ticks of 100 nanoseconds apart can give the same file time
  low word, and the tick is not recoverable; and every time of day before 1970, except on a
  whole day, has a negative field.
\<close>

theorem conversions_lossy:
  "dwLowDateTime (convert_to_filetime st) < 2 ^ 16 \<and>
   convert_to_filetime (mk_stamp 0) = convert_to_filetime (mk_stamp 32768) \<and>
   (t < 0 \<and> t smod 86400 \<noteq> 0 \<and> convert_to_tm_of_time t = Some d \<longrightarrow>
      tm_sec d < 0 \<or> tm_min d < 0 \<or> tm_hour d < 0)"
proof -
  have "dwLowDateTime (convert_to_filetime st) < 2 ^ 16"
    by (simp add: convert_to_filetime_def Let_def to_u16_def nat_less_iff)
  moreover have "convert_to_filetime (mk_stamp 0) = convert_to_filetime (mk_stamp 32768)"
    by (simp add: convert_to_filetime_def Let_def to_u16_def to_u32_def mk_stamp_def to_i64_def
        to_size_def)
  moreover have "tm_sec d < 0 \<or> tm_min d < 0 \<or> tm_hour d < 0"
    if "t < 0" "t smod 86400 \<noteq> 0" "convert_to_tm_of_time t = Some d"
  proof -
    have "- t mod 86400 \<noteq> 0" using that(1,2) by (simp add: signed_modulo_int_def)
    then have "- t mod 60 \<noteq> 0 \<or> - t mod 3600 div 60 \<noteq> 0 \<or> - t mod 86400 div 3600 \<noteq> 0"
      using time_of_day [of "- t"] by (metis add_0 mult_zero_left)
    moreover have "tm_sec d = - (- t mod 60)" "tm_min d = - (- t mod 3600 div 60)"
      "tm_hour d = - (- t mod 86400 div 3600)"
      using that(3)
      by (auto simp add: convert_to_tm_of_time_def negative_mod [OF that(1)] negative_div
          sdiv_nonneg Let_def simp del: mod_minus_eq split: prod.splits)
    moreover have "0 \<le> - t mod 60" "0 \<le> - t mod 3600 div 60" "0 \<le> - t mod 86400 div 3600"
      by (simp_all add: pos_imp_zdiv_nonneg_iff)
    ultimately show ?thesis by (simp only: neg_less_0_iff_less order_le_less) metis
  qed
  ultimately show ?thesis by blast
qed

theorem conversions_lossy_witness:
  "\<exists>d. convert_to_tm_of_time (- 1) = Some d \<and> (tm_sec d < 0 \<or> tm_min d < 0 \<or> tm_hour d < 0)"
proof -
  have "\<exists>d. convert_to_tm_of_time (- 1) = Some d"
    by (simp add: convert_to_tm_of_time_def to_i32_def signed_divide_int_def
        year_loop.simps [of 1970 0] days_per_year_def MONTH_TABLE_def)
  then show ?thesis
    using conversions_lossy [of undefined "- 1"] by (auto simp: signed_modulo_int_def)
qed

end
