(* ===== verification/Log_Record.thy ===== *)
theory Log_Record
  imports Byte_Buffer Time_Util
begin

text \<open>
  The log records of \<open>src/log\<close>: \<open>record.cpp\<close> with its serialisation, \<open>formatter.cpp\<close> and
  \<open>serialize_formatter.cpp\<close>. The four character arrays of a record are byte lists of their declared
  sizes; \<open>strlen\<close> of an array without a terminator, and an access outside an array, is
  \<^const>\<open>None\<close>. The locale \<open>log_formatter\<close> states what a writer relies on; both formatters are
  interpretations of it.
\<close>

named_theorems log \<open>log records and their representations\<close>

section \<open>Types of records\<close>

type_synonym log_type = "32 word"

definition tmp_bit :: "32 word \<Rightarrow> 32 word" where
  "tmp_bit idx = push_bit (unat idx) 1"

definition lt_trace :: log_type where "lt_trace = tmp_bit 0"
definition lt_debug :: log_type where "lt_debug = tmp_bit 1"
definition lt_info :: log_type where "lt_info = tmp_bit 2"
definition lt_warn :: log_type where "lt_warn = tmp_bit 3"
definition lt_error :: log_type where "lt_error = tmp_bit 4"
definition lt_fatal :: log_type where "lt_fatal = tmp_bit 5"

definition lt_all :: log_type where
  "lt_all = lt_trace OR lt_debug OR lt_info OR lt_warn OR lt_error OR lt_fatal"

definition lt_off :: log_type where "lt_off = 0"

definition ascii :: "string \<Rightarrow> byte list" where
  "ascii s = map of_char s"

definition acronym :: "log_type \<Rightarrow> char" where
  "acronym l =
     (case find (\<lambda>(t, c). l = t)
        (zip [lt_trace, lt_debug, lt_info, lt_warn, lt_error, lt_fatal, lt_all, lt_off] ''TDIWEFAO'') of
        Some (t, c) \<Rightarrow> c
      | None \<Rightarrow> CHR ''?'')"

section \<open>The record\<close>

record log_record =
  rec_ts :: timestamp
  rec_type :: log_type
  rec_line :: nat
  rec_tid :: nat
  rec_tag :: "byte list"
  rec_file :: "byte list"
  rec_function :: "byte list"
  rec_message :: "byte list"

text \<open>\<open>strncpy\<close>: at most \<open>n\<close> characters, padded with zeros; no terminator when the source fills the array.\<close>

definition strncpy :: "byte list \<Rightarrow> nat \<Rightarrow> byte list" where
  "strncpy src n = take n (c_string src) @ replicate (n - length (c_string src)) 0"

text \<open>The constructor leaves \<open>message\<close> as it finds it: \<open>uninit\<close> is what the memory held.\<close>

definition record_ctor ::
    "timestamp \<Rightarrow> nat \<Rightarrow> byte list \<Rightarrow> log_type \<Rightarrow> byte list \<Rightarrow> byte list \<Rightarrow> byte list \<Rightarrow> int \<Rightarrow> log_record" where
  "record_ctor now self uninit t tag file function l =
     \<lparr>rec_ts = now, rec_type = t, rec_line = to_u32 l, rec_tid = self,
      rec_tag = strncpy tag 32, rec_file = strncpy file 256, rec_function = strncpy function 256,
      rec_message = uninit\<rparr>"

definition strlen :: "byte list \<Rightarrow> nat option" where
  "strlen arr = (if 0 \<in> set arr then Some (length (c_string arr)) else None)"

section \<open>Serialisation\<close>

definition to_i16 :: "int \<Rightarrow> int" where
  "to_i16 x = (x + 2 ^ 15) mod 2 ^ 16 - 2 ^ 15"

definition put_text :: "byte list \<Rightarrow> manager \<Rightarrow> byte_buffer \<Rightarrow> (manager \<times> byte_buffer) option" where
  "put_text arr m b =
     Option.bind (strlen arr) (\<lambda>n.
       (let len = to_i16 (int n)
        in Option.bind (put_pod 2 (to_u16 len) m b) (\<lambda>(m, b).
           map_option snd (bb_write arr (to_size len) m b))))"

definition record_put :: "log_record \<Rightarrow> manager \<Rightarrow> byte_buffer \<Rightarrow> (manager \<times> byte_buffer) option" where
  "record_put r m b =
     Option.bind (put_pod 8 (to_size (stamp_tick (rec_ts r))) m b) (\<lambda>(m, b).
     Option.bind (put_pod 4 (unat (rec_type r)) m b) (\<lambda>(m, b).
     Option.bind (put_pod 4 (rec_line r) m b) (\<lambda>(m, b).
     Option.bind (put_pod 8 (rec_tid r) m b) (\<lambda>(m, b).
     Option.bind (put_text (rec_tag r) m b) (\<lambda>(m, b).
     Option.bind (put_text (rec_file r) m b) (\<lambda>(m, b).
     Option.bind (put_text (rec_function r) m b) (\<lambda>(m, b).
     put_text (rec_message r) m b)))))))"

text \<open>
  \<open>operator>>\<close> into an object whose bytes are \<open>old\<close>: a buffer with too few bytes leaves the rest of the
  object as it was.
\<close>

definition get_obj :: "nat \<Rightarrow> byte list \<Rightarrow> manager \<Rightarrow> byte_buffer \<Rightarrow> (byte list \<times> byte_buffer) option" where
  "get_obj n old m b = map_option (\<lambda>(bs, b). (bs @ drop (length bs) old, b)) (get_pod n m b)"

text \<open>
  One text: its length into \<open>len\<close>, that many bytes into the array, and a terminator behind them. The
  array is passed with its old bytes; a length outside it is an overrun.
\<close>

definition get_text ::
    "byte list \<Rightarrow> byte list \<Rightarrow> manager \<Rightarrow> byte_buffer \<Rightarrow> (byte list \<times> byte list \<times> byte_buffer) option" where
  "get_text len0 arr m b =
     Option.bind (get_obj 2 len0 m b) (\<lambda>(lb, b).
       (let len = to_i16 (int (le_val lb))
        in Option.bind (bb_read (to_size len) m b) (\<lambda>(bs, b).
           if length bs \<le> length arr \<and> 0 \<le> len \<and> len < int (length arr)
           then Some (lb, (put_at 0 bs arr)[nat len := 0], b)
           else None)))"

text \<open>\<open>tick0\<close> and \<open>len0\<close> are the bytes of the uninitialised local variables.\<close>

definition record_get ::
    "byte list \<Rightarrow> byte list \<Rightarrow> log_record \<Rightarrow> manager \<Rightarrow> byte_buffer \<Rightarrow> (log_record \<times> byte_buffer) option" where
  "record_get tick0 len0 r m b =
     Option.bind (get_obj 8 tick0 m b) (\<lambda>(tick, b).
     Option.bind (get_obj 4 (le_bytes 4 (unat (rec_type r))) m b) (\<lambda>(ty, b).
     Option.bind (get_obj 4 (le_bytes 4 (rec_line r)) m b) (\<lambda>(ln, b).
     Option.bind (get_obj 8 (le_bytes 8 (rec_tid r)) m b) (\<lambda>(td, b).
     Option.bind (get_text len0 (rec_tag r) m b) (\<lambda>(len, tag, b).
     Option.bind (get_text len (rec_file r) m b) (\<lambda>(len, file, b).
     Option.bind (get_text len (rec_function r) m b) (\<lambda>(len, function, b).
     map_option (\<lambda>(len, message, b).
       (\<lparr>rec_ts = mk_stamp (to_i64 (int (le_val tick))), rec_type = word_of_nat (le_val ty),
         rec_line = le_val ln, rec_tid = le_val td, rec_tag = tag, rec_file = file,
         rec_function = function, rec_message = message\<rparr>, b))
       (get_text len (rec_message r) m b))))))))"

section \<open>Formatters\<close>

text \<open>The conversions \<open>%d\<close> and \<open>%0wd\<close> of \<open>printf\<close>, the latter for values that are not negative.\<close>

fun digits :: "nat \<Rightarrow> string" where
  "digits n = (if n < 10 then [char_of (48 + n)] else digits (n div 10) @ [char_of (48 + n mod 10)])"

declare digits.simps [simp del]

definition fmt_d :: "int \<Rightarrow> string" where
  "fmt_d v = (if v < 0 then ''-'' @ digits (nat (- v)) else digits (nat v))"

definition fmt_0d :: "nat \<Rightarrow> nat \<Rightarrow> string" where
  "fmt_0d w n = replicate (w - length (digits n)) CHR ''0'' @ digits n"

text \<open>\<open>snprintf\<close> at the write position with \<open>space()\<close> as its limit: the text, cut, and a terminator.\<close>

definition bb_snprintf :: "byte list \<Rightarrow> manager \<Rightarrow> byte_buffer \<Rightarrow> (int \<times> manager) option" where
  "bb_snprintf text m b =
     Option.bind (bb_space m b) (\<lambda>sp.
     Option.bind (wr_ptr b) (\<lambda>(p, off).
       if sp = 0 then Some (int (length text), m)
       else map_option (\<lambda>m'. (int (length text), m'))
              (mem_write (Some p) off (take (sp - 1) text @ [0]) m)))"

definition format_text :: "systemtime \<Rightarrow> log_record \<Rightarrow> byte list" where
  "format_text st r =
     ascii (''['' @ fmt_0d 4 (wYear st) @ fmt_0d 2 (wMonth st) @ fmt_0d 2 (wDay st) @ '' '' @
       fmt_0d 2 (wHour st) @ fmt_0d 2 (wMinute st) @ fmt_0d 2 (wSecond st) @ ''][''
       @ [acronym (rec_type r)] @ '']['') @ c_string (rec_tag r) @ ascii '']['' @ c_string (rec_message r) @
     ascii '']['' @ c_string (rec_function r) @ ascii '']['' @ c_string (rec_file r) @
     ascii ('':'' @ fmt_d (to_i32 (int (rec_line r))) @ '']['' @ fmt_d (to_i32 (int (rec_tid r))) @ '']'' @
       [CHR 0x0A])"

definition formatter_format ::
    "systemtime \<Rightarrow> log_record \<Rightarrow> manager \<Rightarrow> byte_buffer \<Rightarrow> (manager \<times> byte_buffer) option" where
  "formatter_format uninit r m buf =
     Option.bind (systemtime_of_stamp (rec_ts r) uninit) (\<lambda>st.
     Option.bind (bb_reserve 8192 m buf) (\<lambda>(m, buf).
       if \<forall>arr\<in>{rec_tag r, rec_message r, rec_function r, rec_file r}. strlen arr \<noteq> None
       then Option.bind (bb_snprintf (format_text st r) m buf) (\<lambda>(len, m).
            map_option (\<lambda>(n, buf). (m, buf)) (wr_ptr_move (to_i32 len) m buf))
       else None))"

definition serialize_format :: "log_record \<Rightarrow> manager \<Rightarrow> byte_buffer \<Rightarrow> (manager \<times> byte_buffer) option" where
  "serialize_format r m buf = Option.bind (bb_reserve 8192 m buf) (\<lambda>(m, buf). record_put r m buf)"


section \<open>Appending to a buffer\<close>

text \<open>
  \<open>appended p xs m b m' b'\<close>: the operation appended \<open>xs\<close> to the buffer over block \<open>p\<close> and changed nothing
  else.
\<close>

definition appended ::
    "nat \<Rightarrow> byte list \<Rightarrow> manager \<Rightarrow> byte_buffer \<Rightarrow> manager \<Rightarrow> byte_buffer \<Rightarrow> bool" where
  "appended p xs m b m' b' \<longleftrightarrow>
     manager_inv m' \<and> (\<exists>bs bs'. bb_view m b p bs \<and> bb_view m' b' p bs' \<and> length bs' = length bs) \<and>
     pos_read (bb_pos b') = pos_read (bb_pos b) \<and>
     pos_write (bb_pos b') = pos_write (bb_pos b) + length xs \<and>
     contents m' b' = contents m b @ xs \<and> count_of m' p = count_of m p \<and> same_except p m m'"

text \<open>Room for \<open>n\<close> more bytes.\<close>

definition has_room :: "nat \<Rightarrow> nat \<Rightarrow> manager \<Rightarrow> byte_buffer \<Rightarrow> bool" where
  "has_room n p m b \<longleftrightarrow>
     manager_inv m \<and> (\<exists>bs. bb_view m b p bs \<and> pos_write (bb_pos b) + n \<le> length bs)"

lemma bb_view_unique: "bb_view m b p bs \<Longrightarrow> bb_view m b p bs' \<Longrightarrow> bs = bs'"
  by (simp add: bb_view_def)

lemma appended_room:
  assumes "appended p xs m b m' b'" and "has_room (length xs + n) p m b"
  shows "has_room n p m' b'"
proof -
  obtain bs bs' where bs: "bb_view m b p bs" "bb_view m' b' p bs'" "length bs' = length bs"
    using assms(1) by (auto simp: appended_def)
  moreover have "pos_write (bb_pos b) + (length xs + n) \<le> length bs"
    using assms(2) bs(1) by (auto simp: has_room_def dest: bb_view_unique)
  ultimately show ?thesis
    using assms(1) by (auto simp: appended_def has_room_def)
qed

lemma appended_trans:
  assumes "appended p xs m b m1 b1" and "appended p ys m1 b1 m2 b2"
  shows "appended p (xs @ ys) m b m2 b2"
proof -
  obtain bs bs1 where 1: "bb_view m b p bs" "bb_view m1 b1 p bs1" "length bs1 = length bs"
    using assms(1) by (auto simp: appended_def)
  obtain bs1' bs2 where 2: "bb_view m1 b1 p bs1'" "bb_view m2 b2 p bs2" "length bs2 = length bs1'"
    using assms(2) by (auto simp: appended_def)
  have "length bs2 = length bs" using 1 2 bb_view_unique [OF 1(2) 2(1)] by simp
  then show ?thesis
    using assms 1(1) 2(2) bs.same_trans [of p m m1 m2] by (auto simp: appended_def)
qed

lemma bb_write_appends:
  assumes room: "has_room n p m b" and src: "n \<le> length src"
  shows "\<exists>k m' b'. bb_write src n m b = Some (k, m', b') \<and> appended p (take n src) m b m' b'"
proof -
  obtain bs where inv: "manager_inv m" and v: "bb_view m b p bs"
    and fits: "pos_write (bb_pos b) + n \<le> length bs"
    using room by (auto simp: has_room_def)
  let ?n = "min n (length bs - pos_write (bb_pos b))"
  have n: "?n = n" using fits by simp
  show ?thesis
  proof (rule bb_write_view [OF inv v src])
    fix m'
    assume w: "bb_write src n m b = Some (?n, m', set_write (pos_write (bb_pos b) + ?n) b)"
      "manager_inv m'" "bb_view m' (set_write (pos_write (bb_pos b) + ?n) b) p
         (put_at (pos_write (bb_pos b)) (take ?n src) bs)"
      "contents m' (set_write (pos_write (bb_pos b) + ?n) b) = contents m b @ take ?n src"
      "count_of m' p = count_of m p" "same_except p m m'"
    have "length (put_at (pos_write (bb_pos b)) (take n src) bs) = length bs"
      using fits src by (simp add: length_put_at)
    with w v src show ?thesis
      unfolding n appended_def by fastforce
  qed
qed

lemma put_pod_appends:
  assumes "has_room n p m b"
  shows "\<exists>m' b'. put_pod n x m b = Some (m', b') \<and> appended p (le_bytes n x) m b m' b'"
  using bb_write_appends [OF assms, of "le_bytes n x"] by (auto simp: put_pod_def)

text \<open>The representation of a text of a record: its length and its characters.\<close>

definition text_bytes :: "byte list \<Rightarrow> byte list" where
  "text_bytes arr = le_bytes 2 (length (c_string arr)) @ c_string arr"

text \<open>An array of \<open>n\<close> bytes, at most \<open>2 ^ 15\<close>, that holds a terminated string.\<close>

definition c_array :: "nat \<Rightarrow> byte list \<Rightarrow> bool" where
  "c_array n arr \<longleftrightarrow> length arr = n \<and> 0 \<in> set arr"

lemma c_string_length: "0 \<in> set arr \<Longrightarrow> length (c_string arr) < length arr"
  unfolding c_string_def by (induction arr) auto

lemma c_string_take: "take (length (c_string arr)) arr = c_string arr"
  unfolding c_string_def by (induction arr) auto

lemma to_i16_id: "0 \<le> x \<Longrightarrow> x < 2 ^ 15 \<Longrightarrow> to_i16 x = x"
  by (simp add: to_i16_def)

lemma to_u16_id: "0 \<le> x \<Longrightarrow> x < 2 ^ 16 \<Longrightarrow> to_u16 x = nat x"
  by (simp add: to_u16_def)

lemma length_text_bytes [simp]: "length (text_bytes arr) = 2 + length (c_string arr)"
  by (simp add: text_bytes_def)

lemma put_text_appends:
  assumes arr: "c_array n arr" "n \<le> 2 ^ 15" and room: "has_room (length (text_bytes arr)) p m b"
  shows "\<exists>m' b'. put_text arr m b = Some (m', b') \<and> appended p (text_bytes arr) m b m' b'"
proof -
  let ?k = "length (c_string arr)"
  have z: "0 \<in> set arr" and k: "?k < length arr" "?k < 2 ^ 15"
    using arr c_string_length [of arr] by (auto simp: c_array_def)
  have r2: "has_room 2 p m b" using room by (auto simp: has_room_def)
  obtain m1 b1 where 1: "put_pod 2 ?k m b = Some (m1, b1)" "appended p (le_bytes 2 ?k) m b m1 b1"
    using put_pod_appends [OF r2] by blast
  have "has_room ?k p m1 b1"
    using appended_room [OF 1(2)] room by simp
  then obtain j m2 b2 where 2: "bb_write arr ?k m1 b1 = Some (j, m2, b2)"
      "appended p (take ?k arr) m1 b1 m2 b2"
    using bb_write_appends [of ?k p m1 b1 arr] k(1) by fastforce
  have "put_text arr m b = Some (m2, b2)"
    using z k 1(1) 2(1) by (simp add: put_text_def strlen_def to_i16_id to_u16_id to_size_id)
  then show ?thesis
    using appended_trans [OF 1(2) 2(2)] by (simp add: text_bytes_def c_string_take)
qed

definition record_bytes :: "log_record \<Rightarrow> byte list" where
  "record_bytes r =
     le_bytes 8 (to_size (stamp_tick (rec_ts r))) @ le_bytes 4 (unat (rec_type r)) @ le_bytes 4 (rec_line r) @
     le_bytes 8 (rec_tid r) @ text_bytes (rec_tag r) @ text_bytes (rec_file r) @
     text_bytes (rec_function r) @ text_bytes (rec_message r)"

text \<open>A record whose texts are terminated and whose numbers are values of their types.\<close>

definition record_ok :: "log_record \<Rightarrow> bool" where
  "record_ok r \<longleftrightarrow>
     - (2 ^ 63) \<le> stamp_tick (rec_ts r) \<and> stamp_tick (rec_ts r) < 2 ^ 63 \<and> rec_line r < 2 ^ 32 \<and> rec_tid r < 2 ^ 64 \<and>
     c_array 32 (rec_tag r) \<and> c_array 256 (rec_file r) \<and> c_array 256 (rec_function r) \<and>
     c_array 2048 (rec_message r)"

lemma text_bytes_limit: "c_array n arr \<Longrightarrow> length (text_bytes arr) < 2 + n"
  using c_string_length [of arr] by (auto simp: c_array_def)

lemma record_bytes_limit:
  assumes "record_ok r"
  shows "length (record_bytes r) < 2624"
proof -
  have "length (text_bytes (rec_tag r)) < 34" "length (text_bytes (rec_file r)) < 258"
    "length (text_bytes (rec_function r)) < 258" "length (text_bytes (rec_message r)) < 2050"
    using assms text_bytes_limit [of 32] text_bytes_limit [of 256] text_bytes_limit [of 2048]
    by (auto simp: record_ok_def)
  then show ?thesis unfolding record_bytes_def by (simp del: length_text_bytes)
qed

lemma room_split:
  "has_room (length (xs @ ys)) p m b \<Longrightarrow> has_room (length xs) p m b"
  by (auto simp: has_room_def)

lemma appended_rest:
  "appended p xs m b m' b' \<Longrightarrow> has_room (length (xs @ ys)) p m b \<Longrightarrow> has_room (length ys) p m' b'"
  using appended_room [of p xs m b m' b' "length ys"] by simp

text \<open>One step of a chain of appending operations.\<close>

lemma append_step:
  assumes room: "has_room (length (xs @ ys)) p m b"
    and step: "has_room (length xs) p m b \<Longrightarrow> \<exists>m' b'. f m b = Some (m', b') \<and> appended p xs m b m' b'"
    and rest: "\<And>m1 b1. has_room (length ys) p m1 b1 \<Longrightarrow>
                 \<exists>m' b'. g m1 b1 = Some (m', b') \<and> appended p ys m1 b1 m' b'"
  shows "\<exists>m' b'. Option.bind (f m b) (\<lambda>(m, b). g m b) = Some (m', b') \<and> appended p (xs @ ys) m b m' b'"
proof -
  obtain m1 b1 where 1: "f m b = Some (m1, b1)" "appended p xs m b m1 b1"
    using step [OF room_split [OF room]] by blast
  obtain m2 b2 where 2: "g m1 b1 = Some (m2, b2)" "appended p ys m1 b1 m2 b2"
    using rest [OF appended_rest [OF 1(2) room]] by blast
  show ?thesis using 1(1) 2(1) appended_trans [OF 1(2) 2(2)] by simp
qed

lemma append_pod:
  assumes "has_room (length (le_bytes n x @ ys)) p m b"
    and "\<And>m1 b1. has_room (length ys) p m1 b1 \<Longrightarrow> \<exists>m' b'. g m1 b1 = Some (m', b') \<and> appended p ys m1 b1 m' b'"
  shows "\<exists>m' b'. Option.bind (put_pod n x m b) (\<lambda>(m, b). g m b) = Some (m', b') \<and>
           appended p (le_bytes n x @ ys) m b m' b'"
  by (rule append_step [where f = "put_pod n x", OF assms(1) _ assms(2)]) (simp_all add: put_pod_appends)

lemma append_text:
  assumes "c_array n arr" and "n \<le> 2 ^ 15" and "has_room (length (text_bytes arr @ ys)) p m b"
    and "\<And>m1 b1. has_room (length ys) p m1 b1 \<Longrightarrow> \<exists>m' b'. g m1 b1 = Some (m', b') \<and> appended p ys m1 b1 m' b'"
  shows "\<exists>m' b'. Option.bind (put_text arr m b) (\<lambda>(m, b). g m b) = Some (m', b') \<and>
           appended p (text_bytes arr @ ys) m b m' b'"
  by (rule append_step [where f = "put_text arr", OF assms(3) put_text_appends [OF assms(1,2)] assms(4)])

lemma record_put_appends:
  assumes ok: "record_ok r" and room: "has_room (length (record_bytes r)) p m b"
  shows "\<exists>m' b'. record_put r m b = Some (m', b') \<and> appended p (record_bytes r) m b m' b'"
proof -
  have t: "c_array 32 (rec_tag r)" "c_array 256 (rec_file r)" "c_array 256 (rec_function r)"
    "c_array 2048 (rec_message r)"
    using ok by (auto simp: record_ok_def)
  have le: "(32 :: nat) \<le> 2 ^ 15" "(256 :: nat) \<le> 2 ^ 15" "(2048 :: nat) \<le> 2 ^ 15" by simp_all
  show ?thesis
    using room unfolding record_put_def record_bytes_def
    by (intro append_pod append_text [OF t(1) le(1)] append_text [OF t(2) le(2)]
        append_text [OF t(3) le(2)] put_text_appends [OF t(4) le(3)])
qed

section \<open>Reading records back\<close>

lemma get_obj_reads:
  assumes inv: "manager_inv m" and v: "bb_view m b p bs" and c: "contents m b = xs @ rest"
    and n: "length xs = n" "length old = n"
  shows "\<exists>b'. get_obj n old m b = Some (xs, b') \<and> bb_view m b' p bs \<and> contents m b' = rest"
  using bb_read_view [OF inv v, of n] bb_read_contents [OF v, of n] c n
  by (simp add: get_obj_def get_pod_def)

lemma c_string_overwrite:
  assumes "0 \<notin> set xs" and "length xs < length arr"
  shows "c_string ((put_at 0 xs arr)[length xs := 0]) = xs"
proof -
  have "(put_at 0 xs arr)[length xs := 0] = xs @ 0 # drop (Suc (length xs)) arr"
    using assms(2) by (simp add: put_at_def list_update_append Cons_nth_drop_Suc [symmetric])
  moreover have "takeWhile (\<lambda>c. c \<noteq> 0) (xs @ 0 # ys) = xs" for ys
    using assms(1) by (induction xs) auto
  ultimately show ?thesis by (simp add: c_string_def)
qed

lemma c_string_no_zero: "0 \<notin> set (c_string arr)"
  unfolding c_string_def by (induction arr) auto

lemma get_text_reads:
  assumes inv: "manager_inv m" and v: "bb_view m b p bs" and c: "contents m b = text_bytes a @ rest"
    and a: "c_array n a" "n \<le> 2 ^ 15" and arr: "length arr = n" and len0: "length len0 = 2"
  shows "\<exists>lb arr' b'. get_text len0 arr m b = Some (lb, arr', b') \<and> length lb = 2 \<and>
           c_array n arr' \<and> c_string arr' = c_string a \<and> bb_view m b' p bs \<and> contents m b' = rest"
proof -
  let ?k = "length (c_string a)"
  have k: "?k < n" "?k < 2 ^ 15" using a c_string_length [of a] by (auto simp: c_array_def)
  have c': "contents m b = le_bytes 2 ?k @ (c_string a @ rest)" using c by (simp add: text_bytes_def)
  obtain b1 where 1: "get_obj 2 len0 m b = Some (le_bytes 2 ?k, b1)" "bb_view m b1 p bs"
      "contents m b1 = c_string a @ rest"
    using get_obj_reads [OF inv v c' _ len0] by auto
  have val: "le_val (le_bytes 2 ?k) = ?k" using k(2) by (simp add: le_val_le_bytes)
  obtain b2 where 2: "bb_read ?k m b1 = Some (c_string a, b2)" "bb_view m b2 p bs" "contents m b2 = rest"
    using bb_read_view [OF inv 1(2), of ?k] bb_read_contents [OF 1(2), of ?k] 1(3) by simp
  let ?arr = "(put_at 0 (c_string a) arr)[?k := 0]"
  have "get_text len0 arr m b = Some (le_bytes 2 ?k, ?arr, b2)"
    using 1(1) 2(1) k arr val by (simp add: get_text_def to_i16_id to_size_id)
  moreover have "length ?arr = n" using k(1) arr by (simp add: length_put_at)
  moreover have "0 \<in> set ?arr" using k(1) arr by (simp add: set_update_memI length_put_at)
  moreover have "c_string ?arr = c_string a"
    using c_string_overwrite [OF c_string_no_zero] k(1) arr by blast
  ultimately show ?thesis using 2(2,3) by (auto simp: c_array_def)
qed

text \<open>The record read into has arrays of the declared sizes, with any bytes in them.\<close>

definition record_target :: "log_record \<Rightarrow> bool" where
  "record_target r \<longleftrightarrow>
     length (rec_tag r) = 32 \<and> length (rec_file r) = 256 \<and> length (rec_function r) = 256 \<and>
     length (rec_message r) = 2048"

text \<open>The same numbers and the same texts.\<close>

definition same_record :: "log_record \<Rightarrow> log_record \<Rightarrow> bool" where
  "same_record r r' \<longleftrightarrow>
     rec_ts r' = rec_ts r \<and> rec_type r' = rec_type r \<and> rec_line r' = rec_line r \<and> rec_tid r' = rec_tid r \<and>
     c_string (rec_tag r') = c_string (rec_tag r) \<and> c_string (rec_file r') = c_string (rec_file r) \<and>
     c_string (rec_function r') = c_string (rec_function r) \<and>
     c_string (rec_message r') = c_string (rec_message r)"

lemma tick_round_trip:
  assumes "- (2 ^ 63) \<le> x" and "x < 2 ^ 63"
  shows "to_i64 (int (le_val (le_bytes 8 (to_size x)))) = x"
proof -
  have "int (to_size x) = x mod 2 ^ 64" by (simp add: to_size_def)
  moreover have "le_val (le_bytes 8 (to_size x)) = to_size x"
    using to_size_less [of x] by (simp add: le_val_le_bytes)
  moreover have "(x mod 2 ^ 64 + 2 ^ 63) mod 2 ^ 64 = (x + 2 ^ 63) mod 2 ^ 64"
    by (rule mod_add_left_eq)
  ultimately show ?thesis using assms to_i64_id [of x] by (simp add: to_i64_def)
qed

lemma stamp_round_trip:
  assumes "- (2 ^ 63) \<le> stamp_tick ts" and "stamp_tick ts < 2 ^ 63"
  shows "mk_stamp (to_i64 (int (le_val (le_bytes 8 (to_size (stamp_tick ts)))))) = ts"
  unfolding tick_round_trip [OF assms] using assms by (simp add: mk_stamp_def to_i64_id)

lemma word_round_trip: "word_of_nat (le_val (le_bytes 4 (unat w))) = w" for w :: "32 word"
proof -
  have "unat w < 2 ^ 32" using unsigned_less [of w, where ?'a = nat] by simp
  then have "unat w mod 256 ^ 4 = unat w" by simp
  then show ?thesis unfolding le_val_le_bytes by simp
qed

lemma record_get_reads:
  assumes inv: "manager_inv m" and v: "bb_view m b p bs" and c: "contents m b = record_bytes r @ rest"
    and ok: "record_ok r" and tgt: "record_target r0" and locals: "length tick0 = 8" "length len0 = 2"
  shows "\<exists>r' b'. record_get tick0 len0 r0 m b = Some (r', b') \<and> same_record r r' \<and> record_ok r' \<and>
           bb_view m b' p bs \<and> contents m b' = rest"
proof -
  have t: "c_array 32 (rec_tag r)" "c_array 256 (rec_file r)" "c_array 256 (rec_function r)"
      "c_array 2048 (rec_message r)" "rec_line r < 2 ^ 32" "rec_tid r < 2 ^ 64"
      "- (2 ^ 63) \<le> stamp_tick (rec_ts r)" "stamp_tick (rec_ts r) < 2 ^ 63"
    using ok by (auto simp: record_ok_def)
  have a: "length (rec_tag r0) = 32" "length (rec_file r0) = 256" "length (rec_function r0) = 256"
      "length (rec_message r0) = 2048"
    using tgt by (auto simp: record_target_def)
  have le: "(32 :: nat) \<le> 2 ^ 15" "(256 :: nat) \<le> 2 ^ 15" "(2048 :: nat) \<le> 2 ^ 15" by simp_all
  note c' = c [unfolded record_bytes_def append_assoc]
  let ?c7 = "text_bytes (rec_message r) @ rest"
  let ?c6 = "text_bytes (rec_function r) @ ?c7"
  let ?c5 = "text_bytes (rec_file r) @ ?c6"
  let ?c4 = "text_bytes (rec_tag r) @ ?c5"
  let ?c3 = "le_bytes 8 (rec_tid r) @ ?c4"
  let ?c2 = "le_bytes 4 (rec_line r) @ ?c3"
  let ?c1 = "le_bytes 4 (unat (rec_type r)) @ ?c2"
  obtain b1 where 1: "get_obj 8 tick0 m b = Some (le_bytes 8 (to_size (stamp_tick (rec_ts r))), b1)"
      "bb_view m b1 p bs" and c1: "contents m b1 = ?c1"
    using get_obj_reads [OF inv v c' length_le_bytes locals(1)] by blast
  obtain b2 where 2: "get_obj 4 (le_bytes 4 (unat (rec_type r0))) m b1 = Some (le_bytes 4 (unat (rec_type r)), b2)"
      "bb_view m b2 p bs" and c2: "contents m b2 = ?c2"
    using get_obj_reads [OF inv 1(2) c1 length_le_bytes length_le_bytes] by blast
  obtain b3 where 3: "get_obj 4 (le_bytes 4 (rec_line r0)) m b2 = Some (le_bytes 4 (rec_line r), b3)"
      "bb_view m b3 p bs" and c3: "contents m b3 = ?c3"
    using get_obj_reads [OF inv 2(2) c2 length_le_bytes length_le_bytes] by blast
  obtain b4 where 4: "get_obj 8 (le_bytes 8 (rec_tid r0)) m b3 = Some (le_bytes 8 (rec_tid r), b4)"
      "bb_view m b4 p bs" and c4: "contents m b4 = ?c4"
    using get_obj_reads [OF inv 3(2) c3 length_le_bytes length_le_bytes] by blast
  obtain l5 a5 b5 where 5: "get_text len0 (rec_tag r0) m b4 = Some (l5, a5, b5)" "length l5 = 2"
      "c_array 32 a5" "c_string a5 = c_string (rec_tag r)" "bb_view m b5 p bs" and c5: "contents m b5 = ?c5"
    using get_text_reads [OF inv 4(2) c4 t(1) le(1) a(1) locals(2)] by blast
  obtain l6 a6 b6 where 6: "get_text l5 (rec_file r0) m b5 = Some (l6, a6, b6)" "length l6 = 2"
      "c_array 256 a6" "c_string a6 = c_string (rec_file r)" "bb_view m b6 p bs" and c6: "contents m b6 = ?c6"
    using get_text_reads [OF inv 5(5) c5 t(2) le(2) a(2) 5(2)] by blast
  obtain l7 a7 b7 where 7: "get_text l6 (rec_function r0) m b6 = Some (l7, a7, b7)" "length l7 = 2"
      "c_array 256 a7" "c_string a7 = c_string (rec_function r)" "bb_view m b7 p bs" and c7: "contents m b7 = ?c7"
    using get_text_reads [OF inv 6(5) c6 t(3) le(2) a(3) 6(2)] by blast
  obtain l8 a8 b8 where 8: "get_text l7 (rec_message r0) m b7 = Some (l8, a8, b8)"
      "c_array 2048 a8" "c_string a8 = c_string (rec_message r)" "bb_view m b8 p bs" "contents m b8 = rest"
    using get_text_reads [OF inv 7(5) c7 t(4) le(3) a(4) 7(2)] by blast
  have vals: "mk_stamp (to_i64 (int (le_val (le_bytes 8 (to_size (stamp_tick (rec_ts r))))))) = rec_ts r"
      "word_of_nat (le_val (le_bytes 4 (unat (rec_type r)))) = rec_type r"
      "le_val (le_bytes 4 (rec_line r)) = rec_line r" "le_val (le_bytes 8 (rec_tid r)) = rec_tid r"
    using t(5,6) stamp_round_trip [OF t(7,8)] word_round_trip [of "rec_type r"]
    by (simp_all add: le_val_le_bytes)
  let ?r = "\<lparr>rec_ts = rec_ts r, rec_type = rec_type r, rec_line = rec_line r, rec_tid = rec_tid r, rec_tag = a5,
      rec_file = a6, rec_function = a7, rec_message = a8\<rparr>"
  have "record_get tick0 len0 r0 m b = Some (?r, b8)"
    using 1(1) 2(1) 3(1) 4(1) 5(1) 6(1) 7(1) 8(1) by (simp add: record_get_def vals)
  moreover have "same_record r ?r" using 5(4) 6(4) 7(4) 8(3) by (simp add: same_record_def)
  moreover have "record_ok ?r" using 5(3) 6(3) 7(3) 8(2) t(5-8) by (simp add: record_ok_def)
  ultimately show ?thesis using 8(4,5) by blast
qed

section \<open>What a formatter promises\<close>

text \<open>
  A formatter puts the text of a record into a cleared buffer, which ends in a block of its own; a text
  formatter also leaves a terminator behind the text.
\<close>

definition formatted ::
    "byte list \<Rightarrow> manager \<Rightarrow> byte_buffer \<Rightarrow> manager \<Rightarrow> byte_buffer \<Rightarrow> nat \<Rightarrow> byte list \<Rightarrow> bool" where
  "formatted xs m b m' b' q qs \<longleftrightarrow>
     manager_inv m' \<and> bb_view m' b' q qs \<and> contents m' b' = xs \<and> pos_read (bb_pos b') = 0 \<and>
     count_of m' q = 1 \<and> others_kept (bb_block b) m m'"

locale log_formatter =
  fixes fmt :: "log_record \<Rightarrow> manager \<Rightarrow> byte_buffer \<Rightarrow> (manager \<times> byte_buffer) option"
    and text_of :: "log_record \<Rightarrow> byte list"
    and fits :: "log_record \<Rightarrow> bool"
  assumes format_law: "manager_inv m \<Longrightarrow> bb_ok m b \<Longrightarrow> bb_pos b = position_ctor \<Longrightarrow> fits r \<Longrightarrow>
    \<exists>m' b' q qs. fmt r m b = Some (m', b') \<and> formatted (text_of r) m b m' b' q qs"

locale text_formatter = log_formatter +
  assumes no_zero_law: "fits r \<Longrightarrow> 0 \<notin> set (text_of r)"
    and terminated_law: "manager_inv m \<Longrightarrow> bb_ok m b \<Longrightarrow> bb_pos b = position_ctor \<Longrightarrow> fits r \<Longrightarrow>
      fmt r m b = Some (m', b') \<Longrightarrow> bb_view m' b' q qs \<Longrightarrow>
      length (text_of r) < length qs \<and> qs ! length (text_of r) = 0"

lemma position_eq: "p = position_ctor \<longleftrightarrow> pos_read p = 0 \<and> pos_write p = 0" for p :: position
  by (cases p) (auto simp: position_ctor_def)

lemma reserved_room:
  assumes inv: "manager_inv m" and ok: "bb_ok m b" and pos: "bb_pos b = position_ctor"
  obtains m' b' q qs where "bb_reserve 8192 m b = Some (m', b')" "has_room 8192 q m' b'"
    "bb_view m' b' q qs" "contents m' b' = []" "bb_pos b' = position_ctor" "count_of m' q = 1"
    "others_kept (bb_block b) m m'"
proof -
  have len: "bb_length b = 0" using pos by (simp add: bb_length_def size_sub_def to_size_def)
  have sz: "int (bb_length b) \<le> 8192" "(8192 :: int) < 2 ^ 31" using len by simp_all
  show ?thesis
  proof (rule bb_reserve_ok [OF inv ok sz])
    fix m' b' q qs
    assume r: "bb_reserve 8192 m b = Some (m', b')" "manager_inv m'" "bb_view m' b' q qs"
      "contents m' b' = contents m b" "8192 \<le> int (length qs)"
      "pos_read (bb_pos b) = 0 \<longrightarrow> pos_read (bb_pos b') = 0" "count_of m' q = 1"
      "others_kept (bb_block b) m m'"
    have c: "contents m' b' = []"
      using r(4) pos by (simp add: contents_def split: option.splits)
    have rd: "pos_read (bb_pos b') = 0" using r(6) pos by simp
    have "bb_length b' = 0" using length_contents [OF r(3)] c by simp
    then have "pos_write (bb_pos b') = 0" using bb_length_view [OF r(3)] rd by simp
    with rd have p: "bb_pos b' = position_ctor" by (simp add: position_eq)
    then have "has_room 8192 q m' b'" using r(2,3,5) by (auto simp: has_room_def)
    with that r c p show ?thesis by blast
  qed
qed

lemma others_kept_same:
  assumes "others_kept h m m1" and "same_except q m1 m2" and "h = Some q \<or> bytes_of m q = None"
  shows "others_kept h m m2"
  using assms unfolding others_kept_def same_except_def by (metis option.distinct(1))

text \<open>The block of a grown buffer is the old one or was not in use.\<close>

lemma reserve_block:
  assumes "bb_reserve sz m b = Some (m', b')" and "manager_inv m" and "bb_view m' b' q qs"
    and "0 \<le> sz" "sz < 2 ^ 31"
  shows "bb_block b = Some q \<or> bytes_of m q = None"
proof -
  from assms(5) assms(4) have nsz: "nat sz < 2 ^ 31" "to_size sz = nat sz" by (auto simp: to_size_id)
  obtain m1 p bs where a: "bb_ctor_size (nat sz) m = Some (m1, \<lparr>bb_block = Some p, bb_pos = position_ctor\<rparr>)"
      "bytes_of m p = None"
    using assms(2) nsz(1) by (rule bb_ctor_size_view)
  have w: "bb_block b2 = bb_block b1" if "bb_write xs n m0 b1 = Some (k, m2, b2)" for xs n m0 b1 k m2 b2
    using that by (auto simp: bb_write_def wr_ptr_move_def bind_eq_Some_iff Let_def split: if_splits)
  from assms(1) consider "b' = b" | "bb_block b' = Some p"
    unfolding bb_reserve_def nsz(2)
    by (auto simp: bind_eq_Some_iff a(1) split: if_splits dest!: w)
  then show ?thesis using a(2) bb_viewD(1) [OF assms(3)] by cases auto
qed

lemma appended_formatted:
  assumes "bb_view m1 b1 q qs" "contents m1 b1 = []" "bb_pos b1 = position_ctor" "count_of m1 q = 1"
    "others_kept (bb_block b) m m1" "bb_block b = Some q \<or> bytes_of m q = None" "appended q xs m1 b1 m2 b2"
  shows "\<exists>qs'. formatted xs m b m2 b2 q qs'"
  using assms others_kept_same [OF assms(5) _ assms(6), of m2]
  by (auto simp: formatted_def appended_def)

interpretation sf: log_formatter serialize_format record_bytes record_ok
proof
  fix m b r
  assume inv: "manager_inv m" and ok: "bb_ok m b" and pos: "bb_pos b = position_ctor" and r: "record_ok r"
  show "\<exists>m' b' q qs. serialize_format r m b = Some (m', b') \<and> formatted (record_bytes r) m b m' b' q qs"
  proof (rule reserved_room [OF inv ok pos])
    fix m1 b1 q qs
    assume g: "bb_reserve 8192 m b = Some (m1, b1)" "has_room 8192 q m1 b1" "bb_view m1 b1 q qs"
      "contents m1 b1 = []" "bb_pos b1 = position_ctor" "count_of m1 q = 1" "others_kept (bb_block b) m m1"
    have "has_room (length (record_bytes r)) q m1 b1"
      using g(2) record_bytes_limit [OF r] by (auto simp: has_room_def)
    with r obtain m2 b2 where p: "record_put r m1 b1 = Some (m2, b2)" "appended q (record_bytes r) m1 b1 m2 b2"
      using record_put_appends by blast
    have "bb_block b = Some q \<or> bytes_of m q = None"
      using reserve_block [OF g(1) inv g(3)] by simp
    from appended_formatted [OF g(3-7) this p(2)] show ?thesis
      using g(1) p(1) by (auto simp: serialize_format_def)
  qed
qed

section \<open>The text formatter\<close>

lemma digits_length: "n < 10 ^ k \<Longrightarrow> 0 < k \<Longrightarrow> length (digits n) \<le> k"
proof (induction n arbitrary: k rule: digits.induct)
  case (1 n)
  show ?case
  proof (cases "n < 10")
    case True
    then show ?thesis using 1 by (simp add: digits.simps)
  next
    case False
    then have "k \<noteq> 1" using "1.prems"(1) by auto
    then obtain j where j: "k = Suc j" "0 < j" using "1.prems"(2) by (cases k) auto
    then have "n div 10 < 10 ^ j" using "1.prems"(1) by (simp add: less_mult_imp_div_less mult.commute)
    from "1.IH" [OF False this j(2)] j(1) show ?thesis by (simp add: digits.simps [of n] False)
  qed
qed

lemma digit_code: "n < 10 \<Longrightarrow> of_char (char_of (48 + n) :: char) = 48 + n" for n :: nat
  by simp

lemma digits_no_zero: "CHR 0x00 \<notin> set (digits n)"
proof (induction n rule: digits.induct)
  case (1 n)
  have nz: "CHR 0x00 \<noteq> char_of (48 + k)" if "k < 10" for k :: nat
  proof
    assume "CHR 0x00 = char_of (48 + k)"
    then have "of_char (CHR 0x00) = 48 + k" using digit_code [OF that] by simp
    then show False by simp
  qed
  show ?case
    using 1 nz by (subst digits.simps) (auto split: if_splits)
qed

lemma unat_of_char [simp]: "unat (of_char c :: byte) = of_char c"
  unfolding of_nat_of_char [where ?'a = byte, symmetric] by (simp add: unat_of_nat)

lemma of_char_word_zero: "of_char c = (0 :: byte) \<longleftrightarrow> c = CHR 0x00"
proof
  assume "of_char c = (0 :: byte)"
  then have "unat (of_char c :: byte) = of_char (CHR 0x00)" by simp
  then show "c = CHR 0x00" by (simp only: unat_of_char of_char_eq_iff)
qed simp

lemma zero_in_ascii [simp]: "0 \<in> set (ascii s) \<longleftrightarrow> CHR 0x00 \<in> set s"
  using of_char_word_zero by (auto simp: ascii_def image_iff)

lemma length_ascii [simp]: "length (ascii s) = length s"
  by (simp add: ascii_def)

lemma fmt_no_zero [simp]: "CHR 0x00 \<notin> set (fmt_0d w n)" "CHR 0x00 \<notin> set (fmt_d v)"
  by (auto simp: fmt_0d_def fmt_d_def digits_no_zero)

lemma acronym_no_zero [simp]: "acronym l \<noteq> CHR 0x00" "CHR 0x00 \<noteq> acronym l"
  by (auto simp: acronym_def)

lemma fmt_0d_length: "n < 2 ^ 16 \<Longrightarrow> w \<le> 5 \<Longrightarrow> length (fmt_0d w n) \<le> 5"
  using digits_length [of n 5] by (simp add: fmt_0d_def)

lemma fmt_d_length:
  assumes "- (2 ^ 31) \<le> v" and "v < 2 ^ 31"
  shows "length (fmt_d v) \<le> 11"
proof -
  have "nat v < 10 ^ 10" "nat (- v) < 10 ^ 10" using assms by (auto simp: nat_less_iff)
  then show ?thesis using digits_length [of "nat v" 10] digits_length [of "nat (- v)" 10]
    by (simp add: fmt_d_def)
qed

lemma systemtime_fields:
  assumes "systemtime_of_stamp ts u = Some st"
  shows "wYear st < 2 ^ 16" "wMonth st < 2 ^ 16" "wDay st < 2 ^ 16" "wHour st < 2 ^ 16"
    "wMinute st < 2 ^ 16" "wSecond st < 2 ^ 16"
  using assms by (auto simp: systemtime_of_stamp_def to_u16_def nat_less_iff)

lemma format_text_limit:
  assumes "record_ok r" and "systemtime_of_stamp ts u = Some st"
  shows "length (format_text st r) < 4096"
proof -
  have "length (c_string (rec_tag r)) < 32" "length (c_string (rec_file r)) < 256"
    "length (c_string (rec_function r)) < 256" "length (c_string (rec_message r)) < 2048"
    using assms(1) c_string_length by (fastforce simp: record_ok_def c_array_def)+
  moreover note systemtime_fields [OF assms(2), THEN fmt_0d_length, of 4]
    systemtime_fields [OF assms(2), THEN fmt_0d_length, of 2]
    fmt_d_length [OF conjunct1 [OF to_i32_range] conjunct2 [OF to_i32_range], of "int (rec_line r)"]
    fmt_d_length [OF conjunct1 [OF to_i32_range] conjunct2 [OF to_i32_range], of "int (rec_tid r)"]
  ultimately show ?thesis by (simp add: format_text_def)
qed

text \<open>\<open>snprintf\<close> and the move of the write position append a text that fits and a terminator behind it.\<close>

lemma snprintf_appends:
  assumes room: "has_room 8192 p m b" and pos: "bb_pos b = position_ctor" and n: "length text < 4096"
  obtains m' b' bs where "bb_snprintf text m b = Some (int (length text), m')"
    "wr_ptr_move (to_i32 (int (length text))) m' b = Some (int (length text), b')"
    "appended p text m b m' b'" "bb_view m' b' p bs" "length text < length bs" "bs ! length text = 0"
proof -
  obtain bs where inv: "manager_inv m" and v: "bb_view m b p bs" and fits: "8192 \<le> length bs"
    using room pos by (auto simp: has_room_def)
  note d = bb_viewD [OF v]
  let ?bs = "put_at 0 (text @ [0]) bs" and ?b = "set_write (length text) b"
  have f: "0 + length (text @ [0]) \<le> length bs" and take: "take (length bs - 1) text = text"
    using n fits by simp_all
  have len: "length ?bs = length bs" using length_put_at [OF f] .
  show ?thesis
  proof (rule mem_write_bytes [OF inv d(2) f])
    fix m'
    assume w: "mem_write (Some p) 0 (text @ [0]) m = Some m'" "manager_inv m'" "bytes_of m' p = Some ?bs"
      "count_of m' p = count_of m p" "same_except p m m'"
    have v1: "bb_view m' b p ?bs" using d w(3) len by (simp add: bb_view_def)
    have v2: "bb_view m' ?b p ?bs" using d w(3) len n fits pos by (simp add: bb_view_def)
    have sp: "bb_space m b = Some (length bs)" using bb_space_view [OF inv v] pos by simp
    have pr: "bb_snprintf text m b = Some (int (length text), m')"
      using d(1) w(1) sp fits pos take by (auto simp: bb_snprintf_def wr_ptr_def)
    have mv: "wr_ptr_move (to_i32 (int (length text))) m' b = Some (int (length text), ?b)"
      using wr_ptr_move_view [OF w(2) v1, of "int (length text)"] n fits len pos
      by (simp add: to_i32_id Let_def min_def)
    have c: "contents m' ?b = text" "contents m b = []"
      using n fits pos by (simp_all add: contents_view [OF v2] contents_view [OF v] put_at_def)
    have "appended p text m b m' ?b"
      unfolding appended_def using w v v2 len c pos by auto
    moreover have "?bs ! length text = 0" using n fits by (simp add: put_at_def nth_append)
    ultimately show ?thesis using that pr mv v2 len n fits by simp
  qed
qed

definition text_fits :: "systemtime \<Rightarrow> log_record \<Rightarrow> bool" where
  "text_fits u r \<longleftrightarrow> record_ok r \<and> systemtime_of_stamp (rec_ts r) u \<noteq> None"

definition text_line :: "systemtime \<Rightarrow> log_record \<Rightarrow> byte list" where
  "text_line u r = format_text (the (systemtime_of_stamp (rec_ts r) u)) r"

lemma formatter_format_result:
  assumes inv: "manager_inv m" and ok: "bb_ok m b" and pos: "bb_pos b = position_ctor" and r: "text_fits u r"
  shows "\<exists>m' b' q qs. formatter_format u r m b = Some (m', b') \<and> formatted (text_line u r) m b m' b' q qs \<and>
           length (text_line u r) < length qs \<and> qs ! length (text_line u r) = 0"
proof (rule reserved_room [OF inv ok pos])
  fix m1 b1 q qs
  assume g: "bb_reserve 8192 m b = Some (m1, b1)" "has_room 8192 q m1 b1" "bb_view m1 b1 q qs"
    "contents m1 b1 = []" "bb_pos b1 = position_ctor" "count_of m1 q = 1" "others_kept (bb_block b) m m1"
  have rok: "record_ok r" using r by (simp add: text_fits_def)
  obtain st where st: "systemtime_of_stamp (rec_ts r) u = Some st" using r by (auto simp: text_fits_def)
  have line: "text_line u r = format_text st r" by (simp add: text_line_def st)
  have s: "strlen (rec_tag r) \<noteq> None" "strlen (rec_message r) \<noteq> None" "strlen (rec_function r) \<noteq> None"
    "strlen (rec_file r) \<noteq> None"
    using rok by (simp_all add: record_ok_def c_array_def strlen_def)
  have lim: "length (format_text st r) < 4096" by (rule format_text_limit [OF rok st])
  have blk: "bb_block b = Some q \<or> bytes_of m q = None"
    using reserve_block [OF g(1) inv g(3)] by simp
  show ?thesis
  proof (rule snprintf_appends [OF g(2,5) lim])
    fix m2 b2 bs
    assume w: "bb_snprintf (format_text st r) m1 b1 = Some (int (length (format_text st r)), m2)"
      "wr_ptr_move (to_i32 (int (length (format_text st r)))) m2 b1 = Some (int (length (format_text st r)), b2)"
      "appended q (format_text st r) m1 b1 m2 b2" "bb_view m2 b2 q bs" "length (format_text st r) < length bs"
      "bs ! length (format_text st r) = 0"
    have "formatter_format u r m b = Some (m2, b2)"
      using st g(1) s w(1,2) by (simp add: formatter_format_def)
    moreover obtain qs' where f: "formatted (format_text st r) m b m2 b2 q qs'"
      using appended_formatted [OF g(3-7) blk w(3)] by blast
    moreover have "qs' = bs" using f w(4) by (auto simp: formatted_def dest: bb_view_unique)
    ultimately show ?thesis unfolding line using w(5,6) by blast
  qed
qed

interpretation tf: text_formatter "formatter_format u" "text_line u" "text_fits u" for u
proof
  fix m b r m' b' q qs
  assume a: "manager_inv m" "bb_ok m b" "bb_pos b = position_ctor" "text_fits u r"
  show "\<exists>m' b' q qs. formatter_format u r m b = Some (m', b') \<and> formatted (text_line u r) m b m' b' q qs"
    using formatter_format_result [OF a] by blast
  show "length (text_line u r) < length qs \<and> qs ! length (text_line u r) = 0"
    if "formatter_format u r m b = Some (m', b')" "bb_view m' b' q qs"
    using formatter_format_result [OF a] that by (auto simp: formatted_def bb_view_def)
next
  fix r
  assume "text_fits u r"
  then show "0 \<notin> set (text_line u r)"
    by (auto simp: text_fits_def text_line_def format_text_def c_string_no_zero)
qed

section \<open>Properties\<close>

definition demo_array :: "nat \<Rightarrow> byte list \<Rightarrow> byte list" where
  "demo_array n xs = xs @ replicate (n - length xs) 0"

definition demo_record :: log_record where
  "demo_record =
     \<lparr>rec_ts = mk_stamp 951782400000000, rec_type = lt_info, rec_line = 7, rec_tid = 1, rec_tag = demo_array 32 [65],
      rec_file = demo_array 256 [66], rec_function = demo_array 256 [67], rec_message = demo_array 2048 [72, 105]\<rparr>"

lemma demo_array_ok: "length xs < n \<Longrightarrow> c_array n (demo_array n xs)"
  by (simp add: demo_array_def c_array_def)

lemma demo_record_ok: "record_ok demo_record"
  unfolding record_ok_def demo_record_def log_record.simps
  by (intro conjI demo_array_ok) (simp_all add: mk_stamp_def to_i64_def)

lemma record_ok_target: "record_ok r \<Longrightarrow> record_target r"
  by (simp add: record_ok_def record_target_def c_array_def)

text \<open>
  C37. A log record survives the network format: \<open>serialize_formatter\<close> puts a record with terminated texts
  into a cleared buffer, whatever block it had, and \<open>operator>>\<close> on that buffer gives a record with the same
  time, type, line, thread and texts, for any contents of the record read into and of the uninitialised
  local variables, and leaves the buffer empty.
\<close>

theorem record_round_trip:
  assumes "manager_inv m" and "bb_ok m b" and "bb_pos b = position_ctor" and "record_ok r"
    and "record_target r0" and "length tick0 = 8" and "length len0 = 2"
  shows "\<exists>m' b' r' b''. serialize_format r m b = Some (m', b') \<and> manager_inv m' \<and>
           record_get tick0 len0 r0 m' b' = Some (r', b'') \<and> same_record r r' \<and> record_ok r' \<and>
           contents m' b'' = []"
proof -
  obtain m' b' q qs where f: "serialize_format r m b = Some (m', b')"
      "formatted (record_bytes r) m b m' b' q qs"
    using sf.format_law [OF assms(1-4)] by blast
  then have v: "manager_inv m'" "bb_view m' b' q qs" "contents m' b' = record_bytes r @ []"
    by (simp_all add: formatted_def)
  from record_get_reads [OF v assms(4-7)] f(1) v(1) show ?thesis by blast
qed

theorem record_round_trip_witness:
  "\<exists>m' b' r' b''. serialize_format demo_record demo_manager bb_ctor = Some (m', b') \<and>
     record_get (replicate 8 1) [2, 3] demo_record m' b' = Some (r', b'') \<and> rec_line r' = 7"
proof -
  have "bb_ok demo_manager bb_ctor" "bb_pos bb_ctor = position_ctor" by (simp_all add: bb_ok_def bb_ctor_def)
  from record_round_trip [OF demo_inv this demo_record_ok record_ok_target [OF demo_record_ok],
      of "replicate 8 1" "[2, 3]"]
  obtain m' b' r' b'' where "serialize_format demo_record demo_manager bb_ctor = Some (m', b')"
      "record_get (replicate 8 1) [2, 3] demo_record m' b' = Some (r', b'')" "same_record demo_record r'"
    by auto
  then show ?thesis by (auto simp: same_record_def demo_record_def)
qed

text \<open>
  \<open>operator>>\<close> trusts the length in the buffer: with any length from the size of the array on, it writes
  outside the array.
\<close>

theorem record_get_overrun:
  assumes inv: "manager_inv m" and v: "bb_view m b p bs" and c: "contents m b = le_bytes 2 n @ xs"
    and n: "length arr \<le> n" "n < 2 ^ 16" and len0: "length len0 = 2"
  shows "get_text len0 arr m b = None"
proof -
  obtain b1 where r: "get_obj 2 len0 m b = Some (le_bytes 2 n, b1)" "bb_view m b1 p bs"
    using get_obj_reads [OF inv v c length_le_bytes len0] by blast
  have "to_i16 (int n) = (if n < 2 ^ 15 then int n else int n - 2 ^ 16)"
  proof (cases "n < 2 ^ 15")
    case False
    then have "(int n + 2 ^ 15) mod 2 ^ 16 = int n + 2 ^ 15 - 2 ^ 16"
      using n(2) by (subst mod_pos_geq) simp_all
    with False show ?thesis by (simp add: to_i16_def)
  qed (simp add: to_i16_id)
  then have "to_i16 (int n) < 0 \<or> int (length arr) \<le> to_i16 (int n)" using n by auto
  moreover have "le_val (le_bytes 2 n) = n" using n(2) by (simp add: le_val_le_bytes)
  ultimately show ?thesis using r by (auto simp: get_text_def Let_def bb_read_view [OF inv r(2)])
qed

end
