(* ===== verification/Big_Integer.thy ===== *)
theory Big_Integer
  imports Log_Record
begin

unbundle bit_operations_syntax

text \<open>
  The big integers of the former version, \<open>old/common/big_integer.cpp\<close>. A number is a vector of bytes in two's
  complement, the least significant byte first; the model keeps the bytes as words of 8 bits, so that every
  wrap-around of the source is one of the model. \<open>big_val\<close> is the number a vector means. The text shows which
  operations compute with these numbers and where the representation loses the sign: a sum that runs over the last byte,
  a product with zero, a number multiplied by itself, a logical operation with a shorter operand.
\<close>

section \<open>The program\<close>

type_synonym big_integer = "byte list"

text \<open>The constants of \<open>big_integer.cpp\<close>.\<close>

definition kBits :: nat where "kBits = 8"
definition kMask :: byte where "kMask = 0xff"
definition kDDabbleBase :: byte where "kDDabbleBase = 50"
definition KDDabbleAdd :: byte where "KDDabbleAdd = 78"

subsection \<open>Size and sign\<close>

fun valid_from :: "nat \<Rightarrow> big_integer \<Rightarrow> nat" where
  "valid_from 0 d = 0"
| "valid_from (Suc idx) d = (if d ! idx \<noteq> 0 then Suc idx else valid_from idx d)"

definition valid_size :: "big_integer \<Rightarrow> nat" where
  "valid_size d = valid_from (length d) d"

definition big_sign :: "big_integer \<Rightarrow> int" where
  "big_sign d =
     (if valid_size d = 0 then 0
      else if drop_bit (kBits - 1) (last d) \<noteq> 0 then - 1
      else 1)"

subsection \<open>Construction\<close>

text \<open>The constructor of a 32 bit \<open>int\<close>: four times the low byte, shifting with the sign.\<close>

fun int_bytes :: "nat \<Rightarrow> 32 word \<Rightarrow> big_integer" where
  "int_bytes 0 value = []"
| "int_bytes (Suc n) value = ucast (value AND 0xff) # int_bytes n (signed_drop_bit kBits value)"

definition big_of_int :: "32 word \<Rightarrow> big_integer" where
  "big_of_int value = int_bytes 4 value"

definition big_reserve :: "nat \<Rightarrow> big_integer" where
  "big_reserve count = replicate count 0"

fun drop_zeros :: "byte list \<Rightarrow> byte list" where
  "drop_zeros [] = []"
| "drop_zeros (x # xs) = (if x = 0 then drop_zeros xs else x # xs)"

definition shrink_to_fit :: "big_integer \<Rightarrow> big_integer" where
  "shrink_to_fit d =
     (let is_sign = big_sign d;
          d = rev (drop_zeros (rev d))
      in if is_sign > 0 \<and> last d > kMask div 2 then d @ [0] else d)"

subsection \<open>Shifts\<close>

text \<open>The loops run in place, upwards for a shift to the right and downwards for a shift to the left.\<close>

definition shr_step :: "nat \<Rightarrow> nat \<Rightarrow> nat \<Rightarrow> big_integer \<Rightarrow> big_integer" where
  "shr_step srcoffset shift i d =
     (let temp = d ! (i + srcoffset);
          d = d[i - 1 := d ! (i - 1) OR push_bit (kBits - shift) temp]
      in d[i := drop_bit shift temp])"

definition big_shr :: "nat \<Rightarrow> big_integer \<Rightarrow> big_integer" where
  "big_shr shift d =
     (let srcoffset = shift div kBits; count = length d
      in if srcoffset \<ge> count then fold (\<lambda>i d. d[i := 0]) [0..<count] d
         else let shift = shift mod kBits;
                  d = d[0 := drop_bit shift (d ! srcoffset)];
                  d = fold (shr_step srcoffset shift) [1..<count - srcoffset] d
              in fold (\<lambda>i d. d[i := 0]) [count - srcoffset..<count] d)"

definition shl_step :: "nat \<Rightarrow> nat \<Rightarrow> nat \<Rightarrow> big_integer \<Rightarrow> big_integer" where
  "shl_step srcoffset shift i d =
     (let temp = d ! (i - srcoffset);
          d = d[i + 1 := d ! (i + 1) OR drop_bit (kBits - shift) temp]
      in d[i := push_bit shift temp])"

definition big_shl :: "nat \<Rightarrow> big_integer \<Rightarrow> big_integer" where
  "big_shl shift d =
     (let srcoffset = shift div kBits; dst = length d - 1
      in if length d \<le> srcoffset then fold (\<lambda>i d. d[i := 0]) [0..<length d] d
         else let shift = shift mod kBits;
                  d = d[dst := push_bit shift (d ! (dst - srcoffset))];
                  d = fold (shl_step srcoffset shift) (rev [srcoffset..<dst]) d
              in fold (\<lambda>i d. d[i := 0]) [0..<srcoffset] d)"

subsection \<open>Logical operations\<close>

definition big_or_val :: "byte \<Rightarrow> big_integer \<Rightarrow> big_integer" where
  "big_or_val val d = (if length d = 0 then d else d[0 := d ! 0 OR val])"

definition big_and_val :: "byte \<Rightarrow> big_integer \<Rightarrow> big_integer" where
  "big_and_val val d = (if length d = 0 then d else d[0 := d ! 0 AND val])"

definition big_xor_val :: "byte \<Rightarrow> big_integer \<Rightarrow> big_integer" where
  "big_xor_val val d = (if length d = 0 then d else d[0 := d ! 0 XOR val])"

text \<open>Sign bytes for a vector that is shorter than the other operand.\<close>

definition sign_byte :: "big_integer \<Rightarrow> byte" where
  "sign_byte d = (if big_sign d < 0 then kMask else 0)"

definition pad_to :: "nat \<Rightarrow> big_integer \<Rightarrow> big_integer" where
  "pad_to n d = d @ replicate (n - length d) (sign_byte d)"

definition big_or :: "big_integer \<Rightarrow> big_integer \<Rightarrow> big_integer" where
  "big_or bi d = fold (\<lambda>i d. d[i := d ! i OR bi ! i]) [0..<length bi] (pad_to (length bi) d)"

definition big_and :: "big_integer \<Rightarrow> big_integer \<Rightarrow> big_integer" where
  "big_and bi d = fold (\<lambda>i d. d[i := d ! i AND bi ! i]) [0..<length bi] (pad_to (length bi) d)"

definition big_xor :: "big_integer \<Rightarrow> big_integer \<Rightarrow> big_integer" where
  "big_xor bi d = fold (\<lambda>i d. d[i := d ! i XOR bi ! i]) [0..<length bi] (pad_to (length bi) d)"

definition big_not :: "big_integer \<Rightarrow> big_integer" where
  "big_not d = map NOT d"

subsection \<open>Addition and subtraction\<close>

text \<open>Adding a byte at a position: the loop stops where nothing is carried any more.\<close>

fun add_from :: "byte \<Rightarrow> byte list \<Rightarrow> byte list \<times> byte" where
  "add_from val [] = ([], val)"
| "add_from val (x # xs) =
     (let x = x + val; val = (if x < val then 1 else 0)
      in if val = 0 then (x # xs, 0)
         else let (xs, val) = add_from val xs in (x # xs, val))"

definition big_add_at :: "byte \<Rightarrow> nat \<Rightarrow> big_integer \<Rightarrow> big_integer" where
  "big_add_at val idx d =
     (let neg = big_sign d < 0;
          d = d @ replicate (Suc idx - length d) (if neg then kMask else 0);
          (xs, val) = add_from val (drop idx d);
          d = take idx d @ xs;
          d = (if \<not> neg \<and> val \<noteq> 0 then d @ [val] else d)
      in if \<not> neg \<and> big_sign d < 0 then d @ [0] else d)"

definition big_add_val :: "byte \<Rightarrow> big_integer \<Rightarrow> big_integer" where
  "big_add_val val d = big_add_at val 0 d"

definition twos_complement :: "big_integer \<Rightarrow> big_integer" where
  "twos_complement d = big_add_val 1 (big_not d)"

text \<open>
  The loop of \<open>add\<close> and of \<open>sub\<close>: one byte of this number, one of the other or its sign byte, and the carry. In
  \<open>sub\<close> the other number's bytes are complemented and the first carry is set.
\<close>

fun add_loop :: "byte \<Rightarrow> bool \<Rightarrow> byte list \<Rightarrow> byte list \<Rightarrow> byte list \<times> bool" where
  "add_loop bv carry bs [] = ([], carry)"
| "add_loop bv carry bs (x # xs) =
     (let v = (case bs of [] \<Rightarrow> bv | b # bs' \<Rightarrow> b);
          x = x + v;
          (x, carry) =
            (if carry
             then let carry = (if x \<ge> v then False else carry);
                      carry = (if x = kMask then True else carry)
                  in (x + 1, carry)
             else (x, if x < v then True else carry));
          (xs, carry) = add_loop bv carry (tl bs) xs
      in (x # xs, carry))"

definition big_add :: "big_integer \<Rightarrow> big_integer \<Rightarrow> big_integer" where
  "big_add bi d =
     (let tv = sign_byte d; bv = sign_byte bi; neg = tv \<noteq> 0 \<or> bv \<noteq> 0;
          (d, carry) = add_loop bv False bi (pad_to (length bi) d)
      in if carry \<and> \<not> neg then d @ [1] else d)"

definition big_sub :: "big_integer \<Rightarrow> big_integer \<Rightarrow> big_integer" where
  "big_sub bi d = fst (add_loop (NOT (sign_byte bi)) True (map NOT bi) (pad_to (length bi) d))"

subsection \<open>Multiplication\<close>

definition mul_step :: "byte \<Rightarrow> byte \<Rightarrow> nat \<Rightarrow> big_integer \<Rightarrow> big_integer" where
  "mul_step x y k vv =
     (let value = ucast x * ucast y :: 16 word;
          vv = big_add_at (ucast (value AND 0xff)) k vv
      in big_add_at (ucast (drop_bit kBits value)) (k + 1) vv)"

definition big_mul_val :: "byte \<Rightarrow> big_integer \<Rightarrow> big_integer" where
  "big_mul_val val d = fold (\<lambda>i. mul_step (d ! i) val i) [0..<valid_size d] []"

definition mul_bytes :: "big_integer \<Rightarrow> big_integer \<Rightarrow> big_integer" where
  "mul_bytes d bi =
     fold (\<lambda>i. fold (\<lambda>j. mul_step (d ! i) (bi ! j) (i + j)) [0..<valid_size bi]) [0..<valid_size d] []"

text \<open>\<open>mul\<close> of two different objects: this number's new value and the other's, which it negates and restores.\<close>

definition big_mul :: "big_integer \<Rightarrow> big_integer \<Rightarrow> big_integer \<times> big_integer" where
  "big_mul bi d =
     (let this_neg = big_sign d < 0;
          d = (if this_neg then twos_complement d else d);
          bi_neg = big_sign bi < 0;
          bi = (if bi_neg then twos_complement bi else bi);
          vv = mul_bytes d bi;
          bi = (if bi_neg then twos_complement bi else bi)
      in (if this_neg \<noteq> bi_neg then twos_complement vv else vv, bi))"

text \<open>\<open>x.mul(x)\<close>: both references are the same object.\<close>

definition big_mul_self :: "big_integer \<Rightarrow> big_integer" where
  "big_mul_self d =
     (let this_neg = big_sign d < 0;
          d = (if this_neg then twos_complement d else d);
          bi_neg = big_sign d < 0;
          d = (if bi_neg then twos_complement d else d);
          vv = mul_bytes d d;
          d = (if bi_neg then twos_complement d else d)
      in if this_neg \<noteq> bi_neg then twos_complement vv else vv)"

subsection \<open>Output\<close>

text \<open>One bit of the double dabble: correct the digits, shift, bring the bit in.\<close>

definition dabble_bit :: "bool \<Rightarrow> big_integer \<Rightarrow> big_integer" where
  "dabble_bit b print =
     (let print = map (\<lambda>x. if x \<ge> kDDabbleBase then x + KDDabbleAdd else x) print;
          print = big_shl 1 print
      in if b then big_or_val 1 print else print)"

definition dabble_byte :: "byte \<Rightarrow> big_integer \<Rightarrow> big_integer" where
  "dabble_byte x print = fold (\<lambda>k. dabble_bit (bit x k)) (rev [0..<kBits]) print"

fun print_digits :: "byte list \<Rightarrow> bool \<Rightarrow> string \<Rightarrow> string" where
  "print_digits [] start val = val"
| "print_digits (x # xs) start val =
     (let start = (if x \<noteq> 0 then True else start)
      in if start
         then let vv = digits (unat x);
                  vv = (if length vv \<noteq> 2 \<and> length val \<noteq> 0 then ''0'' @ vv else vv)
              in print_digits xs start (val @ vv)
         else print_digits xs start val)"

definition big_to_string :: "big_integer \<Rightarrow> string \<times> big_integer" where
  "big_to_string d =
     (let is_neg = big_sign d < 0;
          d = (if is_neg then twos_complement d else d);
          print = fold dabble_byte (rev d) (big_reserve (length d * 2));
          val = print_digits (rev print) False []
      in if is_neg then (''-'' @ val, twos_complement d) else (val, d))"

text \<open>The low bytes as a machine integer; the index is read before the vector is known to be long enough.\<close>

fun low_loop :: "nat \<Rightarrow> big_integer \<Rightarrow> ('a :: len) word \<Rightarrow> 'a word option" where
  "low_loop 0 d value = Some value"
| "low_loop (Suc idx) d value =
     (if idx < length d then low_loop idx d (push_bit kBits value OR ucast (d ! idx)) else None)"

definition get_low_uint64_value :: "big_integer \<Rightarrow> 64 word option" where
  "get_low_uint64_value d = low_loop (Suc (min 8 (size_sub (length d) 1))) d 0"

definition get_low_uint32_value :: "big_integer \<Rightarrow> 32 word option" where
  "get_low_uint32_value d = low_loop (Suc (min 4 (size_sub (length d) 1))) d 0"

section \<open>What a vector means\<close>

definition is_neg :: "big_integer \<Rightarrow> bool" where
  "is_neg d \<longleftrightarrow> d \<noteq> [] \<and> bit (last d) 7"

definition big_val :: "big_integer \<Rightarrow> int" where
  "big_val d = int (le_val d) - (if is_neg d then 256 ^ length d else 0)"


text \<open>A number cut to \<open>n\<close> bytes, as a two's complement number.\<close>

definition wrap_bytes :: "nat \<Rightarrow> int \<Rightarrow> int" where
  "wrap_bytes n v = (v + 256 ^ n div 2) mod 256 ^ n - 256 ^ n div 2"

subsection \<open>Bytes\<close>

lemma unat_byte_less: "unat (x :: byte) < 256"
  using unsigned_less [of x] by simp

lemma le_val_append: "le_val (xs @ ys) = le_val xs + 256 ^ length xs * le_val ys"
  by (induction xs) (simp_all add: algebra_simps)

lemma le_val_zeros [simp]: "le_val (replicate n 0) = 0"
  by (induction n) simp_all

lemma le_val_ones: "le_val (replicate n 0xff) + 1 = 256 ^ n"
  by (induction n) simp_all

lemma le_val_not: "le_val (map NOT xs) + le_val xs + 1 = 256 ^ length xs"
proof (induction xs)
  case (Cons x xs)
  have "unat (NOT x) + unat x = 255"
  proof -
    have "x + NOT x = - 1" by (simp add: not_eq_complement)
    then have "unat (x + NOT x) = 255" by (simp only: unsigned_minus_1_eq_mask mask_eq_exp_minus_1) simp
    then have "unat x + unat (NOT x) = 255 \<or> unat x + unat (NOT x) = 511" unfolding unat_plus_if' by (auto split: if_splits)
    then show ?thesis using unat_byte_less [of x] unat_byte_less [of "NOT x"] by linarith
  qed
  then show ?case using Cons by simp
qed simp

lemma top_bit: "bit (x :: byte) 7 \<longleftrightarrow> 128 \<le> unat x"
proof -
  have "bit x 7 \<longleftrightarrow> bit (unat x) 7" by (simp only: bit_unsigned_iff possible_bit_def) simp
  also have "\<dots> \<longleftrightarrow> odd (unat x div 128)" by (simp only: bit_iff_odd) simp
  finally have "bit x 7 \<longleftrightarrow> odd (unat x div 128)" .
  moreover have "unat x div 128 < 2" using unat_byte_less [of x] by (simp add: less_mult_imp_div_less)
  ultimately show ?thesis by (auto simp: less_2_cases_iff)
qed

lemma is_neg_iff: "is_neg d \<longleftrightarrow> d \<noteq> [] \<and> 256 ^ length d \<le> 2 * le_val d"
proof (cases d rule: rev_cases)
  case (snoc xs x)
  have b: "le_val xs < 256 ^ length xs" by (rule le_val_less)
  have "256 ^ length xs * 256 \<le> 2 * (le_val xs + 256 ^ length xs * unat x) \<longleftrightarrow> 128 \<le> unat x"
  proof
    assume "128 \<le> unat x"
    then have "2 * (256 ^ length xs * 128) \<le> 2 * (256 ^ length xs * unat x)" by (intro mult_le_mono2)
    moreover have "2 * (256 ^ length xs * 128) = 256 ^ length xs * (256 :: nat)" by simp
    ultimately show "256 ^ length xs * 256 \<le> 2 * (le_val xs + 256 ^ length xs * unat x)" unfolding distrib_left by linarith
  next
    assume a: "256 ^ length xs * 256 \<le> 2 * (le_val xs + 256 ^ length xs * unat x)"
    show "128 \<le> unat x"
    proof (rule ccontr)
      assume "\<not> 128 \<le> unat x"
      then have "256 ^ length xs * Suc (unat x) \<le> 256 ^ length xs * 128" by (intro mult_le_mono2) simp
      then have "256 ^ length xs + 256 ^ length xs * unat x \<le> 256 ^ length xs * 128" by (simp only: mult_Suc_right)
      then show False using a b unfolding distrib_left by linarith
    qed
  qed
  then show ?thesis using snoc by (simp add: is_neg_def top_bit le_val_append mult.commute)
qed (simp add: is_neg_def)

lemma is_neg_Nil [simp]: "\<not> is_neg []"
  by (simp add: is_neg_def)

lemma big_val_Nil [simp]: "big_val [] = 0"
  by (simp add: big_val_def)

lemma big_val_nonneg: "\<not> is_neg d \<Longrightarrow> big_val d = int (le_val d)"
  by (simp add: big_val_def)

lemma big_val_neg_iff: "big_val d < 0 \<longleftrightarrow> is_neg d"
  using le_val_less [of d] by (simp add: big_val_def)

lemma big_val_range: "- (256 ^ length d) \<le> 2 * big_val d" "2 * big_val d < 256 ^ length d"
proof -
  have b: "int (le_val d) < 256 ^ length d"
    using le_val_less [of d] by (metis of_nat_less_iff of_nat_numeral of_nat_power)
  have n: "is_neg d \<longleftrightarrow> d \<noteq> [] \<and> 256 ^ length d \<le> 2 * int (le_val d)"
    unfolding is_neg_iff by (metis of_nat_le_iff of_nat_mult of_nat_numeral of_nat_power)
  have v: "big_val d = int (le_val d) - 256 ^ length d" if "is_neg d" using that by (simp add: big_val_def)
  have w: "2 * int (le_val d) < 256 ^ length d" if "\<not> is_neg d" using that n by (cases "d = []") auto
  have p: "(0 :: int) < 256 ^ length d" by simp
  show "- (256 ^ length d) \<le> 2 * big_val d" using v n p big_val_nonneg [of d] by linarith
  show "2 * big_val d < 256 ^ length d" using v w b p big_val_nonneg [of d] by linarith
qed

lemma big_val_mod: "big_val d mod 256 ^ length d = int (le_val d)"
proof -
  have "int (le_val d) < 256 ^ length d"
    using le_val_less [of d] by (metis of_nat_less_iff of_nat_numeral of_nat_power)
  then show ?thesis by (simp add: big_val_def)
qed

text \<open>The number is the only one in range with the right remainder.\<close>

lemma wrap_unique:
  assumes "- (256 ^ n) \<le> 2 * v" and "2 * v < 256 ^ n" and "v mod 256 ^ n = w mod 256 ^ n"
  shows "v = wrap_bytes n w"
proof (cases "n = 0")
  case True
  then show ?thesis using assms by (simp add: wrap_bytes_def)
next
  case False
  then obtain m where m: "n = Suc m" by (cases n) auto
  let ?h = "256 ^ n div 2 :: int"
  have e: "256 ^ n = 2 * ?h" unfolding m by simp
  have "(w + ?h) mod 256 ^ n = (v + ?h) mod 256 ^ n" using assms(3) by (metis mod_add_left_eq)
  also have "\<dots> = v + ?h" using assms(1,2) e by (intro mod_pos_pos_trivial) linarith+
  finally show ?thesis by (simp add: wrap_bytes_def)
qed

lemma wrap_bytes_id: "- (256 ^ n) \<le> 2 * v \<Longrightarrow> 2 * v < 256 ^ n \<Longrightarrow> wrap_bytes n v = v"
  using wrap_unique [of n v v] by simp

lemma big_val_wrap: "int (le_val d) mod 256 ^ length d = w mod 256 ^ length d \<Longrightarrow> big_val d = wrap_bytes (length d) w"
  by (rule wrap_unique [OF big_val_range]) (metis big_val_mod mod_mod_trivial)

subsection \<open>Size and sign\<close>

lemma valid_from_le: "valid_from n d \<le> n"
  by (induction n) (auto intro: le_SucI)

lemma valid_from_zero: "valid_from n d \<le> i \<Longrightarrow> i < n \<Longrightarrow> d ! i = 0"
  by (induction n) (auto simp: less_Suc_eq split: if_splits)

lemma le_val_take_valid: "n \<le> length d \<Longrightarrow> le_val (take (valid_from n d) d) = le_val (take n d)"
proof (induction n)
  case (Suc n)
  then show ?case by (simp add: take_Suc_conv_app_nth le_val_append)
qed simp

lemma le_val_valid: "le_val (take (valid_size d) d) = le_val d"
  using le_val_take_valid [of "length d" d] by (simp add: valid_size_def)

lemma valid_size_le: "valid_size d \<le> length d"
  by (simp add: valid_size_def valid_from_le)

lemma valid_from_0_iff: "n \<le> length d \<Longrightarrow> valid_from n d = 0 \<longleftrightarrow> le_val (take n d) = 0"
  by (induction n) (auto simp: take_Suc_conv_app_nth le_val_append unat_eq_zero)

lemma valid_size_0_iff: "valid_size d = 0 \<longleftrightarrow> le_val d = 0"
  using valid_from_0_iff [of "length d" d] by (simp add: valid_size_def)

lemma sign_bit: "drop_bit (kBits - Suc 0) (x :: byte) \<noteq> 0 \<longleftrightarrow> bit x 7"
proof -
  have u: "unat (drop_bit 7 x) = unat x div 128"
    by (simp only: drop_bit_eq_div unat_div) simp
  have "drop_bit 7 x = 0 \<longleftrightarrow> unat (drop_bit 7 x) = 0" by (rule unat_eq_zero [symmetric])
  also have "\<dots> \<longleftrightarrow> unat x < 128" unfolding u by (rule div_eq_0_iff [THEN trans]) simp
  finally show ?thesis by (simp add: kBits_def top_bit not_less)
qed

lemma is_neg_val: "is_neg d \<Longrightarrow> 0 < le_val d"
  by (rule ccontr) (simp add: is_neg_iff)

lemma sign_neg [simp]: "big_sign d < 0 \<longleftrightarrow> is_neg d"
proof (cases "le_val d = 0")
  case True
  then show ?thesis using is_neg_val [of d] by (auto simp: big_sign_def valid_size_0_iff)
next
  case False
  then have "d \<noteq> []" by auto
  then show ?thesis using False by (simp add: big_sign_def valid_size_0_iff sign_bit is_neg_def)
qed

lemma sign_val: "big_sign d = sgn (big_val d)"
proof (cases "le_val d = 0")
  case True
  then show ?thesis by (auto simp: big_sign_def valid_size_0_iff big_val_def is_neg_iff)
next
  case False
  then have "d \<noteq> []" by auto
  then have "big_sign d = (if is_neg d then - 1 else 1)" using False by (simp add: big_sign_def valid_size_0_iff sign_bit is_neg_def)
  then show ?thesis using False big_val_neg_iff [of d] big_val_nonneg [of d] by (auto simp: sgn_if)
qed


subsection \<open>Addition and subtraction\<close>

lemma add_from_spec:
  "add_from v xs = (ys, c) \<Longrightarrow> length ys = length xs \<and> le_val ys + unat c * 256 ^ length xs = le_val xs + unat v"
proof (induction xs arbitrary: v ys c)
  case (Cons x xs)
  have s: "unat (x + v) + (if x + v < v then 256 else 0) = unat x + unat v"
    using unat_byte_less [of x] unat_byte_less [of v] unfolding word_less_nat_alt unat_plus_if' by auto
  show ?case
  proof (cases "x + v < v")
    case False
    then show ?thesis using Cons.prems s by auto
  next
    case True
    obtain zs where z: "add_from 1 xs = (zs, c)" "ys = (x + v) # zs"
      using Cons.prems True by (auto simp: Let_def split: prod.splits)
    from Cons.IH [OF z(1)] show ?thesis using z(2) True s by (simp add: algebra_simps)
  qed
qed simp

text \<open>The bytes of the other number, as the loop reads them.\<close>

definition operand :: "byte \<Rightarrow> byte list \<Rightarrow> nat \<Rightarrow> byte list" where
  "operand bv bs n = map (\<lambda>i. if i < length bs then bs ! i else bv) [0..<n]"

lemma operand_Suc: "operand bv bs (Suc n) = (case bs of [] \<Rightarrow> bv | b # bs' \<Rightarrow> b) # operand bv (tl bs) n"
  by (cases bs) (auto simp: operand_def upt_conv_Cons map_Suc_upt [symmetric] comp_def simp del: upt_Suc)

lemma carry_step:
  assumes "x = x0 + (v :: byte)"
  shows "unat (if c then x + 1 else x) + (if (if c then x < v \<or> x = 255 else x < v) then 256 else 0) = unat x0 + unat v + of_bool c"
proof -
  have s: "unat x + (if x < v then 256 else 0) = unat x0 + unat v"
    using unat_byte_less [of x0] unat_byte_less [of v] unfolding assms word_less_nat_alt unat_plus_if' by auto
  have o: "x = 255 \<longleftrightarrow> unat x = 255" by (simp add: word_unat_eq_iff)
  have i: "unat (x + 1) = (if x = 255 then 0 else unat x + 1)"
    using unat_byte_less [of x] unfolding o unat_plus_if' by auto
  have "\<not> x < v" if "x = 255"
    using that unat_byte_less [of v] unfolding word_less_nat_alt o by linarith
  then show ?thesis using s i o by auto
qed

lemma add_loop_spec:
  "add_loop bv c bs xs = (ys, c') \<Longrightarrow> length ys = length xs \<and>
     le_val ys + of_bool c' * 256 ^ length xs = le_val xs + le_val (operand bv bs (length xs)) + of_bool c"
proof (induction xs arbitrary: c bs ys)
  case (Cons x0 xs)
  define v where "v = (case bs of [] \<Rightarrow> bv | b # bs' \<Rightarrow> b)"
  define x where "x = x0 + v"
  define c1 where "c1 = (if c then x < v \<or> x = 255 else x < v)"
  obtain zs where z: "add_loop bv c1 (tl bs) xs = (zs, c')" "ys = (if c then x + 1 else x) # zs"
    using Cons.prems unfolding x_def v_def c1_def
    by (auto simp: Let_def kMask_def not_less [symmetric] split: prod.splits if_splits)
  have "unat (if c then x + 1 else x) + (if c1 then 256 else 0) = unat x0 + unat v + of_bool c"
    unfolding c1_def by (rule carry_step) (rule x_def)
  then show ?case
    using Cons.IH [OF z(1)] z(2) by (cases c1) (simp_all add: operand_Suc v_def algebra_simps)
qed (simp add: operand_def)


lemma operand_self: "operand (sign_byte d) d n = take n (pad_to n d)"
  by (intro nth_equalityI) (auto simp: operand_def pad_to_def nth_append)

lemma operand_not: "operand (NOT v) (map NOT bs) n = map NOT (operand v bs n)"
  by (simp add: operand_def)

lemma length_pad_to [simp]: "length (pad_to n d) = max n (length d)"
  by (simp add: pad_to_def)

lemma sign_byte_neg: "sign_byte d = (if is_neg d then 255 else 0)"
  by (simp add: sign_byte_def kMask_def)

lemma le_val_pad: "int (le_val (pad_to n d)) = (if is_neg d then big_val d + 256 ^ max n (length d) else big_val d)"
proof (cases "is_neg d")
  case True
  have "256 ^ length d * (256 ^ (n - length d) :: int) = 256 ^ max n (length d)"
    by (simp add: power_add [symmetric] max_def)
  moreover have "int (le_val (replicate (n - length d) (255 :: byte))) = 256 ^ (n - length d) - 1"
    using arg_cong [OF le_val_ones [of "n - length d"], of int] by simp
  ultimately have "256 ^ length d * (1 + int (le_val (replicate (n - length d) (255 :: byte)))) = 256 ^ max n (length d)"
    by simp
  then show ?thesis using True by (simp add: pad_to_def sign_byte_neg le_val_append big_val_def distrib_left)
next
  case False
  then show ?thesis by (simp add: pad_to_def sign_byte_neg le_val_append big_val_def)
qed

lemma le_val_pad_mod: "int (le_val (pad_to n d)) mod 256 ^ max n (length d) = big_val d mod 256 ^ max n (length d)"
  by (simp add: le_val_pad)

lemma big_val_pad: "big_val (pad_to n d) = big_val d"
proof -
  have le: "(256 :: int) ^ length d \<le> 256 ^ max n (length d)" by (rule power_increasing) simp_all
  have "big_val (pad_to n d) = wrap_bytes (length (pad_to n d)) (big_val d)"
    by (rule big_val_wrap) (simp add: le_val_pad_mod)
  also have "\<dots> = big_val d"
    using big_val_range [of d] le by (intro wrap_bytes_id) (simp_all del: power_increasing_iff)
  finally show ?thesis .
qed

lemma le_val_operand:
  "length bi \<le> n \<Longrightarrow> int (le_val (operand (sign_byte bi) bi n)) mod 256 ^ n = big_val bi mod 256 ^ n"
  using le_val_pad_mod [of n bi] by (simp add: operand_self)

text \<open>Two numbers that are not negative never carry out of the last byte.\<close>

lemma add_no_carry:
  assumes "\<not> is_neg d" and "\<not> is_neg bi" and "length bi \<le> length d"
    and "add_loop 0 False bi d = (ys, c)"
  shows "\<not> c"
proof
  assume "c"
  let ?P = "256 ^ length d :: nat"
  have d: "2 * le_val d < ?P \<or> d = []" using assms(1) by (auto simp: is_neg_iff)
  have "le_val (operand 0 bi (length d)) = le_val bi"
    using operand_self [of bi "length d"] assms(2,3) by (simp add: sign_byte_neg pad_to_def le_val_append)
  moreover have "2 * le_val bi < ?P \<or> bi = []"
  proof -
    have "256 ^ length bi \<le> ?P" using assms(3) by simp
    then have "2 * le_val bi < ?P" if "2 * le_val bi < 256 ^ length bi" using that by linarith
    then show ?thesis using assms(2) unfolding is_neg_iff by (auto simp: not_le)
  qed
  moreover have "le_val ys + ?P = le_val d + le_val (operand 0 bi (length d))"
    using add_loop_spec [OF assms(4)] \<open>c\<close> by simp
  ultimately show False using d by auto
qed

lemma big_add_val_eq: "length (big_add bi d) = max (length bi) (length d) \<and> big_val (big_add bi d) = wrap_bytes (max (length bi) (length d)) (big_val d + big_val bi)"
proof -
  let ?d = "pad_to (length bi) d" and ?n = "max (length bi) (length d)"
  obtain ys c where a: "add_loop (sign_byte bi) False bi ?d = (ys, c)" by fastforce
  have s: "length ys = ?n" "le_val ys + of_bool c * 256 ^ ?n = le_val ?d + le_val (operand (sign_byte bi) bi ?n)"
    using add_loop_spec [OF a] by simp_all
  have "\<not> (c \<and> sign_byte d = 0 \<and> sign_byte bi = 0)"
    using add_no_carry [of ?d bi ys c] a big_val_neg_iff [of ?d] big_val_neg_iff [of d]
    by (auto simp: sign_byte_neg big_val_pad split: if_splits)
  then have e: "big_add bi d = ys" using a by (auto simp: big_add_def Let_def)
  have "int (le_val ys) + of_bool c * 256 ^ ?n = int (le_val ?d) + int (le_val (operand (sign_byte bi) bi ?n))"
    using arg_cong [OF s(2), of int] by simp
  then have "int (le_val ys) mod 256 ^ ?n = (int (le_val ?d) + int (le_val (operand (sign_byte bi) bi ?n))) mod 256 ^ ?n"
    by (metis mod_mult_self2 mult.commute)
  also have "\<dots> = (big_val d + big_val bi) mod 256 ^ ?n"
    using le_val_pad_mod [of "length bi" d] le_val_operand [of bi ?n] by (intro mod_add_cong) simp_all
  finally show ?thesis using big_val_wrap [of ys "big_val d + big_val bi"] s(1) e by simp
qed

lemma big_sub_val_eq: "length (big_sub bi d) = max (length bi) (length d) \<and> big_val (big_sub bi d) = wrap_bytes (max (length bi) (length d)) (big_val d - big_val bi)"
proof -
  let ?d = "pad_to (length bi) d" and ?n = "max (length bi) (length d)" and ?o = "operand (sign_byte bi) bi"
  obtain ys c where a: "add_loop (NOT (sign_byte bi)) True (map NOT bi) ?d = (ys, c)" by fastforce
  have s: "length ys = ?n" "le_val ys + of_bool c * 256 ^ ?n = le_val ?d + le_val (map NOT (?o ?n)) + 1"
    using add_loop_spec [OF a] by (simp_all add: operand_not)
  have "int (le_val (map NOT (?o ?n))) + int (le_val (?o ?n)) + 1 = 256 ^ ?n"
    using arg_cong [OF le_val_not [of "?o ?n"], of int] by (simp add: operand_def)
  moreover have "int (le_val ys) + of_bool c * 256 ^ ?n = int (le_val ?d) + int (le_val (map NOT (?o ?n))) + 1"
    using arg_cong [OF s(2), of int] by simp
  ultimately have "int (le_val ys) + of_bool c * 256 ^ ?n = int (le_val ?d) - int (le_val (?o ?n)) + 256 ^ ?n"
    by linarith
  then have "(int (le_val ys) + of_bool c * 256 ^ ?n) mod 256 ^ ?n = (int (le_val ?d) - int (le_val (?o ?n)) + 256 ^ ?n) mod 256 ^ ?n"
    by (simp only:)
  then have "int (le_val ys) mod 256 ^ ?n = (int (le_val ?d) - int (le_val (?o ?n))) mod 256 ^ ?n"
    by (simp only: mod_mult_self1 mod_add_self2)
  also have "\<dots> = (big_val d - big_val bi) mod 256 ^ ?n"
    using le_val_pad_mod [of "length bi" d] le_val_operand [of bi ?n] by (intro mod_diff_cong) simp_all
  finally show ?thesis using big_val_wrap [of ys "big_val d - big_val bi"] s(1) a by (simp add: big_sub_def)
qed


text \<open>Adding a byte to a number that is not negative is exact, at any position.\<close>

lemma big_add_at_nonneg:
  assumes "\<not> is_neg d"
  shows "\<not> is_neg (big_add_at v k d) \<and> le_val (big_add_at v k d) = le_val d + unat v * 256 ^ k"
proof -
  define e0 where "e0 = d @ replicate (Suc k - length d) 0"
  obtain xs c where a: "add_from v (drop k e0) = (xs, c)" by fastforce
  let ?d1 = "take k e0 @ xs" and ?d2 = "(if c \<noteq> 0 then (take k e0 @ xs) @ [c] else take k e0 @ xs)"
  have l: "k < length e0" by (simp add: e0_def)
  have s: "length xs = length e0 - k" "le_val xs + unat c * 256 ^ (length e0 - k) = le_val (drop k e0) + unat v"
    using add_from_spec [OF a] by simp_all
  have d1: "length ?d1 = length e0" using l s(1) by simp
  have push: "le_val (if c \<noteq> 0 then ys @ [c] else ys) = le_val ys + 256 ^ length ys * unat c" for ys
    by (simp add: le_val_append)
  have "le_val ?d2 = le_val ?d1 + 256 ^ length e0 * unat c" unfolding push d1 ..
  also have "le_val ?d1 = le_val (take k e0) + 256 ^ k * le_val xs"
    using l by (simp add: le_val_append min_def)
  also have "256 ^ length e0 = 256 ^ k * (256 :: nat) ^ (length e0 - k)"
    using l by (metis le_add_diff_inverse less_imp_le_nat power_add)
  finally have "le_val ?d2 = le_val (take k e0) + 256 ^ k * (le_val xs + unat c * 256 ^ (length e0 - k))"
    by (simp only: distrib_left ac_simps)
  also have "\<dots> = le_val (take k e0) + 256 ^ k * le_val (drop k e0) + 256 ^ k * unat v"
    unfolding s(2) by (simp only: distrib_left distrib_right ac_simps)
  also have "le_val (take k e0) + 256 ^ k * le_val (drop k e0) = le_val e0"
    using le_val_append [of "take k e0" "drop k e0"] l by (simp add: min_def)
  also have "le_val e0 = le_val d" by (simp add: e0_def le_val_append)
  finally have v: "le_val ?d2 = le_val d + unat v * 256 ^ k" by (simp only: mult.commute)
  have "big_add_at v k d = (if is_neg ?d2 then ?d2 @ [0] else ?d2)"
    using a assms by (simp add: big_add_at_def Let_def e0_def)
  then show ?thesis using v by (auto simp: le_val_append is_neg_def)
qed

text \<open>Adding a byte to a negative number stays within its bytes.\<close>

lemma big_add_val_neg:
  assumes "is_neg d"
  shows "length (big_add_val v d) = length d \<and> big_val (big_add_val v d) = wrap_bytes (length d) (big_val d + int (unat v))"
proof -
  obtain xs c where a: "add_from v d = (xs, c)" by fastforce
  have s: "length xs = length d" "le_val xs + unat c * 256 ^ length d = le_val d + unat v" using add_from_spec [OF a] by simp_all
  have "d \<noteq> []" using assms by auto
  then have "Suc 0 - length d = 0" by (cases d) simp_all
  then have e: "big_add_val v d = xs" using a assms by (simp add: big_add_val_def big_add_at_def Let_def)
  have "(int (le_val xs) + int (unat c) * 256 ^ length d) mod 256 ^ length d = (int (le_val d) + int (unat v)) mod 256 ^ length d"
    using arg_cong [OF s(2), of int] by simp
  then have "int (le_val xs) mod 256 ^ length d = (int (le_val d) + int (unat v)) mod 256 ^ length d"
    by (simp only: mod_mult_self1)
  also have "\<dots> = (big_val d + int (unat v)) mod 256 ^ length d" using assms by (simp add: big_val_def diff_add_eq)
  finally show ?thesis using big_val_wrap [of xs "big_val d + int (unat v)"] s(1) e by simp
qed

lemma big_not_val: "d \<noteq> [] \<Longrightarrow> big_val (big_not d) = - big_val d - 1"
proof -
  assume d: "d \<noteq> []"
  have "int (le_val (big_not d)) = 256 ^ length d - 1 - int (le_val d)"
    using arg_cong [OF le_val_not [of d], of int] by (simp add: big_not_def)
  moreover have "is_neg (big_not d) \<longleftrightarrow> \<not> is_neg d"
    using d by (simp add: is_neg_def big_not_def last_map bit_not_iff)
  ultimately show ?thesis by (simp add: big_val_def big_not_def)
qed

lemma twos_complement_val: "d \<noteq> [] \<Longrightarrow> big_val (twos_complement d) = - big_val d"
proof (cases "is_neg (big_not d)")
  case True
  assume d: "d \<noteq> []"
  have n: "\<not> is_neg d" using True big_not_val [OF d] big_val_neg_iff [of d] big_val_neg_iff [of "big_not d"] by linarith
  have "big_val (twos_complement d) = wrap_bytes (length d) (- big_val d)"
    using big_add_val_neg [OF True, of 1] big_not_val [OF d] by (simp add: twos_complement_def big_not_def)
  also have "\<dots> = - big_val d"
    using big_val_range [of d] big_val_neg_iff [of d] n by (intro wrap_bytes_id) linarith+
  finally show ?thesis .
next
  case False
  assume d: "d \<noteq> []"
  show ?thesis
    using big_add_at_nonneg [OF False, of 1 0] big_val_nonneg [OF False] big_not_val [OF d]
    by (simp add: twos_complement_def big_add_val_def big_val_nonneg)
qed

lemma twos_complement_Nil: "twos_complement [] = [1]"
  by (simp add: twos_complement_def big_not_def big_add_val_def big_add_at_def big_sign_def valid_size_def kBits_def
      drop_bit_Suc numeral_2_eq_2 Let_def)


subsection \<open>Multiplication\<close>

lemma mul_step_val:
  assumes "\<not> is_neg vv"
  shows "\<not> is_neg (mul_step x y k vv) \<and> le_val (mul_step x y k vv) = le_val vv + unat x * unat y * 256 ^ k"
proof -
  let ?w = "ucast x * ucast y :: 16 word"
  have "unat x * unat y \<le> 255 * 255" using unat_byte_less [of x] unat_byte_less [of y] by (intro mult_mono) simp_all
  moreover have u: "unat (ucast z :: 16 word) = unat z" for z :: byte using unat_byte_less [of z] by (simp add: unsigned_ucast_eq take_bit_eq_mod)
  ultimately have "unat (ucast x :: 16 word) * unat (ucast y :: 16 word) < 2 ^ LENGTH(16)" by simp
  then have w: "unat ?w = unat x * unat y" unfolding u [symmetric] by (rule unat_mult_lem [THEN iffD1])
  have lo: "unat (ucast (?w AND 0xff) :: byte) = unat ?w mod 256"
  proof -
    have "n AND 255 = n mod 256" for n :: nat
      using take_bit_eq_mask [of 8 n] by (simp add: take_bit_eq_mod mask_eq_exp_minus_1)
    then show ?thesis by (simp add: unsigned_ucast_eq take_bit_eq_mod unsigned_and_eq)
  qed
  have hi: "unat (ucast (drop_bit kBits ?w) :: byte) = unat ?w div 256"
  proof -
    have "unat ?w < 65536" using unsigned_less [of ?w, where ?'a = nat] by simp
    then have "unat ?w div 256 < 256" by (simp add: less_mult_imp_div_less)
    moreover have "unat (drop_bit kBits ?w) = unat ?w div 256" by (simp only: drop_bit_eq_div unat_div kBits_def) simp
    ultimately show ?thesis by (simp add: unsigned_ucast_eq take_bit_eq_mod)
  qed
  let ?v1 = "big_add_at (ucast (?w AND 0xff)) k vv"
  have v1: "\<not> is_neg ?v1" "le_val ?v1 = le_val vv + unat ?w mod 256 * 256 ^ k"
    using big_add_at_nonneg [OF assms, of "ucast (?w AND 0xff)" k] lo by simp_all
  have "le_val (mul_step x y k vv) = le_val vv + unat ?w mod 256 * 256 ^ k + unat ?w div 256 * 256 ^ (k + 1)"
    using big_add_at_nonneg [OF v1(1), of "ucast (drop_bit kBits ?w)" "k + 1"] v1(2) hi by (simp add: mul_step_def Let_def)
  also have "\<dots> = le_val vv + (unat ?w mod 256 + unat ?w div 256 * 256) * 256 ^ k"
  proof -
    have "a * 256 ^ k + b * 256 ^ (k + 1) = (a + b * 256) * 256 ^ k" for a b :: nat by (simp add: algebra_simps)
    then show ?thesis by (simp only: add.assoc)
  qed
  also have "\<dots> = le_val vv + unat x * unat y * 256 ^ k" by (simp only: mod_div_mult_eq w)
  finally show ?thesis
    using big_add_at_nonneg [OF v1(1), of "ucast (drop_bit kBits ?w)" "k + 1"] by (simp add: mul_step_def Let_def)
qed

lemma mul_row_val:
  assumes "\<not> is_neg vv"
  shows "m \<le> length bi \<Longrightarrow> \<not> is_neg (fold (\<lambda>j. mul_step x (bi ! j) (i + j)) [0..<m] vv) \<and>
    le_val (fold (\<lambda>j. mul_step x (bi ! j) (i + j)) [0..<m] vv) = le_val vv + unat x * le_val (take m bi) * 256 ^ i"
proof (induction m)
  case (Suc m)
  then show ?case
    using mul_step_val [of "fold (\<lambda>j. mul_step x (bi ! j) (i + j)) [0..<m] vv" x "bi ! m" "i + m"]
    by (simp add: take_Suc_conv_app_nth le_val_append power_add algebra_simps)
qed (simp add: assms)

lemma mul_rows_val:
  "n \<le> length d \<Longrightarrow> m \<le> length bi \<Longrightarrow>
   \<not> is_neg (fold (\<lambda>i. fold (\<lambda>j. mul_step (d ! i) (bi ! j) (i + j)) [0..<m]) [0..<n] []) \<and>
   le_val (fold (\<lambda>i. fold (\<lambda>j. mul_step (d ! i) (bi ! j) (i + j)) [0..<m]) [0..<n] []) = le_val (take n d) * le_val (take m bi)"
proof (induction n)
  case (Suc n)
  then show ?case
    using mul_row_val [of "fold (\<lambda>i. fold (\<lambda>j. mul_step (d ! i) (bi ! j) (i + j)) [0..<m]) [0..<n] []" m bi "d ! n" n]
    by (simp add: take_Suc_conv_app_nth le_val_append algebra_simps)
qed simp

lemma mul_bytes_val: "\<not> is_neg (mul_bytes d bi) \<and> le_val (mul_bytes d bi) = le_val d * le_val bi"
  using mul_rows_val [OF valid_size_le valid_size_le] by (simp add: mul_bytes_def le_val_valid)

lemma big_mul_val_byte: "\<not> is_neg (big_mul_val x d) \<and> le_val (big_mul_val x d) = le_val d * unat x"
proof -
  have "n \<le> length d \<Longrightarrow> \<not> is_neg (fold (\<lambda>i. mul_step (d ! i) x i) [0..<n] []) \<and>
     le_val (fold (\<lambda>i. mul_step (d ! i) x i) [0..<n] []) = le_val (take n d) * unat x" for n
  proof (induction n)
    case (Suc n)
    then show ?case
      using mul_step_val [of "fold (\<lambda>i. mul_step (d ! i) x i) [0..<n] []" "d ! n" x n]
      by (simp add: take_Suc_conv_app_nth le_val_append algebra_simps)
  qed simp
  from this [OF valid_size_le] show ?thesis by (simp add: big_mul_val_def le_val_valid)
qed

text \<open>The absolute value, and the product of two of them.\<close>

lemma abs_val: "int (le_val (if is_neg d then twos_complement d else d)) = \<bar>big_val d\<bar>"
  "\<not> is_neg (if is_neg d then twos_complement d else d)"
proof -
  have "big_val (if is_neg d then twos_complement d else d) = \<bar>big_val d\<bar>"
    using big_val_neg_iff [of d] twos_complement_val [of d] by (cases "d = []") auto
  moreover from this show "\<not> is_neg (if is_neg d then twos_complement d else d)"
    using big_val_neg_iff [of "if is_neg d then twos_complement d else d"] by linarith
  ultimately show "int (le_val (if is_neg d then twos_complement d else d)) = \<bar>big_val d\<bar>"
    by (metis big_val_nonneg)
qed

lemma restore_val:
  "big_val (if is_neg d then twos_complement (if is_neg d then twos_complement d else d) else (if is_neg d then twos_complement d else d)) = big_val d"
proof (cases "is_neg d")
  case True
  then have d: "d \<noteq> []" by auto
  then have "big_val (twos_complement d) \<noteq> 0" using twos_complement_val [OF d] big_val_neg_iff [of d] True by linarith
  then have "twos_complement d \<noteq> []" by auto
  then show ?thesis using True twos_complement_val d by simp
qed simp

lemma mul_bytes_Nil: "le_val d = 0 \<or> le_val bi = 0 \<Longrightarrow> mul_bytes d bi = []"
proof -
  have "fold (\<lambda>i s. s) xs t = t" for xs :: "nat list" and t :: big_integer by (induction xs) simp_all
  then show "le_val d = 0 \<or> le_val bi = 0 \<Longrightarrow> mul_bytes d bi = []"
    by (auto simp: mul_bytes_def id_def simp flip: valid_size_0_iff)
qed


subsection \<open>Shifts\<close>

lemma bit_concat:
  fixes a b :: nat
  assumes "a < 2 ^ n"
  shows "bit (a + 2 ^ n * b) k \<longleftrightarrow> (if k < n then bit a k else bit b (k - n))"
proof (cases "k < n")
  case True
  then have "(2 :: nat) ^ n = 2 ^ k * (2 * 2 ^ (n - k - 1))" by (simp flip: power_add power_Suc)
  then have "a + 2 ^ n * b = a + 2 ^ k * (2 * (2 ^ (n - k - 1) * b))" by (simp only: ac_simps)
  moreover have "(a + 2 ^ k * X) div 2 ^ k = X + a div 2 ^ k" for X by simp
  ultimately have "(a + 2 ^ n * b) div 2 ^ k = 2 * (2 ^ (n - k - 1) * b) + a div 2 ^ k" by (simp only:)
  then show ?thesis using True by (simp only: bit_iff_odd) simp
next
  case False
  then have "(2 :: nat) ^ k = 2 ^ n * 2 ^ (k - n)" by (simp flip: power_add)
  then have "(a + 2 ^ n * b) div 2 ^ k = b div 2 ^ (k - n)" using assms by (simp add: div_mult2_eq)
  then show ?thesis using False by (simp add: bit_iff_odd)
qed

lemma bit_le_val: "bit (le_val d) k \<longleftrightarrow> k div 8 < length d \<and> bit (d ! (k div 8)) (k mod 8)"
proof (induction d arbitrary: k)
  case (Cons x d)
  have "bit (le_val (x # d)) k \<longleftrightarrow> (if k < 8 then bit (unat x) k else bit (le_val d) (k - 8))"
    using bit_concat [of "unat x" 8 "le_val d" k] unat_byte_less [of x] by simp
  also have "\<dots> \<longleftrightarrow> k div 8 < length (x # d) \<and> bit ((x # d) ! (k div 8)) (k mod 8)"
  proof (cases "k < 8")
    case True
    then show ?thesis by (simp add: bit_unsigned_iff)
  next
    case False
    then obtain j where j: "k = j + 8" by (metis le_add_diff_inverse2 not_less)
    then have "k div 8 = Suc (j div 8)" "k mod 8 = j mod 8" "k - 8 = j" by simp_all
    then show ?thesis using Cons [of j] False by (simp only: if_False list.size nth_Cons_Suc Suc_less_eq)  simp
  qed
  finally show ?case .
qed simp

lemma bit_le_val_pos: "r < 8 \<Longrightarrow> bit (le_val d) (8 * q + r) \<longleftrightarrow> q < length d \<and> bit (d ! q) r"
  by (simp add: bit_le_val)

lemma fold_zeros:
  "length (fold (\<lambda>i d. d[i := 0]) [a..<b] d) = length d \<and>
   (\<forall>j < length d. fold (\<lambda>i d. d[i := 0]) [a..<b] d ! j = (if a \<le> j \<and> j < b then 0 else d ! j))" for d :: big_integer
  by (induction b) (auto simp: nth_list_update less_Suc_eq)

lemma shr_loop:
  assumes "m + so < length d"
  shows "length (fold (shr_step so sh) [1..<Suc m] (d[0 := drop_bit sh (d ! so)])) = length d \<and>
    (\<forall>j < length d. fold (shr_step so sh) [1..<Suc m] (d[0 := drop_bit sh (d ! so)]) ! j =
       (if j < m then drop_bit sh (d ! (j + so)) OR push_bit (8 - sh) (d ! (j + so + 1))
        else if j = m then drop_bit sh (d ! (j + so)) else d ! j))"
  using assms
proof (induction m)
  case 0
  then show ?case by (auto simp: nth_list_update)
next
  case (Suc m)
  obtain e where e_def: "fold (shr_step so sh) [1..<Suc m] (d[0 := drop_bit sh (d ! so)]) = e" by blast
  have e: "length e = length d" "\<And>j. j < length d \<Longrightarrow> e ! j =
       (if j < m then drop_bit sh (d ! (j + so)) OR push_bit (8 - sh) (d ! (j + so + 1))
        else if j = m then drop_bit sh (d ! (j + so)) else d ! j)"
    using Suc unfolding e_def by simp_all
  have "e ! (Suc m + so) = d ! (Suc m + so)" "e ! m = drop_bit sh (d ! (m + so))" using e(2) Suc.prems by simp_all
  then have f: "fold (shr_step so sh) [1..<Suc (Suc m)] (d[0 := drop_bit sh (d ! so)]) =
      e[m := drop_bit sh (d ! (m + so)) OR push_bit (8 - sh) (d ! (Suc m + so)), Suc m := drop_bit sh (d ! (Suc m + so))]"
    using upt_Suc_append [of 1 "Suc m"] e_def e(1) Suc.prems by (simp add: shr_step_def [of _ _ "Suc m"] kBits_def Let_def del: upt_Suc)
  show ?case unfolding f using e by (auto simp: nth_list_update less_Suc_eq)
qed

lemma big_shr_nth:
  fixes d :: big_integer
  defines "byte_at i \<equiv> if i < length d then d ! i else 0"
  shows "length (big_shr s d) = length d \<and> (i < length d \<longrightarrow>
    big_shr s d ! i = drop_bit (s mod 8) (byte_at (i + s div 8)) OR push_bit (8 - s mod 8) (byte_at (i + s div 8 + 1)))"
proof (cases "s div 8 < length d")
  case False
  then show ?thesis
    using fold_zeros [of 0 "length d" d] by (simp add: big_shr_def kBits_def byte_at_def)
next
  case True
  let ?so = "s div 8" and ?sh = "s mod 8" and ?m = "length d - s div 8 - 1"
  obtain e where e_def: "fold (shr_step ?so ?sh) [1..<Suc ?m] (d[0 := drop_bit ?sh (d ! ?so)]) = e" by blast
  have m: "?m + ?so < length d" "Suc ?m = length d - ?so" using True by simp_all
  have e: "length e = length d" "\<And>j. j < length d \<Longrightarrow> e ! j =
       (if j < ?m then drop_bit ?sh (d ! (j + ?so)) OR push_bit (8 - ?sh) (d ! (j + ?so + 1))
        else if j = ?m then drop_bit ?sh (d ! (j + ?so)) else d ! j)"
    using shr_loop [OF m(1), of ?sh] unfolding e_def by simp_all
  have "big_shr s d = fold (\<lambda>i d. d[i := 0]) [length d - ?so..<length d] e"
    using True e_def unfolding m(2) by (simp add: big_shr_def kBits_def Let_def)
  then have z: "length (big_shr s d) = length d"
    "\<And>j. j < length d \<Longrightarrow> big_shr s d ! j = (if length d - ?so \<le> j then 0 else e ! j)"
    using fold_zeros [of "length d - ?so" "length d" e] e(1) by simp_all
  show ?thesis
  proof (intro conjI impI)
    assume i: "i < length d"
    consider "length d - ?so \<le> i" "\<not> i + ?so < length d" "\<not> i + ?so + 1 < length d"
      | "\<not> length d - ?so \<le> i" "i < ?m" "i + ?so < length d" "i + ?so + 1 < length d"
      | "\<not> length d - ?so \<le> i" "i = ?m" "i + ?so < length d" "\<not> i + ?so + 1 < length d"
      using m by linarith
    then show "big_shr s d ! i = drop_bit ?sh (byte_at (i + ?so)) OR push_bit (8 - ?sh) (byte_at (i + ?so + 1))"
      using z(2) [OF i] e(2) [OF i] by cases (simp_all add: byte_at_def)
  qed (rule z(1))
qed

lemma big_shr_val_eq: "length (big_shr s d) = length d \<and> le_val (big_shr s d) = le_val d div 2 ^ s"
proof
  show l: "length (big_shr s d) = length d" using big_shr_nth by blast
  show "le_val (big_shr s d) = le_val d div 2 ^ s"
  proof (rule bit_eqI)
    fix k :: nat
    define q r so sh where "q = k div 8" and "r = k mod 8" and "so = s div 8" and "sh = s mod 8"
    have k: "k = 8 * q + r" "r < 8" and s: "s = 8 * so + sh" "sh < 8" by (simp_all add: q_def r_def so_def sh_def)
    let ?at = "\<lambda>i. if i < length d then d ! i else 0"
    have "bit (le_val (big_shr s d)) k \<longleftrightarrow> q < length d \<and>
       (bit (?at (q + so)) (sh + r) \<or> 8 - sh \<le> r \<and> bit (?at (q + so + 1)) (r - (8 - sh)))"
      using big_shr_nth [of s d q] l k(2) unfolding k(1) bit_le_val_pos [OF k(2)] so_def [symmetric] sh_def [symmetric]
      by (auto simp: bit_or_iff bit_drop_bit_eq bit_push_bit_iff)
    also have "\<dots> \<longleftrightarrow> bit (le_val d) (s + k)"
    proof (cases "sh + r < 8")
      case True
      have "s + k = 8 * (q + so) + (sh + r)" using k(1) s(1) by simp
      then show ?thesis using True bit_le_val_pos [OF True, of d "q + so"] by auto
    next
      case False
      have "s + k = 8 * (q + so + 1) + (r - (8 - sh))" using k(1) s False by simp
      moreover have "r - (8 - sh) < 8" using k(2) by simp
      moreover have "\<not> bit (x :: byte) (sh + r)" for x using False bit_imp_le_length [of x "sh + r"] by auto
      ultimately show ?thesis using False bit_le_val_pos [of "r - (8 - sh)" d "q + so + 1"] by auto
    qed
    finally show "bit (le_val (big_shr s d)) k \<longleftrightarrow> bit (le_val d div 2 ^ s) k"
      by (simp add: bit_drop_bit_eq flip: drop_bit_eq_div)
  qed
qed


lemma shl_loop:
  assumes "so + n < length d"
  defines "dst \<equiv> length d - 1"
  shows "length (fold (shl_step so sh) (rev [dst - n..<dst]) (d[dst := push_bit sh (d ! (dst - so))])) = length d \<and>
    (\<forall>j < length d. fold (shl_step so sh) (rev [dst - n..<dst]) (d[dst := push_bit sh (d ! (dst - so))]) ! j =
       (if dst - n < j then push_bit sh (d ! (j - so)) OR drop_bit (8 - sh) (d ! (j - so - 1))
        else if j = dst - n then push_bit sh (d ! (j - so)) else d ! j))"
  using assms(1)
proof (induction n)
  case 0
  then show ?case by (auto simp: nth_list_update dst_def)
next
  case (Suc n)
  obtain m where m: "dst - n = Suc m" "dst - Suc n = m" "so \<le> m" "Suc m < length d"
  proof
    show "dst - n = Suc (dst - Suc n)" "so \<le> dst - Suc n" "Suc (dst - Suc n) < length d"
      using Suc.prems unfolding dst_def by linarith+
  qed (rule refl)
  obtain e where e_def: "fold (shl_step so sh) (rev [Suc m..<dst]) (d[dst := push_bit sh (d ! (dst - so))]) = e" by blast
  have e: "length e = length d" "\<And>j. j < length d \<Longrightarrow> e ! j =
       (if Suc m < j then push_bit sh (d ! (j - so)) OR drop_bit (8 - sh) (d ! (j - so - 1))
        else if j = Suc m then push_bit sh (d ! (j - so)) else d ! j)"
    using Suc.IH Suc.prems unfolding m(1) e_def by simp_all
  have "rev [m..<dst] = rev [Suc m..<dst] @ [m]" using m(4) by (simp add: upt_rec dst_def)
  moreover have "m - so < Suc m" by simp
  then have "e ! (m - so) = d ! (m - so)" using e(2) [of "m - so"] m by (simp del: diff_Suc_less)
  moreover have "e ! Suc m = push_bit sh (d ! (Suc m - so))" using e(2) m by simp
  ultimately have f: "fold (shl_step so sh) (rev [m..<dst]) (d[dst := push_bit sh (d ! (dst - so))]) =
      e[Suc m := push_bit sh (d ! (Suc m - so)) OR drop_bit (8 - sh) (d ! (m - so)), m := push_bit sh (d ! (m - so))]"
    using e_def e(1) m by (simp add: shl_step_def [of _ _ m] kBits_def Let_def)
  show ?case unfolding m(2) f using e m(3) by (auto simp: nth_list_update not_less less_Suc_eq_le le_Suc_eq)
qed

lemma big_shl_nth:
  fixes d :: big_integer
  defines "byte_at b i \<equiv> if b then d ! i else 0"
  shows "length (big_shl s d) = length d \<and> (i < length d \<longrightarrow>
    big_shl s d ! i = push_bit (s mod 8) (byte_at (s div 8 \<le> i) (i - s div 8)) OR
      drop_bit (8 - s mod 8) (byte_at (s div 8 < i) (i - s div 8 - 1)))"
proof (cases "s div 8 < length d")
  case False
  then show ?thesis
    using fold_zeros [of 0 "length d" d] by (simp add: big_shl_def kBits_def byte_at_def)
next
  case True
  let ?so = "s div 8" and ?sh = "s mod 8" and ?dst = "length d - 1"
  let ?n = "?dst - ?so"
  obtain e where e_def: "fold (shl_step ?so ?sh) (rev [?so..<?dst]) (d[?dst := push_bit ?sh (d ! (?dst - ?so))]) = e" by blast
  have m: "?so + ?n < length d" "?dst - ?n = ?so" using True by simp_all
  have e: "length e = length d" "\<And>j. j < length d \<Longrightarrow> e ! j =
       (if ?so < j then push_bit ?sh (d ! (j - ?so)) OR drop_bit (8 - ?sh) (d ! (j - ?so - 1))
        else if j = ?so then push_bit ?sh (d ! (j - ?so)) else d ! j)"
    using shl_loop [OF m(1), of ?sh] unfolding m(2) e_def by blast+
  have "big_shl s d = fold (\<lambda>i d. d[i := 0]) [0..<?so] e"
    using True e_def by (simp add: big_shl_def kBits_def Let_def)
  then have z: "length (big_shl s d) = length d"
    "\<And>j. j < length d \<Longrightarrow> big_shl s d ! j = (if j < ?so then 0 else e ! j)"
    using fold_zeros [of 0 ?so e] e(1) by simp_all
  show ?thesis
  proof (intro conjI impI)
    assume i: "i < length d"
    consider "i < ?so" "\<not> ?so \<le> i" "\<not> ?so < i" | "\<not> i < ?so" "?so \<le> i" "?so < i" | "i = ?so" by linarith
    then show "big_shl s d ! i = push_bit ?sh (byte_at (?so \<le> i) (i - ?so)) OR drop_bit (8 - ?sh) (byte_at (?so < i) (i - ?so - 1))"
      using z(2) [OF i] e(2) [OF i] by cases (simp_all add: byte_at_def)
  qed (rule z(1))
qed

lemma big_shl_val_eq: "length (big_shl s d) = length d \<and> le_val (big_shl s d) = le_val d * 2 ^ s mod 256 ^ length d"
proof
  show l: "length (big_shl s d) = length d" using big_shl_nth by blast
  have p: "(256 :: nat) ^ length d = 2 ^ (8 * length d)" by (simp add: power_mult)
  show "le_val (big_shl s d) = le_val d * 2 ^ s mod 256 ^ length d"
  proof (rule bit_eqI)
    fix k :: nat
    define q r so sh where "q = k div 8" and "r = k mod 8" and "so = s div 8" and "sh = s mod 8"
    have k: "k = 8 * q + r" "r < 8" and s: "s = 8 * so + sh" "sh < 8" by (simp_all add: q_def r_def so_def sh_def)
    have "bit (le_val (big_shl s d)) k \<longleftrightarrow> q < length d \<and>
       (sh \<le> r \<and> so \<le> q \<and> bit (d ! (q - so)) (r - sh) \<or> so < q \<and> bit (d ! (q - so - 1)) (8 - sh + r))"
      using big_shl_nth [of s d q] l k(2) unfolding k(1) bit_le_val_pos [OF k(2)] so_def [symmetric] sh_def [symmetric]
      by (cases "so \<le> q"; cases "so < q") (auto simp: bit_or_iff bit_drop_bit_eq bit_push_bit_iff)
    also have "\<dots> \<longleftrightarrow> q < length d \<and> s \<le> k \<and> bit (le_val d) (k - s)"
    proof (cases "sh \<le> r")
      case True
      have n: "\<not> bit (x :: byte) (8 - sh + r)" for x using True s(2) bit_imp_le_length [of x "8 - sh + r"] by auto
      show ?thesis
      proof (cases "so \<le> q")
        case q: True
        then have "k - s = 8 * (q - so) + (r - sh)" "s \<le> k" using True k(1) s(1) by simp_all
        then show ?thesis using True q n bit_le_val_pos [of "r - sh" d "q - so"] k(2) by auto
      next
        case False
        then have "\<not> s \<le> k" using k s by simp
        then show ?thesis using False by simp
      qed
    next
      case False
      show ?thesis
      proof (cases "so < q")
        case q: True
        then have "k - s = 8 * (q - so - 1) + (8 - sh + r)" "s \<le> k" using False k(1) s by simp_all
        moreover have "8 - sh + r < 8" using False s(2) by simp
        ultimately show ?thesis using False q bit_le_val_pos [of "8 - sh + r" d "q - so - 1"] by auto
      next
        case q: False
        then have "\<not> s \<le> k" using False k s by simp
        then show ?thesis using False q by simp
      qed
    qed
    also have "\<dots> \<longleftrightarrow> bit (take_bit (8 * length d) (push_bit s (le_val d))) k"
    proof -
      have "k < 8 * length d \<longleftrightarrow> q < length d" using k by auto
      then show ?thesis by (simp add: bit_take_bit_iff bit_push_bit_iff)
    qed
    finally show "bit (le_val (big_shl s d)) k \<longleftrightarrow> bit (le_val d * 2 ^ s mod 256 ^ length d) k"
      unfolding p by (simp add: take_bit_eq_mod push_bit_eq_mult)
  qed
qed


subsection \<open>Logical operations\<close>

lemma fold_update:
  "n \<le> length d \<Longrightarrow> length (fold (\<lambda>i d. d[i := f (d ! i) (bi ! i)]) [0..<n] d) = length d \<and>
   (\<forall>j < length d. fold (\<lambda>i d. d[i := f (d ! i) (bi ! i)]) [0..<n] d ! j = (if j < n then f (d ! j) (bi ! j) else d ! j))"
proof (induction n)
  case (Suc n)
  obtain e where e: "fold (\<lambda>i d. d[i := f (d ! i) (bi ! i)]) [0..<n] d = e" by blast
  then show ?case using Suc by (auto simp: nth_list_update less_Suc_eq)
qed simp

lemma bit_big_val: "bit (big_val d) k \<longleftrightarrow> (if k < 8 * length d then bit (le_val d) k else is_neg d)"
proof -
  have p: "(256 :: int) ^ length d = 2 ^ (8 * length d)" by (simp add: power_mult)
  show ?thesis
  proof (cases "k < 8 * length d")
    case True
    have "take_bit (8 * length d) (big_val d) = int (le_val d)" using big_val_mod [of d] by (simp add: take_bit_eq_mod p)
    then show ?thesis using True by (metis bit_of_nat_iff_bit bit_take_bit_iff)
  next
    case False
    have z: "\<not> bit v k" if "0 \<le> v" "v < 2 ^ (8 * length d)" for v :: int
    proof -
      have "take_bit (8 * length d) v = v" using that by (simp add: take_bit_int_eq_self_iff)
      then show ?thesis using False by (metis bit_take_bit_iff)
    qed
    have b: "int (le_val d) < 2 ^ (8 * length d)"
      using le_val_less [of d] by (metis of_nat_less_iff of_nat_numeral of_nat_power p)
    show ?thesis
    proof (cases "is_neg d")
      case True
      have "\<not> bit (NOT (big_val d)) k" using True b by (intro z) (simp_all add: big_val_def p not_int_def)
      then show ?thesis using False True by (simp add: bit_not_iff)
    next
      case neg: False
      then show ?thesis using False z [of "int (le_val d)"] b by (simp add: big_val_def)
    qed
  qed
qed

text \<open>An operation on bits, byte by byte, is the operation on the numbers when this one is not the longer.\<close>

lemma bytewise_val:
  assumes f: "\<And>x y k. k < 8 \<Longrightarrow> bit (f x y) k = g (bit x k) (bit y k)" and g: "\<not> g False False"
    and l: "length d \<le> length bi"
    and res: "res = fold (\<lambda>i d. d[i := f (d ! i) (bi ! i)]) [0..<length bi] (pad_to (length bi) d)"
  shows "bit (big_val res) k = g (bit (big_val d) k) (bit (big_val bi) k)"
proof -
  let ?e = "pad_to (length bi) d"
  have e: "length ?e = length bi" using l by simp
  have r: "length res = length bi" "\<And>j. j < length bi \<Longrightarrow> res ! j = f (?e ! j) (bi ! j)"
    using fold_update [of "length bi" ?e f bi] e unfolding res by simp_all
  have "bit (big_val res) k = g (bit (big_val ?e) k) (bit (big_val bi) k)"
  proof (cases "k < 8 * length bi")
    case True
    then have "k div 8 < length bi" by (simp add: less_mult_imp_div_less mult.commute)
    then show ?thesis using True r e f [of "k mod 8"] by (simp add: bit_big_val bit_le_val)
  next
    case False
    have "is_neg res = g (is_neg ?e) (is_neg bi)"
    proof (cases "bi = []")
      case True
      then have "res = []" "?e = []" using r(1) e by (simp_all add: length_0_conv [symmetric] del: length_0_conv length_pad_to)
      then show ?thesis using True g by simp
    next
      case bi: False
      then have n: "res \<noteq> []" "?e \<noteq> []" using r(1) e by (auto simp del: length_pad_to)
      then have "last res = f (last ?e) (last bi)"
        using r e bi by (simp add: last_conv_nth)
      then show ?thesis using n bi f [of 7] by (simp add: is_neg_def)
    qed
    then show ?thesis using False r(1) e by (simp add: bit_big_val)
  qed
  then show ?thesis by (simp add: big_val_pad)
qed

subsection \<open>Decimal output\<close>

text \<open>Bytes as digits to the base 100.\<close>

primrec cent_val :: "byte list \<Rightarrow> nat" where
  "cent_val [] = 0"
| "cent_val (x # xs) = unat x + 100 * cent_val xs"

definition cents :: "byte list \<Rightarrow> bool" where
  "cents ds \<longleftrightarrow> (\<forall>x \<in> set ds. unat x < 100)"

lemma cents_simps [simp]: "cents []" "cents (x # xs) \<longleftrightarrow> unat x < 100 \<and> cents xs"
  "cents (replicate n 0)" "cents (rev ds) = cents ds"
  by (auto simp: cents_def)

lemma cent_val_zeros [simp]: "cent_val (replicate n 0) = 0"
  by (induction n) simp_all

lemma cent_val_less: "cents ds \<Longrightarrow> cent_val ds < 100 ^ length ds"
  by (induction ds) auto

fun cent_double :: "bool \<Rightarrow> byte list \<Rightarrow> byte list" where
  "cent_double c [] = []"
| "cent_double c (x # xs) = word_of_nat (2 * unat x mod 100 + of_bool c) # cent_double (50 \<le> unat x) xs"

lemma cent_double_length [simp]: "length (cent_double c ds) = length ds"
  by (induction ds arbitrary: c) simp_all

lemma cent_double_nth:
  "i < length ds \<Longrightarrow> cent_double c ds ! i =
     word_of_nat (2 * unat (ds ! i) mod 100 + of_bool (if i = 0 then c else 50 \<le> unat (ds ! (i - 1))))"
  by (induction ds arbitrary: c i) (auto simp: nth_Cons split: nat.splits)

lemma cent_double_val:
  "cents ds \<Longrightarrow> cents (cent_double c ds) \<and> (\<exists>b. cent_val (cent_double c ds) + 100 ^ length ds * b = 2 * cent_val ds + of_bool c)"
proof (induction ds arbitrary: c)
  case (Cons x ds)
  let ?y = "2 * unat x mod 100 + of_bool c"
  obtain b where b: "cent_val (cent_double (50 \<le> unat x) ds) + 100 ^ length ds * b = 2 * cent_val ds + of_bool (50 \<le> unat x)"
    and c: "cents (cent_double (50 \<le> unat x) ds)"
    using Cons by auto
  have x: "unat x < 100" using Cons.prems by simp
  have m: "2 * unat x = 2 * unat x mod 100 + 100 * of_bool (50 \<le> unat x)"
  proof (cases "50 \<le> unat x")
    case True
    then have "2 * unat x mod 100 = 2 * unat x - 100" using x mod_less [of "2 * unat x - 100" 100] by (simp add: le_mod_geq)
    then show ?thesis using True by simp
  qed simp
  have "2 * unat x mod 100 < 99" using m x by (cases "50 \<le> unat x") simp_all
  then have y: "?y < 100" by (cases c) simp_all
  have "unat (word_of_nat n :: byte) = n" if "n < 256" for n using that by (simp add: unat_of_nat)
  from this [of ?y] y have u: "unat (word_of_nat ?y :: byte) = ?y" by linarith
  have "cent_val (cent_double c (x # ds)) + 100 ^ length (x # ds) * b = 2 * cent_val (x # ds) + of_bool c"
    using b m u by (simp add: algebra_simps)
  then show ?case using c y u by auto
qed simp

lemma dabble_digit:
  assumes "unat x < 100" and "unat y < 100"
  shows "push_bit 1 (if x \<ge> kDDabbleBase then x + KDDabbleAdd else x) OR drop_bit 7 (if y \<ge> kDDabbleBase then y + KDDabbleAdd else y) =
    word_of_nat (2 * unat x mod 100 + of_bool (50 \<le> unat y))"
proof -
  have c: "x \<ge> kDDabbleBase \<longleftrightarrow> 50 \<le> unat x" for x by (simp add: kDDabbleBase_def word_le_nat_alt)
  have p: "push_bit 1 (if x \<ge> kDDabbleBase then x + KDDabbleAdd else x) = word_of_nat (2 * unat x mod 100)"
  proof (cases "50 \<le> unat x")
    case True
    then have "2 * unat x mod 100 = 2 * unat x - 100" using assms(1) by (simp add: le_mod_geq)
    moreover have "(2 * (x + 78) :: byte) = word_of_nat (2 * unat x - 100)"
      using True by (simp add: of_nat_diff)
    ultimately show ?thesis using True by (simp add: c KDDabbleAdd_def push_bit_eq_mult mult.commute)
  next
    case False
    then show ?thesis by (simp add: c push_bit_eq_mult mult.commute)
  qed
  have d: "drop_bit 7 (if y \<ge> kDDabbleBase then y + KDDabbleAdd else y) = of_bool (50 \<le> unat y)"
  proof -
    have "unat (drop_bit 7 (if y \<ge> kDDabbleBase then y + KDDabbleAdd else y)) = of_bool (50 \<le> unat y)"
    proof (cases "50 \<le> unat y")
      case True
      have "(unat y + 78) div 128 = 1" using True assms(2) by (intro div_nat_eqI) simp_all
      then show ?thesis
        using assms(2) True by (simp only: drop_bit_eq_div unat_div) (simp add: c KDDabbleAdd_def unat_plus_if')
    next
      case False
      then show ?thesis by (simp only: drop_bit_eq_div unat_div) (simp add: c)
    qed
    then show ?thesis by (intro word_unat_eq_iff [THEN iffD2]) simp
  qed
  have "even (word_of_nat (2 * unat x mod 100) :: byte)" unfolding p [symmetric] by simp
  then show ?thesis unfolding p d by (simp add: or_one_eq)
qed


lemma dabble_bit_double: "cents ds \<Longrightarrow> dabble_bit b ds = cent_double b ds"
proof -
  assume c: "cents ds"
  let ?f = "\<lambda>x :: byte. if x \<ge> kDDabbleBase then x + KDDabbleAdd else x"
  have l: "length (big_shl 1 (map ?f ds)) = length ds" using big_shl_nth [of 1 "map ?f ds"] by simp
  have ds: "unat (ds ! i) < 100" if "i < length ds" for i using c that by (simp add: cents_def)
  have n: "big_shl 1 (map ?f ds) ! i = word_of_nat (2 * unat (ds ! i) mod 100 + of_bool (0 < i \<and> 50 \<le> unat (ds ! (i - 1))))"
    if i: "i < length ds" for i
  proof -
    have s: "big_shl 1 (map ?f ds) ! i = push_bit 1 (?f (ds ! i)) OR drop_bit 7 (if 0 < i then ?f (ds ! (i - 1)) else 0)"
      using big_shl_nth [of 1 "map ?f ds" i] i by auto
    show ?thesis
    proof (cases "0 < i")
      case True
      then show ?thesis using s dabble_digit [OF ds [OF i] ds [of "i - 1"]] i by simp
    next
      case False
      then show ?thesis using s dabble_digit [OF ds [OF i], of 0] by (simp add: kDDabbleBase_def)
    qed
  qed
  have e: "even (big_shl 1 (map ?f ds) ! 0)" if "ds \<noteq> []"
    using big_shl_nth [of 1 "map ?f ds" 0] that by simp
  show ?thesis
  proof (rule nth_equalityI)
    show "length (dabble_bit b ds) = length (cent_double b ds)"
      using l by (cases "ds = []") (simp_all add: dabble_bit_def big_or_val_def Let_def)
    fix i
    assume "i < length (dabble_bit b ds)"
    then have i: "i < length ds" using l by (simp add: dabble_bit_def big_or_val_def Let_def split: if_splits)
    then have d: "ds \<noteq> []" by auto
    then have n0: "big_shl 1 (map ?f ds) \<noteq> []" using l by (metis length_0_conv)
    show "dabble_bit b ds ! i = cent_double b ds ! i"
    proof (cases "b \<and> i = 0")
      case True
      then have "dabble_bit b ds ! i = big_shl 1 (map ?f ds) ! 0 OR 1"
        using n0 by (simp add: dabble_bit_def big_or_val_def Let_def)
      also have "\<dots> = big_shl 1 (map ?f ds) ! 0 + 1" using e [OF d] by (simp add: or_one_eq)
      finally show ?thesis using n [of 0] i True by (simp add: cent_double_nth)
    next
      case False
      then have "dabble_bit b ds ! i = big_shl 1 (map ?f ds) ! i"
        using l by (auto simp: dabble_bit_def big_or_val_def Let_def nth_list_update)
      then show ?thesis using n [OF i] i False by (auto simp: cent_double_nth)
    qed
  qed
qed

lemma dabble_bit_val:
  assumes "cents ds"
  shows "cents (dabble_bit b ds) \<and> length (dabble_bit b ds) = length ds \<and>
    cent_val (dabble_bit b ds) = (2 * cent_val ds + of_bool b) mod 100 ^ length ds"
proof -
  obtain q where q: "cent_val (cent_double b ds) + 100 ^ length ds * q = 2 * cent_val ds + of_bool b" and c: "cents (cent_double b ds)"
    using cent_double_val [OF assms] by blast
  have "(2 * cent_val ds + of_bool b) mod 100 ^ length ds = cent_val (cent_double b ds)"
    using cent_val_less [OF c] unfolding q [symmetric] by simp
  then show ?thesis using c by (simp add: dabble_bit_double [OF assms])
qed

lemma dabble_bits:
  "cents ds \<Longrightarrow> cents (fold (\<lambda>k. dabble_bit (bit x k)) (rev [0..<n]) ds) \<and>
     length (fold (\<lambda>k. dabble_bit (bit x k)) (rev [0..<n]) ds) = length ds \<and>
     cent_val (fold (\<lambda>k. dabble_bit (bit x k)) (rev [0..<n]) ds) = (cent_val ds * 2 ^ n + take_bit n (unat x)) mod 100 ^ length ds"
  for x :: byte
proof (induction n arbitrary: ds)
  case 0
  then show ?case using cent_val_less [of ds] by simp
next
  case (Suc n)
  let ?d = "dabble_bit (bit x n) ds"
  have d: "cents ?d" "length ?d = length ds" "cent_val ?d = (2 * cent_val ds + of_bool (bit x n)) mod 100 ^ length ds"
    using dabble_bit_val [OF Suc.prems, of "bit x n"] by simp_all
  have t: "take_bit (Suc n) (unat x) = take_bit n (unat x) + of_bool (bit x n) * 2 ^ n"
    by (simp add: take_bit_Suc_from_most bit_unsigned_iff)
  have "(cent_val ?d * 2 ^ n + take_bit n (unat x)) mod 100 ^ length ds =
      ((2 * cent_val ds + of_bool (bit x n)) * 2 ^ n + take_bit n (unat x)) mod 100 ^ length ds"
    unfolding d(3) by (metis mod_add_left_eq mod_mult_left_eq)
  also have "(2 * cent_val ds + of_bool (bit x n)) * 2 ^ n + take_bit n (unat x) = cent_val ds * 2 ^ Suc n + take_bit (Suc n) (unat x)"
    unfolding t by (simp add: algebra_simps)
  finally show ?case using Suc.IH [OF d(1)] d(2) by simp
qed

lemma dabble_byte_val:
  assumes "cents ds"
  shows "cents (dabble_byte x ds) \<and> length (dabble_byte x ds) = length ds \<and>
    cent_val (dabble_byte x ds) = (256 * cent_val ds + unat x) mod 100 ^ length ds"
proof -
  have "take_bit 8 (unat x) = unat x" using unat_byte_less [of x] by (simp add: take_bit_eq_mod)
  then show ?thesis using dabble_bits [OF assms, of x 8] by (simp add: dabble_byte_def kBits_def mult.commute)
qed

lemma dabble_bytes:
  "cents ds \<Longrightarrow> cents (fold dabble_byte (rev d) ds) \<and> length (fold dabble_byte (rev d) ds) = length ds \<and>
    cent_val (fold dabble_byte (rev d) ds) = (256 ^ length d * cent_val ds + le_val d) mod 100 ^ length ds"
proof (induction d)
  case Nil
  then show ?case using cent_val_less [of ds] by simp
next
  case (Cons x d)
  let ?e = "fold dabble_byte (rev d) ds"
  have e: "cents ?e" "length ?e = length ds" "cent_val ?e = (256 ^ length d * cent_val ds + le_val d) mod 100 ^ length ds"
    using Cons by simp_all
  have "(256 * cent_val ?e + unat x) mod 100 ^ length ds = (256 * (256 ^ length d * cent_val ds + le_val d) + unat x) mod 100 ^ length ds"
    unfolding e(3) by (metis mod_add_left_eq mod_mult_right_eq)
  then show ?case using dabble_byte_val [OF e(1), of x] e(2) by (simp add: algebra_simps)
qed


text \<open>Printing the digits to the base 100 from the most significant one.\<close>

definition two_digits :: "byte \<Rightarrow> string" where
  "two_digits x = (if unat x < 10 then ''0'' @ digits (unat x) else digits (unat x))"

lemma digits_Nil [simp]: "digits n \<noteq> []"
  by (subst digits.simps) simp

lemma digits_two: "10 \<le> n \<Longrightarrow> n < 100 \<Longrightarrow> length (digits n) = 2"
  by (subst digits.simps, subst digits.simps) (simp add: less_mult_imp_div_less)

lemma digits_one: "n < 10 \<Longrightarrow> digits n = [char_of (48 + n)]"
  by (simp add: digits.simps)

lemma digits_append_two:
  assumes "0 < v" and "unat x < 100"
  shows "digits (v * 100 + unat x) = digits v @ two_digits x"
proof -
  let ?n = "v * 100 + unat x"
  have n: "\<not> ?n < 10" "\<not> ?n div 10 < 10" using assms(1) by simp_all
  have q: "?n div 10 = v * 10 + unat x div 10" "?n mod 10 = unat x mod 10" "?n div 10 div 10 = v" "?n div 10 mod 10 = unat x div 10"
  proof -
    have e: "?n = unat x + 10 * (10 * v)" and t: "unat x div 10 < 10" using assms(2) by (simp_all add: less_mult_imp_div_less)
    show d: "?n div 10 = v * 10 + unat x div 10" unfolding e by simp
    show "?n mod 10 = unat x mod 10" unfolding e by (rule mod_mult_self2)
    show "?n div 10 div 10 = v" "?n div 10 mod 10 = unat x div 10" unfolding d using t by simp_all
  qed
  have "digits ?n = digits (?n div 10) @ [char_of (48 + ?n mod 10)]" using n(1) by (subst digits.simps) simp
  also have "digits (?n div 10) = digits v @ [char_of (48 + unat x div 10)]"
    using n(2) q(3,4) by (subst digits.simps) simp
  finally have d: "digits ?n = digits v @ [char_of (48 + unat x div 10), char_of (48 + unat x mod 10)]" by (simp add: q(2))
  show ?thesis
  proof (cases "unat x < 10")
    case True
    moreover have "char_of (48 :: nat) = CHR ''0''" by code_simp
    ultimately show ?thesis unfolding d by (simp add: two_digits_def digits_one)
  next
    case False
    then have "digits (unat x) = [char_of (48 + unat x div 10), char_of (48 + unat x mod 10)]"
      using assms(2) by (subst digits.simps) (simp add: digits_one less_mult_imp_div_less)
    then show ?thesis unfolding d using False by (simp add: two_digits_def)
  qed
qed

lemma print_started:
  "cents xs \<Longrightarrow> 0 < v \<Longrightarrow> print_digits xs True (digits v) = digits (foldl (\<lambda>a x. a * 100 + unat x) v xs)"
proof (induction xs arbitrary: v)
  case (Cons x xs)
  have vv: "(if length (digits (unat x)) \<noteq> 2 \<and> length (digits v) \<noteq> 0 then ''0'' @ digits (unat x) else digits (unat x)) = two_digits x"
    using Cons.prems(1) digits_two [of "unat x"] by (auto simp: two_digits_def digits_one)
  have "print_digits (x # xs) True (digits v) = print_digits xs True (digits v @ two_digits x)"
    using vv by (simp add: Let_def)
  also have "digits v @ two_digits x = digits (v * 100 + unat x)" using Cons.prems by (simp add: digits_append_two)
  finally show ?case using Cons.IH [of "v * 100 + unat x"] Cons.prems by simp
qed simp

lemma print_unstarted:
  "cents xs \<Longrightarrow> print_digits xs False [] =
     (let v = foldl (\<lambda>a x. a * 100 + unat x) 0 xs in if v = 0 then [] else digits v)"
proof (induction xs)
  case (Cons x xs)
  show ?case
  proof (cases "x = 0")
    case True
    then show ?thesis using Cons by simp
  next
    case False
    have g: "foldl (\<lambda>a x. a * 100 + unat x) v ys \<noteq> 0" if "0 < v" for v and ys :: "byte list"
      using that by (induction ys arbitrary: v) auto
    have x: "0 < unat x" using False by (simp add: unat_gt_0)
    then show ?thesis using print_started [of xs "unat x"] Cons.prems False g [OF x, of xs] by (simp add: Let_def)
  qed
qed simp

lemma foldl_cents: "foldl (\<lambda>a x. a * 100 + unat x) a (rev ds) = a * 100 ^ length ds + cent_val ds"
  by (induction ds arbitrary: a) (simp_all add: algebra_simps)

text \<open>Two digits to the base 100 are enough for a byte.\<close>

lemma big_to_string_nonneg:
  "print_digits (rev (fold dabble_byte (rev d) (big_reserve (length d * 2)))) False [] = (if le_val d = 0 then [] else digits (le_val d))"
proof -
  let ?p = "fold dabble_byte (rev d) (big_reserve (length d * 2))"
  have p: "cents ?p" "cent_val ?p = le_val d mod 100 ^ (length d * 2)"
    using dabble_bytes [of "big_reserve (length d * 2)" d] by (simp_all add: big_reserve_def)
  have "le_val d < 256 ^ length d" by (rule le_val_less)
  also have "(256 :: nat) ^ length d \<le> 100 ^ (length d * 2)" by (simp add: power_mult mult.commute [of _ 2] power_mono)
  finally have "cent_val ?p = le_val d" using p(2) by simp
  then show ?thesis using print_unstarted [of "rev ?p"] p(1) by (simp add: foldl_cents)
qed

subsection \<open>The low bytes\<close>

lemma low_loop_val:
  "m \<le> length d \<Longrightarrow> low_loop m d v = Some (v * 256 ^ m + word_of_nat (le_val (take m d)))"
  for v :: "'a :: len word"
proof (induction m arbitrary: v)
  case (Suc m)
  have "push_bit 8 v OR ucast (d ! m) = v * 256 + word_of_nat (unat (d ! m))"
  proof -
    have "\<not> bit (push_bit 8 v) k \<or> \<not> bit (ucast (d ! m) :: 'a word) k" for k
      using bit_imp_le_length [of "d ! m" k] by (auto simp: bit_push_bit_iff bit_ucast_iff)
    then have "push_bit 8 v OR ucast (d ! m) = push_bit 8 v + ucast (d ! m)" by (intro disjunctive_add_eq_or [symmetric]) (auto simp: bit_eq_iff bit_and_iff)
    then show ?thesis by (simp add: push_bit_eq_mult)
  qed
  then show ?case using Suc by (simp add: kBits_def take_Suc_conv_app_nth le_val_append algebra_simps)
qed simp

lemma low_val:
  assumes "LENGTH('a :: len) = 8 * n" and "d \<noteq> []" and "length d < 2 ^ 64"
  shows "low_loop (Suc (min n (size_sub (length d) 1))) d 0 = Some (word_of_nat (le_val d) :: 'a word)"
proof -
  have s: "Suc (min n (size_sub (length d) 1)) = min (Suc n) (length d)"
    using assms(2,3) by (cases d) (simp_all add: size_sub_le)
  have e: "(word_of_nat (le_val (take (min (Suc n) (length d)) d)) :: 'a word) = word_of_nat (le_val d)"
  proof (cases "length d \<le> Suc n")
    case False
    have "le_val d = le_val (take (Suc n) d) + 256 ^ Suc n * le_val (drop (Suc n) d)"
      using le_val_append [of "take (Suc n) d" "drop (Suc n) d"] False by simp
    moreover have "(2 :: nat) ^ LENGTH('a) dvd 256 ^ Suc n" unfolding assms(1) by (simp add: power_mult)
    then have "(word_of_nat (256 ^ Suc n) :: 'a word) = 0" by (simp only: word_of_nat_eq_0_iff)
    ultimately show ?thesis using False by (simp only: of_nat_add of_nat_mult) simp
  qed simp
  show ?thesis unfolding s using low_loop_val [of "min (Suc n) (length d)" d "0 :: 'a word"] e by simp
qed

subsection \<open>Machine integers, and the shortest form\<close>

lemma int_bytes_bit: "q < n \<Longrightarrow> r < 8 \<Longrightarrow> bit (int_bytes n v ! q) r \<longleftrightarrow> bit (sint v) (8 * q + r)"
proof (induction n arbitrary: q v)
  case (Suc n)
  show ?case
  proof (cases q)
    case 0
    have "bit (255 :: 32 word) r" using Suc.prems(2) bit_mask_iff [of 8 r, where 'a = "32 word"] by (simp add: mask_eq_exp_minus_1)
    then show ?thesis using 0 Suc.prems(2) by (simp add: bit_ucast_iff bit_and_iff bit_sint_iff min_def)
  next
    case (Suc p)
    have "bit (int_bytes (Suc n) v ! q) r \<longleftrightarrow> bit (sint (signed_drop_bit 8 v)) (8 * p + r)"
      using Suc Suc.IH Suc.prems by (simp add: kBits_def)
    then show ?thesis using Suc by (simp add: sint_signed_drop_bit_eq bit_drop_bit_eq ac_simps)
  qed
qed simp

lemma length_int_bytes [simp]: "length (int_bytes n v) = n"
  by (induction n arbitrary: v) simp_all

lemma big_of_int_val: "big_val (big_of_int w) = sint w"
proof (rule bit_eqI)
  fix k
  have "int_bytes 4 w \<noteq> []" by (metis length_int_bytes list.size(3) zero_neq_numeral)
  then have "last (int_bytes 4 w) = int_bytes 4 w ! 3" using last_conv_nth [of "int_bytes 4 w"] unfolding length_int_bytes by simp
  then have n: "is_neg (big_of_int w) \<longleftrightarrow> bit (sint w) 31"
    using int_bytes_bit [of 3 4 7 w] by (auto simp: is_neg_def big_of_int_def simp flip: length_0_conv)
  show "bit (big_val (big_of_int w)) k \<longleftrightarrow> bit (sint w) k"
  proof (cases "k < 32")
    case True
    then have "k div 8 < 4" "k mod 8 < 8" by simp_all
    then show ?thesis using True int_bytes_bit [of "k div 8" 4 "k mod 8" w]
      by (simp add: bit_big_val bit_le_val big_of_int_def)
  next
    case False
    then show ?thesis unfolding bit_big_val n using bit_imp_le_length [of w k] by (auto simp: big_of_int_def bit_sint_iff min_def)
  qed
qed

lemma drop_zeros_split: "\<exists>k. xs = replicate k 0 @ drop_zeros xs \<and> (drop_zeros xs = [] \<or> hd (drop_zeros xs) \<noteq> 0)"
proof (induction xs)
  case (Cons x xs)
  show ?case
  proof (cases "x = 0")
    case True
    then obtain k where "x # xs = replicate (Suc k) 0 @ drop_zeros (x # xs)"
      "drop_zeros (x # xs) = [] \<or> hd (drop_zeros (x # xs)) \<noteq> 0"
      using Cons by auto
    then show ?thesis by blast
  next
    case False
    then show ?thesis by (intro exI [of _ 0]) simp
  qed
qed simp

lemma shrink_to_fit_val: "big_val (shrink_to_fit d) = big_val d"
proof -
  obtain k where k: "rev d = replicate k 0 @ drop_zeros (rev d)" "drop_zeros (rev d) = [] \<or> hd (drop_zeros (rev d)) \<noteq> 0"
    using drop_zeros_split by blast
  define s where "s = rev (drop_zeros (rev d))"
  have d: "d = s @ replicate k 0" using arg_cong [OF k(1), of rev] by (simp add: s_def)
  have s: "s = [] \<or> last s \<noteq> 0" using k(2) by (simp add: s_def last_rev)
  have v: "le_val d = le_val s" unfolding d by (simp add: le_val_append)
  have half: "last s > kMask div 2 \<longleftrightarrow> 128 \<le> unat (last s)"
    by (simp add: kMask_def word_less_nat_alt unat_div) linarith
  consider "k = 0" "is_neg d" | "\<not> is_neg d" "s = []" | "\<not> is_neg d" "s \<noteq> []"
  proof (cases k)
    case 0
    then show ?thesis using that by blast
  next
    case (Suc j)
    then have "last d = 0" unfolding d using replicate_append_same [of j "0 :: byte", symmetric] by simp
    then show ?thesis using that by (auto simp: is_neg_def)
  qed
  then show ?thesis
  proof cases
    case 1
    then have "\<not> big_sign d > 0" using sign_neg [of d] by linarith
    moreover have "rev (drop_zeros (rev d)) = d" using 1(1) d s_def by (metis append_Nil2 replicate_0)
    ultimately show ?thesis by (simp add: shrink_to_fit_def Let_def)
  next
    case 2
    then have "le_val d = 0" using v by simp
    then have "big_sign d = 0" by (simp add: big_sign_def valid_size_0_iff)
    then show ?thesis using 2 v by (simp add: shrink_to_fit_def s_def [symmetric] Let_def big_val_nonneg)
  next
    case 3
    have "0 < unat (last s)" using s 3 by (simp add: unat_gt_0)
    then have "0 < le_val s" using 3 by (cases s rule: rev_cases) (simp_all add: le_val_append)
    then have "0 < big_sign d" using 3 v by (simp add: sign_val big_val_nonneg)
    then have "shrink_to_fit d = (if 128 \<le> unat (last s) then s @ [0] else s)"
      using half by (simp add: shrink_to_fit_def s_def [symmetric] Let_def)
    moreover from this have "\<not> is_neg (shrink_to_fit d)" using 3 by (auto simp: is_neg_def top_bit)
    ultimately show ?thesis using v 3 by (auto simp: big_val_nonneg le_val_append)
  qed
qed

section \<open>Properties\<close>

text \<open>
  C30. Sums and differences: \<open>add\<close> and \<open>sub\<close> compute in two's complement on as many bytes as the longer operand
  has, whatever the lengths and signs, carries and borrows through all bytes included. Nothing is lost as long as
  the result fits in those bytes; one that does not wraps around, and no byte is ever added for it.
\<close>

theorem big_sums_wrap:
  "length (big_add bi d) = max (length bi) (length d) \<and>
   big_val (big_add bi d) = wrap_bytes (max (length bi) (length d)) (big_val d + big_val bi) \<and>
   length (big_sub bi d) = max (length bi) (length d) \<and>
   big_val (big_sub bi d) = wrap_bytes (max (length bi) (length d)) (big_val d - big_val bi)"
  by (simp add: big_add_val_eq big_sub_val_eq)

text \<open>
  C31. Products: \<open>mul\<close> of two different numbers is exact for every pair of lengths and signs, and leaves the other
  number's value as it was; the one exception is zero times a negative number, whose complement of nothing is 1.
\<close>

theorem big_product_exact:
  "big_val (fst (big_mul bi d)) = (if big_val d * big_val bi = 0 \<and> (is_neg d \<noteq> is_neg bi) then 1 else big_val d * big_val bi) \<and>
   big_val (snd (big_mul bi d)) = big_val bi"
proof -
  let ?d = "if is_neg d then twos_complement d else d" and ?b = "if is_neg bi then twos_complement bi else bi"
  define v where "v = mul_bytes ?d ?b"
  have val: "big_val v = \<bar>big_val d\<bar> * \<bar>big_val bi\<bar>" "\<not> is_neg v"
    using mul_bytes_val [of ?d ?b] abs_val(1) [of d] abs_val(1) [of bi] by (simp_all add: v_def big_val_nonneg)
  have z: "v = []" if "big_val d * big_val bi = 0"
    using that abs_val(1) [of d] abs_val(1) [of bi] unfolding v_def by (intro mul_bytes_Nil) auto
  have e: "fst (big_mul bi d) = (if is_neg d \<noteq> is_neg bi then twos_complement v else v)" by (simp add: big_mul_def Let_def v_def)
  have one: "big_val [1] = 1" by (simp add: big_val_def is_neg_def top_bit)
  have "big_val (fst (big_mul bi d)) = (if big_val d * big_val bi = 0 \<and> (is_neg d \<noteq> is_neg bi) then 1 else big_val d * big_val bi)"
  proof (cases "big_val d * big_val bi = 0")
    case True
    then show ?thesis using e z one twos_complement_Nil by simp
  next
    case False
    then have "v \<noteq> []" using val(1) by auto
    then have "big_val (fst (big_mul bi d)) = (if is_neg d \<noteq> is_neg bi then - big_val v else big_val v)"
      using e twos_complement_val by simp
    then show ?thesis using False val(1) big_val_neg_iff [of d] big_val_neg_iff [of bi] by (auto simp: abs_if split: if_splits)
  qed
  moreover have "big_val (snd (big_mul bi d)) = big_val bi"
    using restore_val [of bi] by (simp add: big_mul_def Let_def)
  ultimately show ?thesis ..
qed

text \<open>
  A number multiplied by itself: \<open>x.mul(x)\<close> negates its own operand before it looks at the other's sign, so the
  square of a negative number comes out negative.
\<close>

theorem big_square_sign:
  "big_val (big_mul_self d) = (if is_neg d then - (big_val d * big_val d) else big_val d * big_val d)"
proof -
  let ?d = "if is_neg d then twos_complement d else d"
  have n: "\<not> is_neg ?d" by (rule abs_val(2))
  have "big_val (mul_bytes ?d ?d) = big_val d * big_val d"
    using mul_bytes_val [of ?d ?d] abs_val(1) [of d] by (simp add: big_val_nonneg abs_mult_self_eq)
  moreover have "mul_bytes ?d ?d \<noteq> []" if "is_neg d"
    using calculation big_val_neg_iff [of d] that by (intro notI) simp
  ultimately show ?thesis using n twos_complement_val by (cases "is_neg d") (simp_all add: big_mul_self_def Let_def)
qed

text \<open>
  C33. Shifts: within the bytes the vector has, \<open>shr\<close> divides the bit pattern by a power of two and \<open>shl\<close>
  multiplies it, for every number of bits, whole bytes included; the in-place loops never read a byte they already
  changed.
\<close>

theorem big_shifts:
  "length (big_shr s d) = length d \<and> le_val (big_shr s d) = le_val d div 2 ^ s \<and>
   length (big_shl s d) = length d \<and> le_val (big_shl s d) = le_val d * 2 ^ s mod 256 ^ length d"
  by (simp add: big_shr_val_eq big_shl_val_eq)

text \<open>
  Logical operations: when this number is not the longer one, \<open>_or\<close>, \<open>_and\<close> and \<open>_xor\<close> are the operations on
  the infinite two's complement representations, and \<open>_not\<close> always is.
\<close>

theorem big_logic:
  assumes "length d \<le> length bi"
  shows "big_val (big_or bi d) = big_val d OR big_val bi \<and> big_val (big_and bi d) = big_val d AND big_val bi \<and>
    big_val (big_xor bi d) = big_val d XOR big_val bi \<and> (d \<noteq> [] \<longrightarrow> big_val (big_not d) = NOT (big_val d))"
proof (intro conjI impI)
  show "big_val (big_or bi d) = big_val d OR big_val bi"
    by (rule bit_eqI) (simp add: bit_or_iff bytewise_val [where g = "(\<or>)", OF _ _ assms big_or_def])
  show "big_val (big_and bi d) = big_val d AND big_val bi"
    by (rule bit_eqI) (simp add: bit_and_iff bytewise_val [where g = "(\<and>)", OF _ _ assms big_and_def])
  show "big_val (big_xor bi d) = big_val d XOR big_val bi"
    by (rule bit_eqI) (simp add: bit_xor_iff bytewise_val [where g = "(\<noteq>)", OF _ _ assms big_xor_def])
qed (simp add: big_not_val not_int_def)

theorem big_logic_witness:
  "big_val (big_and [0x0f, 0x80] [0xff]) = big_val [0xff] AND big_val [0x0f, 0x80]"
  using big_logic [of "[0xff]" "[0x0f, 0x80]"] by simp

text \<open>
  C32. Decimal output: \<open>to_string\<close> by double dabble gives the shortest decimal representation of every number, with a
  sign for negative ones, and the empty text for zero; the number keeps its value.
\<close>

theorem big_decimal_output:
  "fst (big_to_string d) =
     (if big_val d = 0 then [] else if big_val d < 0 then ''-'' @ digits (nat (- big_val d)) else digits (nat (big_val d))) \<and>
   big_val (snd (big_to_string d)) = big_val d"
proof -
  let ?d = "if is_neg d then twos_complement d else d"
  have "fst (big_to_string d) = (if is_neg d then ''-'' else []) @ (if le_val ?d = 0 then [] else digits (le_val ?d))"
    using big_to_string_nonneg [of ?d] by (cases "is_neg d") (simp_all add: big_to_string_def Let_def)
  moreover have "le_val ?d = nat \<bar>big_val d\<bar>" using abs_val(1) [of d] by linarith
  moreover have "big_val (snd (big_to_string d)) = big_val d"
    using restore_val [of d] by (cases "is_neg d") (simp_all add: big_to_string_def Let_def)
  ultimately show ?thesis using big_val_neg_iff [of d] by (auto simp: abs_if)
qed

text \<open>
  A machine integer survives the round trip: its four bytes mean the same number, the low 32 bits read it back,
  and \<open>shrink_to_fit\<close> keeps every number's value.
\<close>

theorem big_int_round_trip:
  "big_val (big_of_int w) = sint w \<and> get_low_uint32_value (big_of_int w) = Some w \<and>
   big_val (shrink_to_fit d) = big_val d"
proof -
  have "bit (le_val (big_of_int w)) k \<longleftrightarrow> bit (unat w) k" for k
  proof (cases "k < 32")
    case True
    then show ?thesis
      using bit_big_val [of "big_of_int w" k] unfolding big_of_int_val
      by (auto simp: bit_sint_iff bit_unsigned_iff min_def big_of_int_def)
  next
    case False
    then show ?thesis using bit_imp_le_length [of w k] by (auto simp: bit_le_val big_of_int_def bit_unsigned_iff)
  qed
  then have "le_val (big_of_int w) = unat w" by (simp add: bit_eq_iff)
  then have "get_low_uint32_value (big_of_int w) = Some w"
    using low_val [of 4 "big_of_int w", where 'a = 32] by (simp add: get_low_uint32_value_def big_of_int_def flip: length_0_conv)
  then show ?thesis by (simp add: big_of_int_val shrink_to_fit_val)
qed

end
