(* ===== verification/Shared_Function.thy ===== *)
theory Shared_Function
  imports Tcode_Prelude
begin

text \<open>
  The type-erased functions of \<open>include/tcode/function.hpp\<close>. A function object is a context pointer and two code
  pointers, one to call it and one to copy or release the context; the context is null, a plain function, or a
  \<open>handler_impl\<close> with a reference count that several objects share. A call through a null code pointer and an
  access to a deleted \<open>handler_impl\<close> are \<^const>\<open>None\<close>.
\<close>

section \<open>The program\<close>

datatype handler_ops = DUPLICATE | CLONE | RELEASE

text \<open>\<open>handler_impl<Handler>\<close>: a handler and the number of function objects that use it.\<close>

record 'h handler_impl =
  ref_count :: int
  im_handler :: 'h

datatype fn_context = Null_Context | Raw_Context nat | Impl_Context nat

text \<open>The code a function object can point to: the two static functions of either kind, or nothing.\<close>

datatype fn_code = No_Code | Ptr_Code | Impl_Code

record fn_object =
  fn_context :: fn_context
  fn_call_code :: fn_code
  fn_control_code :: fn_code

record 'h fn_heap =
  fh_impls :: "nat \<Rightarrow> 'h handler_impl option"
  fh_next :: nat

subsection \<open>The shared handlers\<close>

definition impl_new :: "'h \<Rightarrow> 'h fn_heap \<Rightarrow> nat \<times> 'h fn_heap" where
  "impl_new h hp =
     (fh_next hp, hp\<lparr>fh_impls := (fh_impls hp)(fh_next hp \<mapsto> \<lparr>ref_count = 1, im_handler = h\<rparr>), fh_next := fh_next hp + 1\<rparr>)"

definition impl_duplicate :: "nat \<Rightarrow> 'h fn_heap \<Rightarrow> (nat \<times> 'h fn_heap) option" where
  "impl_duplicate a hp =
     (case fh_impls hp a of
        None \<Rightarrow> None
      | Some im \<Rightarrow> Some (a, hp\<lparr>fh_impls := (fh_impls hp)(a \<mapsto> im\<lparr>ref_count := ref_count im + 1\<rparr>)\<rparr>))"

definition impl_clone :: "nat \<Rightarrow> 'h fn_heap \<Rightarrow> (nat \<times> 'h fn_heap) option" where
  "impl_clone a hp = (case fh_impls hp a of None \<Rightarrow> None | Some im \<Rightarrow> Some (impl_new (im_handler im) hp))"

definition impl_release :: "nat \<Rightarrow> 'h fn_heap \<Rightarrow> 'h fn_heap option" where
  "impl_release a hp =
     (case fh_impls hp a of
        None \<Rightarrow> None
      | Some im \<Rightarrow>
          Some (hp\<lparr>fh_impls := (fh_impls hp)(a := (if ref_count im = 1 then None else Some (im\<lparr>ref_count := ref_count im - 1\<rparr>)))\<rparr>))"

definition impl_control :: "handler_ops \<Rightarrow> fn_context \<Rightarrow> 'h fn_heap \<Rightarrow> (fn_context \<times> 'h fn_heap) option" where
  "impl_control op ctx hp =
     (case ctx of
        Impl_Context a \<Rightarrow>
          (case op of
             DUPLICATE \<Rightarrow> map_option (\<lambda>(b, hp). (Impl_Context b, hp)) (impl_duplicate a hp)
           | CLONE \<Rightarrow> map_option (\<lambda>(b, hp). (Impl_Context b, hp)) (impl_clone a hp)
           | RELEASE \<Rightarrow> map_option (\<lambda>hp. (Null_Context, hp)) (impl_release a hp))
      | _ \<Rightarrow> None)"

definition function_ptr_control :: "handler_ops \<Rightarrow> fn_context \<Rightarrow> 'h fn_heap \<Rightarrow> (fn_context \<times> 'h fn_heap) option" where
  "function_ptr_control op ctx hp = Some (ctx, hp)"

text \<open>\<open>_control( op , ctx )\<close>, a call through the pointer.\<close>

definition fn_control :: "fn_code \<Rightarrow> handler_ops \<Rightarrow> fn_context \<Rightarrow> 'h fn_heap \<Rightarrow> (fn_context \<times> 'h fn_heap) option" where
  "fn_control c op ctx hp =
     (case c of No_Code \<Rightarrow> None | Ptr_Code \<Rightarrow> function_ptr_control op ctx hp | Impl_Code \<Rightarrow> impl_control op ctx hp)"

subsection \<open>Function objects\<close>

definition fn_default :: fn_object where
  "fn_default = \<lparr>fn_context = Null_Context, fn_call_code = Ptr_Code, fn_control_code = Ptr_Code\<rparr>"

text \<open>A pointer to a plain function, zero being the null pointer.\<close>

definition fn_raw :: "nat \<Rightarrow> fn_object" where
  "fn_raw p = \<lparr>fn_context = (if p = 0 then Null_Context else Raw_Context p), fn_call_code = Ptr_Code, fn_control_code = Ptr_Code\<rparr>"

definition fn_handler :: "'h \<Rightarrow> 'h fn_heap \<Rightarrow> fn_object \<times> 'h fn_heap" where
  "fn_handler h hp =
     (let (a, hp) = impl_new h hp
      in (\<lparr>fn_context = Impl_Context a, fn_call_code = Impl_Code, fn_control_code = Impl_Code\<rparr>, hp))"

definition fn_copy :: "fn_object \<Rightarrow> 'h fn_heap \<Rightarrow> (fn_object \<times> 'h fn_heap) option" where
  "fn_copy rhs hp =
     map_option (\<lambda>(ctx, hp). (\<lparr>fn_context = ctx, fn_call_code = fn_call_code rhs, fn_control_code = fn_control_code rhs\<rparr>, hp))
       (fn_control (fn_control_code rhs) DUPLICATE (fn_context rhs) hp)"

definition fn_moved :: fn_object where
  "fn_moved = \<lparr>fn_context = Null_Context, fn_call_code = No_Code, fn_control_code = No_Code\<rparr>"

text \<open>\<open>swap\<close> exchanges all three members; the move constructor swaps with an empty object.\<close>

definition fn_swap :: "fn_object \<Rightarrow> fn_object \<Rightarrow> fn_object \<times> fn_object" where
  "fn_swap f g = (g, f)"

definition fn_move :: "fn_object \<Rightarrow> fn_object \<times> fn_object" where
  "fn_move rhs = fn_swap fn_moved rhs"

definition fn_destroy :: "fn_object \<Rightarrow> 'h fn_heap \<Rightarrow> 'h fn_heap option" where
  "fn_destroy f hp =
     (if fn_context f \<noteq> Null_Context \<and> fn_control_code f \<noteq> No_Code
      then map_option snd (fn_control (fn_control_code f) RELEASE (fn_context f) hp)
      else Some hp)"

text \<open>The assignments. The local \<open>f\<close> holds the old value and is destroyed at the end.\<close>

definition fn_assign_raw :: "nat \<Rightarrow> fn_object \<Rightarrow> 'h fn_heap \<Rightarrow> (fn_object \<times> 'h fn_heap) option" where
  "fn_assign_raw p this hp =
     (let f = fn_raw p; (this, f) = fn_swap this f
      in map_option (\<lambda>hp. (this, hp)) (fn_destroy f hp))"

definition fn_assign_handler :: "'h \<Rightarrow> fn_object \<Rightarrow> 'h fn_heap \<Rightarrow> (fn_object \<times> 'h fn_heap) option" where
  "fn_assign_handler h this hp =
     (let (f, hp) = fn_handler h hp; (this, f) = fn_swap this f
      in map_option (\<lambda>hp. (this, hp)) (fn_destroy f hp))"

definition fn_assign_copy :: "fn_object \<Rightarrow> fn_object \<Rightarrow> 'h fn_heap \<Rightarrow> (fn_object \<times> 'h fn_heap) option" where
  "fn_assign_copy rhs this hp =
     (if fn_context this = fn_context rhs then Some (this, hp)
      else let (f, this) = fn_move this
           in Option.bind (fn_control (fn_control_code rhs) DUPLICATE (fn_context rhs) hp) (\<lambda>(ctx, hp).
                let this = \<lparr>fn_context = ctx, fn_call_code = fn_call_code rhs, fn_control_code = fn_control_code rhs\<rparr>
                in map_option (\<lambda>hp. (this, hp)) (fn_destroy f hp)))"

text \<open>The move assignment also changes the right side.\<close>

definition fn_assign_move :: "fn_object \<Rightarrow> fn_object \<Rightarrow> 'h fn_heap \<Rightarrow> (fn_object \<times> fn_object \<times> 'h fn_heap) option" where
  "fn_assign_move rhs this hp =
     (if fn_context this = fn_context rhs then Some (this, rhs, hp)
      else let (f, this) = fn_move this; (this, rhs) = fn_swap this rhs
           in map_option (\<lambda>hp. (this, rhs, hp)) (fn_destroy f hp))"

definition fn_clone :: "fn_object \<Rightarrow> 'h fn_heap \<Rightarrow> (fn_object \<times> 'h fn_heap) option" where
  "fn_clone f hp =
     map_option (\<lambda>(ctx, hp). (\<lparr>fn_context = ctx, fn_call_code = fn_call_code f, fn_control_code = fn_control_code f\<rparr>, hp))
       (fn_control (fn_control_code f) CLONE (fn_context f) hp)"

text \<open>What a call runs: nothing (the default value of the result type), a plain function, or a handler.\<close>

datatype 'h callee = No_Call | Code nat | Handler 'h

definition fn_call :: "fn_object \<Rightarrow> 'h fn_heap \<Rightarrow> 'h callee option" where
  "fn_call f hp =
     (if fn_context f \<noteq> Null_Context
      then (case fn_call_code f of
              No_Code \<Rightarrow> None
            | Ptr_Code \<Rightarrow> (case fn_context f of Raw_Context p \<Rightarrow> Some (Code p) | _ \<Rightarrow> None)
            | Impl_Code \<Rightarrow>
                (case fn_context f of
                   Impl_Context a \<Rightarrow> map_option (\<lambda>im. Handler (im_handler im)) (fh_impls hp a)
                 | _ \<Rightarrow> None))
      else Some No_Call)"

subsection \<open>Programs with function objects\<close>

text \<open>Statements on variables that hold function objects.\<close>

datatype 'h fn_stmt =
    New_Default nat
  | New_Raw nat nat
  | New_Handler nat 'h
  | New_Copy nat nat
  | New_Move nat nat
  | New_Clone nat nat
  | Set_Raw nat nat
  | Set_Handler nat 'h
  | Set_Copy nat nat
  | Set_Move nat nat
  | Swap nat nat
  | Destroy nat

record 'h fn_state =
  fs_heap :: "'h fn_heap"
  fs_vars :: "nat \<Rightarrow> fn_object option"

definition fn_start :: "'h fn_state" where
  "fn_start = \<lparr>fs_heap = \<lparr>fh_impls = (\<lambda>a. None), fh_next = 0\<rparr>, fs_vars = (\<lambda>v. None)\<rparr>"

text \<open>The variables a statement needs: live ones, and for a constructor one that is not.\<close>

fun fn_ready :: "'h fn_stmt \<Rightarrow> 'h fn_state \<Rightarrow> bool" where
  "fn_ready (New_Default v) st = (fs_vars st v = None)"
| "fn_ready (New_Raw v p) st = (fs_vars st v = None)"
| "fn_ready (New_Handler v h) st = (fs_vars st v = None)"
| "fn_ready (New_Copy v w) st = (fs_vars st v = None \<and> fs_vars st w \<noteq> None)"
| "fn_ready (New_Move v w) st = (fs_vars st v = None \<and> fs_vars st w \<noteq> None)"
| "fn_ready (New_Clone v w) st = (fs_vars st v = None \<and> fs_vars st w \<noteq> None)"
| "fn_ready (Set_Raw v p) st = (fs_vars st v \<noteq> None)"
| "fn_ready (Set_Handler v h) st = (fs_vars st v \<noteq> None)"
| "fn_ready (Set_Copy v w) st = (fs_vars st v \<noteq> None \<and> fs_vars st w \<noteq> None)"
| "fn_ready (Set_Move v w) st = (fs_vars st v \<noteq> None \<and> fs_vars st w \<noteq> None)"
| "fn_ready (Swap v w) st = (fs_vars st v \<noteq> None \<and> fs_vars st w \<noteq> None)"
| "fn_ready (Destroy v) st = (fs_vars st v \<noteq> None)"

definition put_var :: "nat \<Rightarrow> fn_object \<times> 'h fn_heap \<Rightarrow> 'h fn_state \<Rightarrow> 'h fn_state" where
  "put_var v r st = st\<lparr>fs_vars := (fs_vars st)(v \<mapsto> fst r), fs_heap := snd r\<rparr>"

fun fn_exec :: "'h fn_stmt \<Rightarrow> 'h fn_state \<Rightarrow> 'h fn_state option" where
  "fn_exec (New_Default v) st = Some (put_var v (fn_default, fs_heap st) st)"
| "fn_exec (New_Raw v p) st = Some (put_var v (fn_raw p, fs_heap st) st)"
| "fn_exec (New_Handler v h) st = Some (put_var v (fn_handler h (fs_heap st)) st)"
| "fn_exec (New_Copy v w) st = map_option (\<lambda>r. put_var v r st) (fn_copy (the (fs_vars st w)) (fs_heap st))"
| "fn_exec (New_Move v w) st =
     (let (f, g) = fn_move (the (fs_vars st w)) in Some (st\<lparr>fs_vars := (fs_vars st)(v \<mapsto> f, w \<mapsto> g)\<rparr>))"
| "fn_exec (New_Clone v w) st = map_option (\<lambda>r. put_var v r st) (fn_clone (the (fs_vars st w)) (fs_heap st))"
| "fn_exec (Set_Raw v p) st = map_option (\<lambda>r. put_var v r st) (fn_assign_raw p (the (fs_vars st v)) (fs_heap st))"
| "fn_exec (Set_Handler v h) st = map_option (\<lambda>r. put_var v r st) (fn_assign_handler h (the (fs_vars st v)) (fs_heap st))"
| "fn_exec (Set_Copy v w) st =
     map_option (\<lambda>r. put_var v r st) (fn_assign_copy (the (fs_vars st w)) (the (fs_vars st v)) (fs_heap st))"
| "fn_exec (Set_Move v w) st =
     map_option (\<lambda>(f, g, hp). st\<lparr>fs_vars := (fs_vars st)(w \<mapsto> g, v \<mapsto> f), fs_heap := hp\<rparr>)
       (fn_assign_move (the (fs_vars st w)) (the (fs_vars st v)) (fs_heap st))"
| "fn_exec (Swap v w) st =
     (let (f, g) = fn_swap (the (fs_vars st v)) (the (fs_vars st w)) in Some (st\<lparr>fs_vars := (fs_vars st)(v \<mapsto> f, w \<mapsto> g)\<rparr>))"
| "fn_exec (Destroy v) st =
     map_option (\<lambda>hp. st\<lparr>fs_vars := (fs_vars st)(v := None), fs_heap := hp\<rparr>) (fn_destroy (the (fs_vars st v)) (fs_heap st))"

inductive fn_reach :: "'h fn_state \<Rightarrow> bool" where
  Fn_Start: "fn_reach fn_start"
| Fn_Step: "fn_reach st \<Longrightarrow> fn_ready s st \<Longrightarrow> fn_exec s st = Some st' \<Longrightarrow> fn_reach st'"

section \<open>Counting users\<close>

text \<open>The three kinds of function objects: empty, moved from, or with a context of the kind of its code.\<close>

definition obj_ok :: "fn_object \<Rightarrow> bool" where
  "obj_ok f \<longleftrightarrow> fn_call_code f = fn_control_code f \<and>
     (case fn_context f of
        Null_Context \<Rightarrow> fn_control_code f \<noteq> Impl_Code
      | Raw_Context p \<Rightarrow> fn_control_code f = Ptr_Code
      | Impl_Context a \<Rightarrow> fn_control_code f = Impl_Code)"

definition use_of :: "fn_object \<Rightarrow> nat \<Rightarrow> nat" where
  "use_of f a = of_bool (fn_context f = Impl_Context a)"

definition uses :: "(nat \<Rightarrow> fn_object option) \<Rightarrow> nat \<Rightarrow> nat" where
  "uses m a = (\<Sum>v\<in>dom m. use_of (the (m v)) a)"

text \<open>Every handler is used, as often as its count says, and nothing uses a deleted one.\<close>

definition heap_ok :: "'h fn_heap \<Rightarrow> (nat \<Rightarrow> nat) \<Rightarrow> bool" where
  "heap_ok hp u \<longleftrightarrow>
     (\<forall>a im. fh_impls hp a = Some im \<longrightarrow> a < fh_next hp \<and> 0 < u a \<and> ref_count im = int (u a)) \<and>
     (\<forall>a. fh_impls hp a = None \<longrightarrow> u a = 0)"

definition fn_inv :: "'h fn_state \<Rightarrow> bool" where
  "fn_inv st \<longleftrightarrow> finite (dom (fs_vars st)) \<and> (\<forall>v f. fs_vars st v = Some f \<longrightarrow> obj_ok f) \<and>
     heap_ok (fs_heap st) (uses (fs_vars st))"

text \<open>Handlers do not change, and addresses are not used again.\<close>

definition kept :: "'h fn_heap \<Rightarrow> 'h fn_heap \<Rightarrow> bool" where
  "kept hp hp' \<longleftrightarrow> fh_next hp \<le> fh_next hp' \<and>
     (\<forall>a im'. a < fh_next hp \<longrightarrow> fh_impls hp' a = Some im' \<longrightarrow> (\<exists>im. fh_impls hp a = Some im \<and> im_handler im' = im_handler im))"

definition fn_value :: "fn_object \<Rightarrow> 'h fn_heap \<Rightarrow> 'h callee" where
  "fn_value f hp =
     (case fn_context f of
        Null_Context \<Rightarrow> No_Call
      | Raw_Context p \<Rightarrow> Code p
      | Impl_Context a \<Rightarrow> Handler (im_handler (the (fh_impls hp a))))"

lemma kept_refl [simp]: "kept hp hp"
  by (simp add: kept_def)

lemma kept_trans: "kept hp hp' \<Longrightarrow> kept hp' hp'' \<Longrightarrow> kept hp hp''"
  unfolding kept_def by (metis le_trans less_le_trans)

lemma heap_okD:
  assumes "heap_ok hp u" and "0 < u a"
  obtains im where "fh_impls hp a = Some im" and "ref_count im = int (u a)" and "a < fh_next hp"
  using assms unfolding heap_ok_def by (cases "fh_impls hp a") auto

lemma heap_ok_fresh: "heap_ok hp u \<Longrightarrow> u (fh_next hp) = 0"
  unfolding heap_ok_def by (cases "fh_impls hp (fh_next hp)") auto

lemma use_of_self: "fn_context f = Impl_Context a \<Longrightarrow> use_of f a = 1"
  by (simp add: use_of_def)

lemma use_of_none: "(\<And>a. fn_context f \<noteq> Impl_Context a) \<Longrightarrow> use_of f = (\<lambda>a. 0)"
  by (auto simp: use_of_def)

lemma fn_value_kept:
  assumes "kept hp hp'" and "heap_ok hp u" and "heap_ok hp' u'"
    and "\<And>a. use_of f a \<le> u a" and "\<And>a. use_of f a \<le> u' a"
  shows "fn_value f hp' = fn_value f hp"
proof (cases "fn_context f")
  case (Impl_Context a)
  have "0 < u a" "0 < u' a" using assms(4,5) [of a] Impl_Context by (simp_all add: use_of_def)
  then show ?thesis
    using assms(1) Impl_Context by (elim heap_okD [OF assms(2)] heap_okD [OF assms(3)]) (auto simp: fn_value_def kept_def)
qed (simp_all add: fn_value_def)

lemma fn_call_value:
  assumes "obj_ok f" and "heap_ok hp u" and "\<And>a. use_of f a \<le> u a"
  shows "fn_call f hp = Some (fn_value f hp)"
proof (cases "fn_context f")
  case (Impl_Context a)
  have "0 < u a" using assms(3) [of a] Impl_Context by (simp add: use_of_def)
  then show ?thesis
    using assms(1) Impl_Context by (elim heap_okD [OF assms(2)]) (simp add: fn_call_def fn_value_def obj_ok_def)
qed (use assms(1) in \<open>auto simp: fn_call_def fn_value_def obj_ok_def split: fn_code.splits\<close>)

subsection \<open>The users of a map of variables\<close>

lemma uses_other:
  "finite (dom m) \<Longrightarrow> m v = Some f \<Longrightarrow> uses m a = uses (m(v := None)) a + use_of f a"
  unfolding uses_def by (subst sum.remove [of _ v]) (auto intro!: sum.cong simp: add.commute)

lemma uses_put: "finite (dom m) \<Longrightarrow> uses (m(v \<mapsto> f)) a = uses (m(v := None)) a + use_of f a"
  using uses_other [of "m(v \<mapsto> f)" v f a] by simp

lemma uses_le: "finite (dom m) \<Longrightarrow> m v = Some f \<Longrightarrow> use_of f a \<le> uses m a"
  by (simp add: uses_other)

lemma uses_empty [simp]: "uses (\<lambda>v. None) a = 0"
  by (simp add: uses_def)

subsection \<open>Operations on one object\<close>

lemma fn_handler_step:
  assumes "heap_ok hp u" and "fn_handler h hp = (f, hp')"
  shows "obj_ok f \<and> heap_ok hp' (\<lambda>a. u a + use_of f a) \<and> kept hp hp' \<and> fn_value f hp' = Handler h"
proof -
  have n: "u (fh_next hp) = 0" by (rule heap_ok_fresh [OF assms(1)])
  have "fh_impls hp (fh_next hp) = None" using assms(1) n unfolding heap_ok_def
    by (cases "fh_impls hp (fh_next hp)") auto
  then show ?thesis
    using assms n by (auto simp: fn_handler_def impl_new_def obj_ok_def heap_ok_def kept_def fn_value_def use_of_def less_SucI
        split: option.splits if_splits)
qed

lemma impl_duplicate_step:
  assumes h: "heap_ok hp u" and u: "0 < u a"
  shows "\<exists>hp'. impl_duplicate a hp = Some (a, hp') \<and> heap_ok hp' (u(a := u a + 1)) \<and> kept hp hp'"
proof -
  obtain im where im: "fh_impls hp a = Some im" "ref_count im = int (u a)" "a < fh_next hp" using heap_okD [OF h u] by blast
  then show ?thesis using h by (auto simp: impl_duplicate_def heap_ok_def kept_def)
qed

lemma impl_release_step:
  assumes h: "heap_ok hp u" and u: "0 < u a"
  shows "\<exists>hp'. impl_release a hp = Some hp' \<and> heap_ok hp' (u(a := u a - 1)) \<and> kept hp hp'"
proof -
  obtain im where im: "fh_impls hp a = Some im" "ref_count im = int (u a)" "a < fh_next hp" using heap_okD [OF h u] by blast
  obtain n where "u a = Suc n" using u by (cases "u a") auto
  then show ?thesis using im h by (auto simp: impl_release_def heap_ok_def kept_def)
qed

lemma use_add: "fn_context f = Impl_Context a \<Longrightarrow> (\<lambda>b. u b + use_of f b) = u(a := u a + 1)"
  by (auto simp: use_of_def)

lemma fn_copy_step:
  assumes h: "heap_ok hp u" and f: "obj_ok f" and u: "\<And>a. use_of f a \<le> u a" and n: "fn_control_code f \<noteq> No_Code"
  shows "\<exists>g hp'. fn_copy f hp = Some (g, hp') \<and> obj_ok g \<and> fn_context g = fn_context f \<and>
    heap_ok hp' (\<lambda>a. u a + use_of g a) \<and> kept hp hp' \<and> fn_value g hp' = fn_value f hp"
proof (cases "fn_context f")
  case (Impl_Context a)
  have "0 < u a" using u [of a] Impl_Context by (simp add: use_of_def)
  from impl_duplicate_step [OF h this] obtain hp' where d: "impl_duplicate a hp = Some (a, hp')" "heap_ok hp' (u(a := u a + 1))" "kept hp hp'"
    by blast
  let ?g = "\<lparr>fn_context = Impl_Context a, fn_call_code = fn_call_code f, fn_control_code = fn_control_code f\<rparr>"
  have c: "fn_copy f hp = Some (?g, hp')"
    using d(1) Impl_Context f by (simp add: fn_copy_def fn_control_def impl_control_def obj_ok_def)
  have ok: "heap_ok hp' (\<lambda>b. u b + use_of ?g b)" using d(2) use_add [of ?g a u] by simp
  have "fn_value ?g hp' = fn_value ?g hp"
    using u Impl_Context by (intro fn_value_kept [OF d(3) h ok]) (auto simp: use_of_def)
  then have v: "fn_value ?g hp' = fn_value f hp" using Impl_Context by (simp add: fn_value_def)
  have "obj_ok ?g" using f Impl_Context by (simp add: obj_ok_def)
  then show ?thesis using c ok v d(3) Impl_Context by auto
qed (use h f n in \<open>auto simp: fn_copy_def fn_control_def function_ptr_control_def obj_ok_def use_of_def fn_value_def split: fn_code.splits\<close>)

lemma fn_clone_step:
  assumes h: "heap_ok hp u" and f: "obj_ok f" and u: "\<And>a. use_of f a \<le> u a" and n: "fn_control_code f \<noteq> No_Code"
  shows "\<exists>g hp'. fn_clone f hp = Some (g, hp') \<and> obj_ok g \<and>
    heap_ok hp' (\<lambda>a. u a + use_of g a) \<and> kept hp hp' \<and> fn_value g hp' = fn_value f hp"
proof (cases "fn_context f")
  case (Impl_Context a)
  have "0 < u a" using u [of a] Impl_Context by (simp add: use_of_def)
  then obtain im where im: "fh_impls hp a = Some im" by (rule heap_okD [OF h])
  obtain g hp' where g: "fn_handler (im_handler im) hp = (g, hp')" by fastforce
  have "fn_clone f hp = Some (g, hp')"
    using g im Impl_Context f
    by (auto simp: fn_clone_def fn_control_def impl_control_def impl_clone_def fn_handler_def obj_ok_def split: prod.splits)
  moreover have "fn_value f hp = Handler (im_handler im)" using im Impl_Context by (simp add: fn_value_def)
  ultimately show ?thesis using fn_handler_step [OF h g] by auto
qed (use h f n in \<open>auto simp: fn_clone_def fn_control_def function_ptr_control_def obj_ok_def use_of_def fn_value_def split: fn_code.splits\<close>)

lemma no_control: "fn_control_code f = No_Code \<Longrightarrow> fn_copy f hp = None \<and> fn_clone f hp = None"
  by (simp add: fn_copy_def fn_clone_def fn_control_def)

lemma fn_destroy_step:
  assumes h: "heap_ok hp (\<lambda>a. u a + use_of f a)" and f: "obj_ok f"
  shows "\<exists>hp'. fn_destroy f hp = Some hp' \<and> heap_ok hp' u \<and> kept hp hp'"
proof (cases "fn_context f")
  case (Impl_Context a)
  have "0 < u a + use_of f a" using Impl_Context by (simp add: use_of_def)
  from impl_release_step [OF h this] obtain hp' where d: "impl_release a hp = Some hp'"
    "heap_ok hp' ((\<lambda>a. u a + use_of f a)(a := u a + use_of f a - 1))" "kept hp hp'" by blast
  have "(\<lambda>a. u a + use_of f a)(a := u a + use_of f a - 1) = u" using Impl_Context by (auto simp: use_of_def)
  then show ?thesis
    using d Impl_Context f by (simp add: fn_destroy_def fn_control_def impl_control_def obj_ok_def)
qed (use h f in \<open>auto simp: fn_destroy_def fn_control_def function_ptr_control_def obj_ok_def use_of_def split: fn_code.splits\<close>)

section \<open>Statements\<close>

text \<open>Copying from an object that was moved from calls its null \<open>_control\<close>; this is the only failure.\<close>

definition moved_from :: "nat \<Rightarrow> 'h fn_state \<Rightarrow> bool" where
  "moved_from w st \<longleftrightarrow> fn_control_code (the (fs_vars st w)) = No_Code"

definition same_context :: "nat \<Rightarrow> nat \<Rightarrow> 'h fn_state \<Rightarrow> bool" where
  "same_context v w st \<longleftrightarrow> fn_context (the (fs_vars st v)) = fn_context (the (fs_vars st w))"

fun copies_moved :: "'h fn_stmt \<Rightarrow> 'h fn_state \<Rightarrow> bool" where
  "copies_moved (New_Copy v w) st = moved_from w st"
| "copies_moved (New_Clone v w) st = moved_from w st"
| "copies_moved (Set_Copy v w) st = (\<not> same_context v w st \<and> moved_from w st)"
| "copies_moved _ st = False"

text \<open>The values of the variables, and what a statement does to them: assigning copies, moving empties.\<close>

definition fn_values :: "'h fn_state \<Rightarrow> nat \<Rightarrow> 'h callee option" where
  "fn_values st v = map_option (\<lambda>f. fn_value f (fs_heap st)) (fs_vars st v)"

fun value_step :: "bool \<Rightarrow> 'h fn_stmt \<Rightarrow> (nat \<Rightarrow> 'h callee option) \<Rightarrow> nat \<Rightarrow> 'h callee option" where
  "value_step same (New_Default v) m = m(v \<mapsto> No_Call)"
| "value_step same (New_Raw v p) m = m(v \<mapsto> (if p = 0 then No_Call else Code p))"
| "value_step same (New_Handler v h) m = m(v \<mapsto> Handler h)"
| "value_step same (New_Copy v w) m = m(v := m w)"
| "value_step same (New_Move v w) m = m(v := m w, w \<mapsto> No_Call)"
| "value_step same (New_Clone v w) m = m(v := m w)"
| "value_step same (Set_Raw v p) m = m(v \<mapsto> (if p = 0 then No_Call else Code p))"
| "value_step same (Set_Handler v h) m = m(v \<mapsto> Handler h)"
| "value_step same (Set_Copy v w) m = m(v := m w)"
| "value_step same (Set_Move v w) m = (if same then m else m(v := m w, w \<mapsto> No_Call))"
| "value_step same (Swap v w) m = m(v := m w, w := m v)"
| "value_step same (Destroy v) m = m(v := None)"

text \<open>Writing one object: the others keep their values.\<close>

lemma fn_invD:
  assumes "fn_inv st"
  shows "finite (dom (fs_vars st))" and "fs_vars st v = Some f \<Longrightarrow> obj_ok f"
    and "heap_ok (fs_heap st) (uses (fs_vars st))"
  using assms by (auto simp: fn_inv_def)

lemma fn_write_step:
  assumes i: "fn_inv st" and k: "kept (fs_heap st) hp" and fin: "finite (dom m)" and ok: "\<And>v f. m v = Some f \<Longrightarrow> obj_ok f"
    and h: "heap_ok hp (uses m)"
    and same: "\<And>v f. v \<notin> vs \<Longrightarrow> m v = Some f \<Longrightarrow> fs_vars st v = Some f"
  shows "fn_inv (st\<lparr>fs_vars := m, fs_heap := hp\<rparr>) \<and>
    (\<forall>v f. v \<notin> vs \<longrightarrow> m v = Some f \<longrightarrow> fn_value f hp = fn_value f (fs_heap st))"
proof (intro conjI allI impI)
  show "fn_inv (st\<lparr>fs_vars := m, fs_heap := hp\<rparr>)" using fin ok h by (simp add: fn_inv_def)
  fix v f
  assume v: "v \<notin> vs" "m v = Some f"
  show "fn_value f hp = fn_value f (fs_heap st)"
    using uses_le [OF fn_invD(1) [OF i] same [OF v]] uses_le [OF fin v(2)]
    by (intro fn_value_kept [OF k fn_invD(3) [OF i] h])
qed

text \<open>A new or a changed variable.\<close>

lemma fn_put_step:
  assumes i: "fn_inv st" and k: "kept (fs_heap st) hp" and f: "obj_ok f"
    and h: "heap_ok hp (\<lambda>a. uses ((fs_vars st)(v := None)) a + use_of f a)"
  shows "fn_inv (put_var v (f, hp) st) \<and> fn_values (put_var v (f, hp) st) = (fn_values st)(v \<mapsto> fn_value f hp)"
proof -
  let ?m = "(fs_vars st)(v \<mapsto> f)"
  have fin: "finite (dom ?m)" using fn_invD(1) [OF i] by simp
  have "uses ?m = (\<lambda>a. uses ((fs_vars st)(v := None)) a + use_of f a)" using fn_invD(1) [OF i] by (auto simp: uses_put)
  then have w: "fn_inv (st\<lparr>fs_vars := ?m, fs_heap := hp\<rparr>) \<and>
    (\<forall>u g. u \<notin> {v} \<longrightarrow> ?m u = Some g \<longrightarrow> fn_value g hp = fn_value g (fs_heap st))"
    using f h fn_invD(2) [OF i] by (intro fn_write_step [OF i k fin]) (auto split: if_splits)
  have "fn_values (put_var v (f, hp) st) u = ((fn_values st)(v \<mapsto> fn_value f hp)) u" for u
    using w by (cases "u = v"; cases "fs_vars st u") (auto simp: fn_values_def put_var_def)
  then show ?thesis using w by (auto simp: put_var_def)
qed

lemma put_new:
  assumes "fn_inv st" and "fs_vars st v = None" and "kept (fs_heap st) hp" and "obj_ok f"
    and "heap_ok hp (\<lambda>a. uses (fs_vars st) a + use_of f a)"
  shows "fn_inv (put_var v (f, hp) st) \<and> fn_values (put_var v (f, hp) st) = (fn_values st)(v \<mapsto> fn_value f hp)"
  using assms by (intro fn_put_step) (simp_all add: fun_upd_idem)

lemma put_same:
  "fn_inv st \<Longrightarrow> fs_vars st v = Some f \<Longrightarrow> put_var v (f, fs_heap st) st = st"
  by (simp add: put_var_def fun_upd_idem)

text \<open>Replacing an object: the old one is destroyed last.\<close>

lemma fn_replace_step:
  assumes i: "fn_inv st" and v: "fs_vars st v = Some f0" and k: "kept (fs_heap st) hp1" and f: "obj_ok f"
    and h: "heap_ok hp1 (\<lambda>a. uses (fs_vars st) a + use_of f a)"
  shows "\<exists>hp. fn_destroy f0 hp1 = Some hp \<and> fn_inv (put_var v (f, hp) st) \<and>
    fn_values (put_var v (f, hp) st) = (fn_values st)(v \<mapsto> fn_value f hp1)"
proof -
  let ?u = "\<lambda>a. uses ((fs_vars st)(v := None)) a + use_of f a"
  have "(\<lambda>a. uses (fs_vars st) a + use_of f a) = (\<lambda>a. ?u a + use_of f0 a)"
    using uses_other [OF fn_invD(1) [OF i] v] by auto
  with h have h1: "heap_ok hp1 (\<lambda>a. ?u a + use_of f0 a)" by simp
  from fn_destroy_step [OF this fn_invD(2) [OF i v]] obtain hp where d: "fn_destroy f0 hp1 = Some hp" "heap_ok hp ?u" "kept hp1 hp"
    by blast
  have "fn_value f hp = fn_value f hp1" by (rule fn_value_kept [OF d(3) h1 d(2)]) simp_all
  then show ?thesis using fn_put_step [OF i kept_trans [OF k d(3)] f d(2)] d(1) by auto
qed

text \<open>Two objects at once, for moves and swaps.\<close>

lemma uses_pair:
  assumes "finite (dom m)" and "v \<noteq> w" and "m w = Some g"
  shows "uses (m(v := None)) a = uses (m(v := None, w := None)) a + use_of g a"
  using uses_other [of "m(v := None)" w g a] assms by simp

lemma fn_pair_step:
  assumes i: "fn_inv st" and n: "v \<noteq> w" and k: "kept (fs_heap st) hp" and ok: "obj_ok f" "obj_ok g"
    and h: "heap_ok hp (\<lambda>a. uses ((fs_vars st)(v := None, w := None)) a + use_of f a + use_of g a)"
  shows "fn_inv (st\<lparr>fs_vars := (fs_vars st)(v \<mapsto> f, w \<mapsto> g), fs_heap := hp\<rparr>) \<and>
    fn_values (st\<lparr>fs_vars := (fs_vars st)(v \<mapsto> f, w \<mapsto> g), fs_heap := hp\<rparr>) =
      (fn_values st)(v \<mapsto> fn_value f hp, w \<mapsto> fn_value g hp)"
proof -
  let ?m = "(fs_vars st)(v \<mapsto> f, w \<mapsto> g)"
  have fin: "finite (dom ?m)" using fn_invD(1) [OF i] by simp
  have "uses ?m a = uses ((fs_vars st)(v := None, w := None)) a + use_of f a + use_of g a" for a
    using uses_other [OF fin, of w g a] uses_other [of "?m(w := None)" v f a] fin n by (simp add: fun_upd_twist)
  then have "uses ?m = (\<lambda>a. uses ((fs_vars st)(v := None, w := None)) a + use_of f a + use_of g a)" by blast
  then have w: "fn_inv (st\<lparr>fs_vars := ?m, fs_heap := hp\<rparr>) \<and>
    (\<forall>u x. u \<notin> {v, w} \<longrightarrow> ?m u = Some x \<longrightarrow> fn_value x hp = fn_value x (fs_heap st))"
    using h fn_invD(2) [OF i] ok by (intro fn_write_step [OF i k fin]) (auto split: if_splits)
  have "fn_values (st\<lparr>fs_vars := ?m, fs_heap := hp\<rparr>) u = ((fn_values st)(v \<mapsto> fn_value f hp, w \<mapsto> fn_value g hp)) u" for u
    using w by (cases "u = v \<or> u = w"; cases "fs_vars st u") (auto simp: fn_values_def)
  then show ?thesis using w by blast
qed

lemma uses_two:
  assumes "finite (dom m)" and "v \<noteq> w" and "m v = Some f" and "m w = Some g"
  shows "uses m a = uses (m(v := None, w := None)) a + use_of f a + use_of g a"
  using uses_other [OF assms(1,3), of a] uses_pair [OF assms(1,2,4), of a] by simp

lemma moved_simps [simp]: "obj_ok fn_moved" "use_of fn_moved a = 0" "fn_value fn_moved hp = No_Call"
  by (simp_all add: fn_moved_def obj_ok_def use_of_def fn_value_def)

lemma raw_simps [simp]: "obj_ok (fn_raw p)" "use_of (fn_raw p) a = 0" "fn_value (fn_raw p) hp = (if p = 0 then No_Call else Code p)"
  by (simp_all add: fn_raw_def obj_ok_def use_of_def fn_value_def)

lemma default_simps [simp]: "obj_ok fn_default" "use_of fn_default a = 0" "fn_value fn_default hp = No_Call"
  by (simp_all add: fn_default_def obj_ok_def use_of_def fn_value_def)

fun same_objects :: "'h fn_stmt \<Rightarrow> 'h fn_state \<Rightarrow> bool" where
  "same_objects (Set_Move v w) st = same_context v w st"
| "same_objects _ st = False"

definition step_ok :: "'h fn_stmt \<Rightarrow> 'h fn_state \<Rightarrow> bool" where
  "step_ok s st \<longleftrightarrow> (fn_exec s st = None \<longleftrightarrow> copies_moved s st) \<and>
     (\<forall>st'. fn_exec s st = Some st' \<longrightarrow> fn_inv st' \<and> fn_values st' = value_step (same_objects s st) s (fn_values st))"

lemma new_steps:
  assumes i: "fn_inv st" and v: "fs_vars st v = None"
  shows "step_ok (New_Default v) st" and "step_ok (New_Raw v p) st" and "step_ok (New_Handler v h) st"
    and "fs_vars st w \<noteq> None \<Longrightarrow> step_ok (New_Copy v w) st" and "fs_vars st w \<noteq> None \<Longrightarrow> step_ok (New_Clone v w) st"
    and "fs_vars st w \<noteq> None \<Longrightarrow> step_ok (New_Move v w) st"
proof -
  note inv = fn_invD [OF i]
  show "step_ok (New_Default v) st" "step_ok (New_Raw v p) st"
    using put_new [OF i v kept_refl] inv(3) by (simp_all add: step_ok_def)
  obtain f hp where f: "fn_handler h (fs_heap st) = (f, hp)" by fastforce
  show "step_ok (New_Handler v h) st"
    using fn_handler_step [OF inv(3) f] put_new [OF i v, of hp f] f by (simp add: step_ok_def)
  {
    assume "fs_vars st w \<noteq> None"
    then obtain g where g: "fs_vars st w = Some g" by blast
    have u: "use_of g a \<le> uses (fs_vars st) a" for a by (rule uses_le [OF inv(1) g])
    have fw: "fn_values st w = Some (fn_value g (fs_heap st))" using g by (simp add: fn_values_def)
    show "step_ok (New_Copy v w) st"
      using no_control [of g "fs_heap st"] fn_copy_step [OF inv(3) inv(2) [OF g] u] put_new [OF i v] g fw
      by (cases "fn_control_code g = No_Code") (auto simp: step_ok_def moved_from_def)
    show "step_ok (New_Clone v w) st"
      using no_control [of g "fs_heap st"] fn_clone_step [OF inv(3) inv(2) [OF g] u] put_new [OF i v] g fw
      by (cases "fn_control_code g = No_Code") (auto simp: step_ok_def moved_from_def)
    have n: "v \<noteq> w" using v g by auto
    have "uses (fs_vars st) = (\<lambda>a. uses ((fs_vars st)(v := None, w := None)) a + use_of g a + use_of fn_moved a)"
      using uses_other [OF inv(1) g] v by (auto simp: fun_upd_idem)
    then have "heap_ok (fs_heap st) (\<lambda>a. uses ((fs_vars st)(v := None, w := None)) a + use_of g a + use_of fn_moved a)"
      using inv(3) by simp
    from fn_pair_step [OF i n kept_refl inv(2) [OF g] moved_simps(1) this] show "step_ok (New_Move v w) st"
      using g fw by (simp add: step_ok_def fn_move_def fn_swap_def)
  }
qed

lemma set_steps:
  assumes i: "fn_inv st" and v: "fs_vars st v = Some f0"
  shows "step_ok (Set_Raw v p) st" and "step_ok (Set_Handler v h) st" and "step_ok (Destroy v) st"
    and "fs_vars st w = Some g \<Longrightarrow> step_ok (Set_Copy v w) st" and "fs_vars st w = Some g \<Longrightarrow> step_ok (Set_Move v w) st"
    and "fs_vars st w = Some g \<Longrightarrow> step_ok (Swap v w) st"
proof -
  note inv = fn_invD [OF i]
  have vv: "fn_values st v = Some (fn_value f0 (fs_heap st))" using v by (simp add: fn_values_def)
  show "step_ok (Set_Raw v p) st"
    using fn_replace_step [OF i v kept_refl raw_simps(1) [of p]] inv(3) v
    by (auto simp: step_ok_def fn_assign_raw_def fn_swap_def Let_def)
  obtain f hp where f: "fn_handler h (fs_heap st) = (f, hp)" by fastforce
  show "step_ok (Set_Handler v h) st"
    using fn_handler_step [OF inv(3) f] fn_replace_step [OF i v, of hp f] f v
    by (auto simp: step_ok_def fn_assign_handler_def fn_swap_def Let_def)
  have "heap_ok (fs_heap st) (\<lambda>a. uses ((fs_vars st)(v := None)) a + use_of f0 a)"
    using inv(3) unfolding uses_other [OF inv(1) v, abs_def, symmetric] by simp
  from fn_destroy_step [OF this inv(2) [OF v]] obtain hp' where d: "fn_destroy f0 (fs_heap st) = Some hp'"
    "heap_ok hp' (uses ((fs_vars st)(v := None)))" "kept (fs_heap st) hp'" by blast
  have w: "fn_inv (st\<lparr>fs_vars := (fs_vars st)(v := None), fs_heap := hp'\<rparr>) \<and>
    (\<forall>u x. u \<notin> {} \<longrightarrow> ((fs_vars st)(v := None)) u = Some x \<longrightarrow> fn_value x hp' = fn_value x (fs_heap st))"
    using inv(1,2) d(2) by (intro fn_write_step [OF i d(3)]) (auto split: if_splits)
  have "fn_values (st\<lparr>fs_vars := (fs_vars st)(v := None), fs_heap := hp'\<rparr>) u = ((fn_values st)(v := None)) u" for u
  proof (cases "u = v")
    case False
    then have "fn_value x hp' = fn_value x (fs_heap st)" if "fs_vars st u = Some x" for x
      using conjunct2 [OF w, rule_format, of u x] that by simp
    then show ?thesis using False by (cases "fs_vars st u") (simp_all add: fn_values_def)
  qed (simp add: fn_values_def)
  then show "step_ok (Destroy v) st" using w d(1) v by (auto simp: step_ok_def)
  {
    assume g: "fs_vars st w = Some g"
    have fw: "fn_values st w = Some (fn_value g (fs_heap st))" using g by (simp add: fn_values_def)
    have u: "use_of g a \<le> uses (fs_vars st) a" for a by (rule uses_le [OF inv(1) g])
    have c: "fn_value f0 (fs_heap st) = fn_value g (fs_heap st)" if "fn_context f0 = fn_context g"
      using that by (simp add: fn_value_def)
    have id: "(fn_values st)(v := fn_values st w) = fn_values st" if "fn_context f0 = fn_context g"
      using c [OF that] vv fw by (simp add: fun_upd_idem)
    show "step_ok (Set_Copy v w) st"
    proof (cases "fn_context f0 = fn_context g \<or> fn_control_code g = No_Code")
      case True
      then show ?thesis
        using i v g id put_same [OF i v]
        by (auto simp: step_ok_def fn_assign_copy_def same_context_def moved_from_def fn_move_def fn_swap_def fn_control_def)
    next
      case False
      then obtain x hp1 where x: "fn_copy g (fs_heap st) = Some (x, hp1)" "obj_ok x"
        "heap_ok hp1 (\<lambda>a. uses (fs_vars st) a + use_of x a)" "kept (fs_heap st) hp1" "fn_value x hp1 = fn_value g (fs_heap st)"
        using fn_copy_step [OF inv(3) inv(2) [OF g] u] by blast
      from fn_replace_step [OF i v x(4,2,3)] obtain hp2 where "fn_destroy f0 hp1 = Some hp2" "fn_inv (put_var v (x, hp2) st)"
        "fn_values (put_var v (x, hp2) st) = (fn_values st)(v \<mapsto> fn_value x hp1)" by blast
      then show ?thesis
        using False x(1,5) v g fw
        by (auto simp: step_ok_def fn_assign_copy_def fn_copy_def same_context_def moved_from_def fn_move_def fn_swap_def Let_def)
    qed
    show "step_ok (Set_Move v w) st"
    proof (cases "fn_context f0 = fn_context g")
      case True
      then show ?thesis
        using i v g by (simp add: step_ok_def fn_assign_move_def same_context_def fun_upd_idem)
    next
      case False
      then have n: "v \<noteq> w" using v g by auto
      let ?u = "\<lambda>a. uses ((fs_vars st)(v := None, w := None)) a + use_of g a + use_of fn_moved a"
      have "uses (fs_vars st) = (\<lambda>a. ?u a + use_of f0 a)" using uses_two [OF inv(1) n v g] by auto
      then have "heap_ok (fs_heap st) (\<lambda>a. ?u a + use_of f0 a)" using inv(3) by simp
      from fn_destroy_step [OF this inv(2) [OF v]] obtain hp where d: "fn_destroy f0 (fs_heap st) = Some hp" "heap_ok hp ?u" "kept (fs_heap st) hp"
        by blast
      have e: "heap_ok (fs_heap st) (uses (fs_vars st))" by (rule inv(3))
      have "fn_value g hp = fn_value g (fs_heap st)" by (rule fn_value_kept [OF d(3) e d(2) u]) simp
      then show ?thesis
        using fn_pair_step [OF i n d(3) inv(2) [OF g] moved_simps(1) d(2)] d(1) False n v g fw
        by (simp add: step_ok_def fn_assign_move_def same_context_def fn_move_def fn_swap_def fun_upd_twist Let_def)
    qed
    show "step_ok (Swap v w) st"
    proof (cases "v = w")
      case True
      then show ?thesis using i v vv by (simp add: step_ok_def fn_swap_def fun_upd_idem)
    next
      case False
      have "heap_ok (fs_heap st) (\<lambda>a. uses ((fs_vars st)(v := None, w := None)) a + use_of g a + use_of f0 a)"
      proof -
        have "uses (fs_vars st) = (\<lambda>a. uses ((fs_vars st)(v := None, w := None)) a + use_of g a + use_of f0 a)"
          using uses_two [OF inv(1) False v g] by auto
        then show ?thesis using inv(3) by simp
      qed
      from fn_pair_step [OF i False kept_refl inv(2) [OF g] inv(2) [OF v] this] show ?thesis
        using v g vv fw by (simp add: step_ok_def fn_swap_def)
    qed
  }
qed

lemma exec_step: "fn_inv st \<Longrightarrow> fn_ready s st \<Longrightarrow> step_ok s st"
  using new_steps [of st] set_steps [of st] by (cases s) auto

lemma fn_reach_inv: "fn_reach st \<Longrightarrow> fn_inv st"
proof (induction rule: fn_reach.induct)
  case Fn_Start
  then show ?case by (simp add: fn_inv_def fn_start_def heap_ok_def)
next
  case (Fn_Step st s st')
  then show ?case using exec_step [of st s] by (auto simp: step_ok_def)
qed

section \<open>Properties\<close>

text \<open>
  C34. Function objects are values: in every reachable state each statement does to the variables what its kind says -
  a copy has the value of its source, a move takes it and leaves nothing, an assignment forgets the old value, a swap
  exchanges - and a call of a variable runs exactly its value. The only statement that fails copies an
  object that was moved from, whose \<open>_control\<close> is null. The value of a function is its handler; what a call
  changes in the state of the handler itself, which copies share, is outside the model.
\<close>

theorem functions_are_values:
  assumes "fn_reach st" and "fn_ready s st"
  shows "(fn_exec s st = None \<longleftrightarrow> copies_moved s st) \<and>
    (\<forall>st'. fn_exec s st = Some st' \<longrightarrow> fn_values st' = value_step (same_objects s st) s (fn_values st)) \<and>
    (\<forall>v f. fs_vars st v = Some f \<longrightarrow> fn_call f (fs_heap st) = fn_values st v)"
proof -
  have i: "fn_inv st" by (rule fn_reach_inv [OF assms(1)])
  have "fn_call f (fs_heap st) = fn_values st v" if "fs_vars st v = Some f" for v f
    using fn_call_value [OF fn_invD(2) [OF i that] fn_invD(3) [OF i]] uses_le [OF fn_invD(1) [OF i] that] that by (simp add: fn_values_def)
  then show ?thesis using exec_step [OF i assms(2)] by (auto simp: step_ok_def)
qed

text \<open>A handler shared by two objects, one of which takes over a plain function.\<close>

definition demo_fn :: "nat fn_state" where
  "demo_fn = the (fn_exec (New_Copy 1 0) (the (fn_exec (New_Handler 0 77) fn_start)))"

lemma demo_fn_reach: "fn_reach demo_fn"
proof -
  have h: "fn_exec (New_Handler 0 (77 :: nat)) fn_start = Some (the (fn_exec (New_Handler 0 77) fn_start))" by simp
  have "fn_reach (the (fn_exec (New_Handler 0 (77 :: nat)) fn_start))"
    by (rule Fn_Step [OF Fn_Start _ h]) (simp add: fn_start_def)
  then show ?thesis unfolding demo_fn_def
    by (rule Fn_Step [where s = "New_Copy 1 0"])
      (simp_all add: fn_start_def put_var_def fn_handler_def impl_new_def fn_copy_def fn_control_def impl_control_def impl_duplicate_def)
qed

lemma demo_fn_values: "fs_vars demo_fn 0 \<noteq> None \<and> fs_vars demo_fn 1 \<noteq> None \<and> fn_values demo_fn 0 = Some (Handler 77)"
  by (simp add: demo_fn_def fn_values_def fn_value_def fn_start_def put_var_def fn_handler_def impl_new_def fn_copy_def
      fn_control_def impl_control_def impl_duplicate_def)

theorem functions_are_values_witness:
  "\<exists>st'. fn_exec (Set_Raw 0 5) demo_fn = Some st' \<and> fn_values st' 0 = Some (Code 5) \<and> fn_values st' 1 = fn_values demo_fn 1"
proof -
  have "fn_ready (Set_Raw 0 5) demo_fn" using demo_fn_values by simp
  from functions_are_values [OF demo_fn_reach this] show ?thesis by (cases "fn_exec (Set_Raw 0 5) demo_fn") auto
qed

text \<open>
  No handler leaks and none is used after it was deleted: in every reachable state the handlers that exist are
  exactly those some variable's context points to, each counted as often as it is used; when the last variable is
  gone, so are all handlers.
\<close>

theorem function_handlers_counted:
  assumes "fn_reach st"
  shows "(fh_impls (fs_heap st) a \<noteq> None \<longleftrightarrow> (\<exists>v f. fs_vars st v = Some f \<and> fn_context f = Impl_Context a)) \<and>
    (\<forall>im. fh_impls (fs_heap st) a = Some im \<longrightarrow>
       ref_count im = int (card {v. \<exists>f. fs_vars st v = Some f \<and> fn_context f = Impl_Context a}))"
proof -
  have i: "fn_inv st" by (rule fn_reach_inv [OF assms])
  have fin: "finite (dom (fs_vars st))" by (rule fn_invD(1) [OF i])
  let ?S = "{v. \<exists>f. fs_vars st v = Some f \<and> fn_context f = Impl_Context a}"
  have s: "?S \<subseteq> dom (fs_vars st)" by auto
  have "uses (fs_vars st) a = (\<Sum>v\<in>dom (fs_vars st). if v \<in> ?S then 1 else 0)"
    unfolding uses_def by (intro sum.cong) (auto simp: use_of_def)
  also have "\<dots> = card (dom (fs_vars st) \<inter> ?S)" using fin by (subst sum.inter_restrict [symmetric]) simp_all
  also have "dom (fs_vars st) \<inter> ?S = ?S" using s by blast
  finally have u: "uses (fs_vars st) a = card ?S" .
  have "fh_impls (fs_heap st) a \<noteq> None \<longleftrightarrow> 0 < uses (fs_vars st) a"
    using fn_invD(3) [OF i] unfolding heap_ok_def by (cases "fh_impls (fs_heap st) a") auto
  moreover have "0 < card ?S \<longleftrightarrow> ?S \<noteq> {}" using finite_subset [OF s fin] by (simp add: card_gt_0_iff)
  ultimately show ?thesis using fn_invD(3) [OF i] u unfolding heap_ok_def by auto
qed

theorem function_handlers_counted_witness:
  "fh_impls (fs_heap demo_fn) 0 \<noteq> None \<and>
   (\<forall>im. fh_impls (fs_heap demo_fn) 0 = Some im \<longrightarrow>
      ref_count im = int (card {v. \<exists>f. fs_vars demo_fn v = Some f \<and> fn_context f = Impl_Context 0}))"
proof -
  have "fh_impls (fs_heap demo_fn) 0 \<noteq> None"
    by (simp add: demo_fn_def fn_start_def put_var_def fn_handler_def impl_new_def fn_copy_def fn_control_def impl_control_def impl_duplicate_def)
  then show ?thesis using function_handlers_counted [OF demo_fn_reach, of 0] by simp
qed

end
