(* ===== verification/Tcode_Error.thy ===== *)
theory Tcode_Error
  imports Tcode_Prelude
begin

text \<open>
  Error codes: the enumeration, its messages and the category of \<open>src/error.cpp\<close>, over the
  standard library's \<open>std::error_code\<close>, a value with a category whose test is "not zero". Only
  the POSIX branch is modelled.
\<close>

datatype category = Tcode_Category | Generic_Category | System_Category

record error_code =
  ec_value :: int
  ec_category :: category

text \<open>\<open>explicit operator bool\<close> and the default constructor.\<close>

definition has_error :: "error_code \<Rightarrow> bool" where
  "has_error ec \<longleftrightarrow> ec_value ec \<noteq> 0"

definition error_code_ctor :: error_code where
  "error_code_ctor = \<lparr>ec_value = 0, ec_category = System_Category\<rparr>"

datatype errc =
    err_success | err_disconnected | err_operation_aborted | err_invalid | err_pipeline_build_fail
  | err_timeout | err_openssl_handshake | err_openssl_bio_read | err_openssl_bio_write
  | err_openssl_ssl_read | err_openssl_ssl_write | err_max

fun errc_value :: "errc \<Rightarrow> int" where
  "errc_value err_success = 0"
| "errc_value err_disconnected = 1"
| "errc_value err_operation_aborted = 2"
| "errc_value err_invalid = 3"
| "errc_value err_pipeline_build_fail = 4"
| "errc_value err_timeout = 5"
| "errc_value err_openssl_handshake = 6"
| "errc_value err_openssl_bio_read = 7"
| "errc_value err_openssl_bio_write = 8"
| "errc_value err_openssl_ssl_read = 9"
| "errc_value err_openssl_ssl_write = 10"
| "errc_value err_max = 11"

definition errc_msg :: "string list" where
  "errc_msg =
     [''success'', ''disconnected'', ''operation_aborted'', ''invalid'', ''pipeline_build_fail'',
      ''timeout'', ''openssl_handshake'', ''openssl_bio_read'', ''openssl_bio_write'',
      ''openssl_ssl_read'', ''openssl_ssl_write'']"

definition tcode_error :: "errc \<Rightarrow> error_code" where
  "tcode_error e = \<lparr>ec_value = errc_value e, ec_category = Tcode_Category\<rparr>"

definition error_success :: error_code where "error_success = tcode_error err_success"
definition error_aborted :: error_code where "error_aborted = tcode_error err_operation_aborted"
definition error_disconnected :: error_code where "error_disconnected = tcode_error err_disconnected"
definition error_invalid :: error_code where "error_invalid = tcode_error err_invalid"
definition error_pipeline_build_fail :: error_code where
  "error_pipeline_build_fail = tcode_error err_pipeline_build_fail"
definition error_timeout :: error_code where "error_timeout = tcode_error err_timeout"
definition error_openssl_handshake :: error_code where
  "error_openssl_handshake = tcode_error err_openssl_handshake"
definition error_openssl_bio_read :: error_code where
  "error_openssl_bio_read = tcode_error err_openssl_bio_read"
definition error_openssl_bio_write :: error_code where
  "error_openssl_bio_write = tcode_error err_openssl_bio_write"
definition error_openssl_ssl_read :: error_code where
  "error_openssl_ssl_read = tcode_error err_openssl_ssl_read"
definition error_openssl_ssl_write :: error_code where
  "error_openssl_ssl_write = tcode_error err_openssl_ssl_write"

definition last_error :: "int \<Rightarrow> error_code" where
  "last_error errno = \<lparr>ec_value = errno, ec_category = Generic_Category\<rparr>"

definition category_name :: string where
  "category_name = ''tcode_category''"

definition category_message :: "int \<Rightarrow> string" where
  "category_message condition =
     (if errc_value err_success \<le> condition \<and> condition < errc_value err_max
      then errc_msg ! nat condition else ''unknown'')"

named_theorems error_codes \<open>the predefined error codes\<close>

lemmas error_defs [error_codes] =
  error_success_def error_aborted_def error_disconnected_def error_invalid_def
  error_pipeline_build_fail_def error_timeout_def error_openssl_handshake_def
  error_openssl_bio_read_def error_openssl_bio_write_def error_openssl_ssl_read_def
  error_openssl_ssl_write_def tcode_error_def has_error_def

lemma has_error_simps [simp]:
  "\<not> has_error error_success" "has_error error_aborted" "has_error error_disconnected"
  "has_error error_invalid" "has_error error_pipeline_build_fail" "has_error error_timeout"
  "\<not> has_error error_code_ctor"
  by (simp_all add: error_codes error_code_ctor_def)

lemma last_error_has: "has_error (last_error e) \<longleftrightarrow> e \<noteq> 0"
  by (simp add: last_error_def has_error_def)

lemma errc_value_range: "errc_value e = c \<Longrightarrow> e \<noteq> err_max \<Longrightarrow> 0 \<le> c \<and> c < 11"
  by (cases e) auto

lemma errc_value_inj: "errc_value e = errc_value f \<longleftrightarrow> e = f"
  by (cases e; cases f) auto

lemma errc_msg_distinct: "distinct (''unknown'' # errc_msg)"
  by (simp add: errc_msg_def)

text \<open>
  Every error of the library has a message of its own, different from the text for an unknown
  code, no message is read outside the table, and only the success code tests as no error.
\<close>

theorem error_messages:
  assumes "e \<noteq> err_max" and "f \<noteq> err_max"
  shows "category_message (errc_value e) \<in> set errc_msg \<and>
     (category_message (errc_value e) = category_message (errc_value f) \<longleftrightarrow> e = f) \<and>
     (c < 0 \<or> 11 \<le> c \<longrightarrow> category_message c = ''unknown'') \<and> ''unknown'' \<notin> set errc_msg \<and>
     (has_error (tcode_error e) \<longleftrightarrow> e \<noteq> err_success)"
proof -
  have len: "length errc_msg = 11" by (simp add: errc_msg_def)
  have at: "category_message (errc_value g) = errc_msg ! nat (errc_value g)" "0 \<le> errc_value g"
    "nat (errc_value g) < length errc_msg" if "g \<noteq> err_max" for g
    using errc_value_range [OF refl that] len by (auto simp: category_message_def)
  have "category_message (errc_value e) = category_message (errc_value f) \<longleftrightarrow> e = f"
    using at [OF assms(1)] at [OF assms(2)] errc_msg_distinct errc_value_inj [of e f]
    by (auto simp: nth_eq_iff_index_eq)
  moreover have "has_error (tcode_error e) \<longleftrightarrow> e \<noteq> err_success"
    by (cases e) (auto simp: tcode_error_def has_error_def)
  ultimately show ?thesis
    using at [OF assms(1)] errc_msg_distinct by (auto simp: category_message_def)
qed

theorem error_messages_witness:
  "category_message 5 = ''timeout'' \<and> category_message 11 = ''unknown'' \<and>
   category_message (errc_value err_timeout) \<noteq> category_message (errc_value err_invalid)"
  using error_messages [of err_timeout err_invalid 11] by (simp add: category_message_def errc_msg_def)

end
