(* ===== verification/Io_Operation.thy ===== *)
theory Io_Operation
  imports Tcode_Error
begin

text \<open>
  Scatter/gather buffers (\<open>src/io/buffer.cpp\<close>) and the asynchronous operations with their
  post-processing on readiness (\<open>src/io/operation.cpp\<close>, \<open>src/io/ip/tcp/operation_*.cpp\<close>,
  \<open>src/io/ip/udp/operation_*.cpp\<close>, POSIX branches). What the multiplexer's transfer call returned,
  a count and the error it leaves, is an argument of the post-processing.
\<close>

section \<open>Buffers\<close>

record buffer =
  iov_base :: int
  iov_len :: nat

definition buffer_set :: "buffer \<Rightarrow> int \<Rightarrow> int \<Rightarrow> buffer" where
  "buffer_set self buf len = self\<lparr>iov_base := buf, iov_len := to_size len\<rparr>"

definition buffer_buf :: "buffer \<Rightarrow> int" where
  "buffer_buf self = iov_base self"

definition buffer_len :: "buffer \<Rightarrow> int" where
  "buffer_len self = to_i32 (int (iov_len self))"

definition buffer_raw :: buffer where
  "buffer_raw = \<lparr>iov_base = 0, iov_len = 0\<rparr>"

definition buffer_ctor :: buffer where
  "buffer_ctor = buffer_set buffer_raw 0 0"

definition buffer_of_iovec :: "int \<Rightarrow> nat \<Rightarrow> buffer" where
  "buffer_of_iovec base len = buffer_set buffer_raw base (to_i32 (int len))"

definition buffer_copy :: "buffer \<Rightarrow> buffer" where
  "buffer_copy rhs = buffer_set buffer_raw (buffer_buf rhs) (buffer_len rhs)"

definition buffer_of :: "int \<Rightarrow> int \<Rightarrow> buffer" where
  "buffer_of buf len = buffer_set buffer_raw buf len"

definition buffer_assign :: "buffer \<Rightarrow> buffer \<Rightarrow> buffer" where
  "buffer_assign self rhs = buffer_set self (buffer_buf rhs) (buffer_len rhs)"

definition buffer_skip :: "buffer \<Rightarrow> int \<Rightarrow> buffer" where
  "buffer_skip self n = buffer_set self (buffer_buf self + n) (to_i32 (buffer_len self - n))"

section \<open>Operations\<close>

text \<open>The post-processing handler an operation is built with.\<close>

datatype post_proc_handler =
    Post_Read | Post_Read_Fixed_Len | Post_Write | Post_Accept | Post_Connect | Post_Udp_Read | Post_Udp_Write

text \<open>
  \<open>op_id\<close> names the operation object and its completion handler, \<open>op_socket\<close> the socket an accept
  fills in; \<open>op_count\<close> is \<open>_read\<close> or \<open>_write\<close>.
\<close>

record io_op =
  op_id :: nat
  op_post :: post_proc_handler
  op_error :: error_code
  op_buffers :: "buffer list"
  op_count :: int
  op_socket :: nat

definition operation_ctor :: "nat \<Rightarrow> post_proc_handler \<Rightarrow> io_op" where
  "operation_ctor i pph = \<lparr>op_id = i, op_post = pph, op_error = error_success, op_buffers = [],
     op_count = 0, op_socket = 0\<rparr>"

definition operation_read_base :: "nat \<Rightarrow> buffer list \<Rightarrow> bool \<Rightarrow> io_op" where
  "operation_read_base i bufs fixed_len =
     (operation_ctor i (if fixed_len then Post_Read_Fixed_Len else Post_Read))
       \<lparr>op_buffers := bufs, op_count := 0\<rparr>"

definition operation_write_base :: "nat \<Rightarrow> buffer list \<Rightarrow> io_op" where
  "operation_write_base i bufs = (operation_ctor i Post_Write)\<lparr>op_buffers := bufs, op_count := 0\<rparr>"

definition operation_accept_base :: "nat \<Rightarrow> nat \<Rightarrow> io_op" where
  "operation_accept_base i fd = (operation_ctor i Post_Accept)\<lparr>op_socket := fd\<rparr>"

definition operation_connect_base :: "nat \<Rightarrow> io_op" where
  "operation_connect_base i = operation_ctor i Post_Connect"

definition udp_operation_read_base :: "nat \<Rightarrow> buffer \<Rightarrow> io_op" where
  "udp_operation_read_base i buf = (operation_ctor i Post_Udp_Read)\<lparr>op_buffers := [buf], op_count := 0\<rparr>"

definition udp_operation_write_base :: "nat \<Rightarrow> buffer \<Rightarrow> io_op" where
  "udp_operation_write_base i buf = (operation_ctor i Post_Udp_Write)\<lparr>op_buffers := [buf], op_count := 0\<rparr>"

text \<open>
  The loop after a partial transfer: skip the transferred bytes, buffer by buffer, and add up what
  remains.
\<close>

fun skip_loop :: "buffer list \<Rightarrow> int \<Rightarrow> int \<Rightarrow> buffer list \<times> int" where
  "skip_loop [] skip remain = ([], remain)"
| "skip_loop (b # bs) skip remain =
     (let per_skip = min skip (buffer_len b);
          b' = (if skip > 0 then buffer_skip b per_skip else b);
          skip' = (if skip > 0 then skip - per_skip else skip);
          (bs', r) = skip_loop bs skip' (to_i32 (remain + buffer_len b'))
      in (b' # bs', r))"

text \<open>\<open>readv\<close>, \<open>writev\<close>, \<open>recvfrom\<close> or \<open>sendto\<close> through the multiplexer gave \<open>(r, ec)\<close>.\<close>

definition post_read_impl :: "int \<times> error_code \<Rightarrow> io_op \<Rightarrow> bool \<times> io_op" where
  "post_read_impl res op =
     (let (r, ec) = res; op = op\<lparr>op_count := r, op_error := ec\<rparr>
      in (has_error ec \<or> r \<ge> 0, op))"

definition post_read_impl_fixed_len :: "int \<times> error_code \<Rightarrow> io_op \<Rightarrow> bool \<times> io_op" where
  "post_read_impl_fixed_len res op =
     (let (r, ec) = res; op = op\<lparr>op_error := ec\<rparr>
      in if has_error ec then (True, op)
         else if r < 0 then (False, op)
         else let (bufs, remain) = skip_loop (op_buffers op) r 0
              in (remain = 0, op\<lparr>op_buffers := bufs, op_count := to_i32 (op_count op + r)\<rparr>))"

definition post_write_impl :: "int \<times> error_code \<Rightarrow> io_op \<Rightarrow> bool \<times> io_op" where
  "post_write_impl res op =
     (let (r, ec) = res; op = op\<lparr>op_error := ec\<rparr>
      in if has_error ec then (True, op)
         else if r < 0 then (False, op)
         else let (bufs, remain) = skip_loop (op_buffers op) r 0
              in (remain = 0, op\<lparr>op_buffers := bufs, op_count := to_i32 (op_count op + r)\<rparr>))"

definition post_accept_impl :: "int \<times> error_code \<Rightarrow> io_op \<Rightarrow> bool \<times> io_op" where
  "post_accept_impl res op =
     (let (r, ec) = res; op = op\<lparr>op_error := ec\<rparr> in (has_error ec \<or> r \<ge> 0, op))"

definition post_connect :: "io_op \<Rightarrow> bool \<times> io_op" where
  "post_connect op = (True, op)"

definition udp_post_read_impl :: "int \<times> error_code \<Rightarrow> io_op \<Rightarrow> bool \<times> io_op" where
  "udp_post_read_impl res op =
     (let (r, ec) = res; op = op\<lparr>op_count := r, op_error := ec\<rparr> in (has_error ec \<or> r \<ge> 0, op))"

definition udp_post_write_impl :: "int \<times> error_code \<Rightarrow> io_op \<Rightarrow> bool \<times> io_op" where
  "udp_post_write_impl res op =
     (let (r, ec) = res; op = op\<lparr>op_count := r, op_error := ec\<rparr> in (has_error ec \<or> r \<ge> 0, op))"

section \<open>Lemmas\<close>

text \<open>Buffers whose lengths, together, an \<open>int\<close> can count.\<close>

definition total_len :: "buffer list \<Rightarrow> nat" where
  "total_len bs = sum_list (map iov_len bs)"

lemma total_len_simps [simp]:
  "total_len [] = 0" "total_len (b # bs) = iov_len b + total_len bs"
  by (simp_all add: total_len_def)

lemma buffer_len_id: "iov_len b < 2 ^ 31 \<Longrightarrow> buffer_len b = int (iov_len b)"
  by (simp add: buffer_len_def to_i32_id)

lemma buffer_skip_id:
  assumes "iov_len b < 2 ^ 31" and "n \<le> iov_len b"
  shows "buffer_skip b (int n) = b\<lparr>iov_base := iov_base b + int n, iov_len := iov_len b - n\<rparr>"
proof -
  have "int (iov_len b) - int n = int (iov_len b - n)" using assms by simp
  moreover have "int (iov_len b - n) < 2 ^ 31" using assms by simp
  ultimately show ?thesis
    using assms by (simp add: buffer_skip_def buffer_set_def buffer_buf_def buffer_len_id to_i32_id
        to_size_id)
qed

text \<open>What skipping \<open>n\<close> bytes of a list of buffers means.\<close>

fun skip_bytes :: "buffer list \<Rightarrow> nat \<Rightarrow> buffer list" where
  "skip_bytes [] n = []"
| "skip_bytes (b # bs) n =
     (let k = min n (iov_len b)
      in b\<lparr>iov_base := iov_base b + int k, iov_len := iov_len b - k\<rparr> # skip_bytes bs (n - k))"

lemma skip_loop_bytes:
  assumes "n \<le> total_len bs" and "total_len bs + rem < 2 ^ 31"
  shows "skip_loop bs (int n) (int rem) = (skip_bytes bs n, int (rem + total_len bs - n))"
  using assms
proof (induction bs arbitrary: n rem)
  case (Cons b bs)
  let ?k = "min n (iov_len b)"
  let ?b = "b\<lparr>iov_base := iov_base b + int ?k, iov_len := iov_len b - ?k\<rparr>"
  have small: "iov_len b < 2 ^ 31" using Cons.prems by simp
  have m: "min (int n) (buffer_len b) = int ?k" by (simp add: buffer_len_id [OF small])
  have b: "(if int n > 0 then buffer_skip b (int ?k) else b) = ?b"
    using buffer_skip_id [OF small, of ?k] by auto
  have s: "(if int n > 0 then int n - int ?k else int n) = int (n - ?k)" by auto
  have len: "to_i32 (int rem + buffer_len ?b) = int (rem + (iov_len b - ?k))"
  proof -
    have "buffer_len ?b = int (iov_len b - ?k)" using small by (subst buffer_len_id) simp_all
    moreover have "int (rem + (iov_len b - ?k)) < 2 ^ 31" using Cons.prems by simp
    ultimately show ?thesis by (simp only: of_nat_add [symmetric]) (rule to_i32_id, simp_all)
  qed
  have "skip_loop bs (int (n - ?k)) (int (rem + (iov_len b - ?k))) =
      (skip_bytes bs (n - ?k), int (rem + (iov_len b - ?k) + total_len bs - (n - ?k)))"
    using Cons.prems by (intro Cons.IH) auto
  moreover have "rem + (iov_len b - ?k) + total_len bs - (n - ?k) = rem + total_len (b # bs) - n"
    using Cons.prems by (auto simp: min_def)
  ultimately show ?case
    by (simp only: skip_loop.simps Let_def m b s len prod.case skip_bytes.simps)
qed simp

lemma total_len_skip: "n \<le> total_len bs \<Longrightarrow> total_len (skip_bytes bs n) = total_len bs - n"
  by (induction bs arbitrary: n) (auto simp: Let_def min_def)

text \<open>Every skipped buffer still ends where it ended.\<close>

lemma skip_bytes_ends:
  "map (\<lambda>b. iov_base b + int (iov_len b)) (skip_bytes bs n) = map (\<lambda>b. iov_base b + int (iov_len b)) bs"
  by (induction bs arbitrary: n) (auto simp: Let_def)

text \<open>
  A transfer with counted parts: the operation's buffers hold \<open>total_len\<close> bytes still to move and
  \<open>op_count\<close> bytes were moved.
\<close>

definition transfer_ok :: "nat \<Rightarrow> io_op \<Rightarrow> bool" where
  "transfer_ok n op \<longleftrightarrow> n < 2 ^ 31 \<and> \<not> has_error (op_error op) \<and> 0 \<le> op_count op \<and>
     op_count op + int (total_len (op_buffers op)) = int n"

lemma post_fixed_step:
  assumes "transfer_ok n op" and "k \<le> total_len (op_buffers op)" and "\<not> has_error ec"
  shows "post_read_impl_fixed_len (int k, ec) op =
           (k = total_len (op_buffers op),
            op\<lparr>op_error := ec, op_buffers := skip_bytes (op_buffers op) k, op_count := op_count op + int k\<rparr>)"
    and "post_write_impl (int k, ec) op =
           (k = total_len (op_buffers op),
            op\<lparr>op_error := ec, op_buffers := skip_bytes (op_buffers op) k, op_count := op_count op + int k\<rparr>)"
proof -
  have l: "skip_loop (op_buffers op) (int k) 0 =
      (skip_bytes (op_buffers op) k, int (total_len (op_buffers op) - k))"
    using skip_loop_bytes [of k "op_buffers op" 0] assms by (simp add: transfer_ok_def)
  have c: "to_i32 (op_count op + int k) = op_count op + int k"
    using assms by (intro to_i32_id) (auto simp: transfer_ok_def)
  have z: "(int (total_len (op_buffers op) - k) = 0) = (k = total_len (op_buffers op))"
    using assms(2) by auto
  show "post_read_impl_fixed_len (int k, ec) op =
           (k = total_len (op_buffers op),
            op\<lparr>op_error := ec, op_buffers := skip_bytes (op_buffers op) k, op_count := op_count op + int k\<rparr>)"
    using assms(3) z by (simp add: post_read_impl_fixed_len_def l c)
  show "post_write_impl (int k, ec) op =
           (k = total_len (op_buffers op),
            op\<lparr>op_error := ec, op_buffers := skip_bytes (op_buffers op) k, op_count := op_count op + int k\<rparr>)"
    using assms(3) z by (simp add: post_write_impl_def l c)
qed

text \<open>An operation whose post-processing is called with the partial transfers \<open>ks\<close> until it is done.\<close>

fun feed :: "(int \<times> error_code \<Rightarrow> io_op \<Rightarrow> bool \<times> io_op) \<Rightarrow> io_op \<Rightarrow> nat list \<Rightarrow> bool \<times> io_op" where
  "feed post op [] = (False, op)"
| "feed post op (k # ks) =
     (case post (int k, error_success) op of (fin, op') \<Rightarrow> if fin then (True, op') else feed post op' ks)"

lemma transfer_ok_step:
  "transfer_ok n op \<Longrightarrow> k \<le> total_len (op_buffers op) \<Longrightarrow>
     transfer_ok n (op\<lparr>op_error := error_success, op_buffers := skip_bytes (op_buffers op) k,
       op_count := op_count op + int k\<rparr>)"
  by (simp add: transfer_ok_def total_len_skip)

lemma feed_partial:
  assumes "post \<in> {post_read_impl_fixed_len, post_write_impl}" and "transfer_ok n op"
    and "sum_list ks < total_len (op_buffers op)"
  shows "\<exists>op'. feed post op ks = (False, op') \<and> transfer_ok n op' \<and>
     total_len (op_buffers op') = total_len (op_buffers op) - sum_list ks \<and>
     map (\<lambda>b. iov_base b + int (iov_len b)) (op_buffers op') =
       map (\<lambda>b. iov_base b + int (iov_len b)) (op_buffers op)"
  using assms
proof (induction ks arbitrary: op)
  case (Cons k ks)
  let ?op = "op\<lparr>op_error := error_success, op_buffers := skip_bytes (op_buffers op) k,
      op_count := op_count op + int k\<rparr>"
  have k: "k < total_len (op_buffers op)" using Cons.prems(3) by simp
  then have "post (int k, error_success) op = (False, ?op)"
    using post_fixed_step [OF Cons.prems(2), of k error_success] Cons.prems(1) by auto
  moreover have "transfer_ok n ?op" using k by (intro transfer_ok_step Cons.prems(2)) simp
  moreover have "sum_list ks < total_len (op_buffers ?op)"
    using k Cons.prems(3) by (simp add: total_len_skip)
  ultimately show ?case
    using Cons.IH [OF Cons.prems(1), of ?op] k by (auto simp: total_len_skip skip_bytes_ends)
qed simp

lemma feed_completes:
  assumes "post \<in> {post_read_impl_fixed_len, post_write_impl}" and "transfer_ok n op"
    and "0 < k" and "sum_list ks + k = total_len (op_buffers op)"
  shows "fst (feed post op ks) = False \<and>
     (\<exists>op'. feed post op (ks @ [k]) = (True, op') \<and> op_count op' = int n \<and>
       total_len (op_buffers op') = 0 \<and> \<not> has_error (op_error op') \<and>
       map (\<lambda>b. iov_base b + int (iov_len b)) (op_buffers op') =
         map (\<lambda>b. iov_base b + int (iov_len b)) (op_buffers op))"
proof -
  have "sum_list ks < total_len (op_buffers op)" using assms(3,4) by simp
  from feed_partial [OF assms(1,2) this] obtain op1 where
    o: "feed post op ks = (False, op1)" "transfer_ok n op1" "total_len (op_buffers op1) = k"
      "map (\<lambda>b. iov_base b + int (iov_len b)) (op_buffers op1) =
       map (\<lambda>b. iov_base b + int (iov_len b)) (op_buffers op)"
    using assms(4) by auto
  have app: "feed post op (ks @ [k]) = feed post op1 [k]"
    using o(1) by (induction ks arbitrary: op) (auto split: prod.splits if_splits)
  have "post (int k, error_success) op1 = (True, op1\<lparr>op_error := error_success,
      op_buffers := skip_bytes (op_buffers op1) k, op_count := op_count op1 + int k\<rparr>)"
    using post_fixed_step [OF o(2), of k error_success] assms(1) o(3) by auto
  then show ?thesis
    using o app by (simp add: total_len_skip skip_bytes_ends transfer_ok_def)
qed

text \<open>
  C22. A gathered write and a fixed length read finish exactly with the partial transfer that moves
  the last byte, never before, with the whole length counted, every buffer used up and none left
  at a different end.
\<close>

theorem transfer_completes_exactly:
  assumes "post \<in> {post_read_impl_fixed_len, post_write_impl}" and "transfer_ok n op"
    and "0 < k" and "sum_list ks + k = total_len (op_buffers op)"
  shows "fst (feed post op ks) = False \<and>
     (\<exists>op'. feed post op (ks @ [k]) = (True, op') \<and> op_count op' = int n \<and>
       total_len (op_buffers op') = 0 \<and> \<not> has_error (op_error op') \<and>
       map (\<lambda>b. iov_base b + int (iov_len b)) (op_buffers op') =
         map (\<lambda>b. iov_base b + int (iov_len b)) (op_buffers op))"
  by (rule feed_completes [OF assms])

theorem transfer_completes_exactly_witness:
  "\<exists>op'. feed post_write_impl (operation_write_base 1 [buffer_of 100 3, buffer_of 200 4]) [2, 5] = (True, op') \<and>
     op_count op' = 7"
proof -
  let ?op = "operation_write_base 1 [buffer_of 100 3, buffer_of 200 4]"
  have bufs: "map iov_len (op_buffers ?op) = [3, 4]"
    by (simp add: operation_write_base_def operation_ctor_def buffer_of_def buffer_set_def to_size_def)
  then have "transfer_ok 7 ?op" "sum_list [2] + 5 = total_len (op_buffers ?op)"
    by (simp_all add: transfer_ok_def total_len_def) (simp add: operation_write_base_def operation_ctor_def)
  from transfer_completes_exactly [OF _ this(1) _ this(2), of post_write_impl] show ?thesis by auto
qed

end
