(* ===== verification/Multiplexer.thy ===== *)
theory Multiplexer
  imports Main "HOL-Library.Multiset"
begin

text \<open>
  What the engine relies on in its multiplexer (\<open>io::multiplexer\<close>, one of the classes of
  \<open>include/tcode/io/io_define.hpp\<close>): the count of work the engine loop tests covers the live
  descriptors and the queued tasks, and every operation handed in is pending or was completed.
\<close>

locale multiplexer =
  fixes reachable :: "'m \<Rightarrow> bool"
    and refs :: "'m \<Rightarrow> int"
    and live :: "'m \<Rightarrow> nat"
    and queued :: "'m \<Rightarrow> nat"
    and submitted :: "'m \<Rightarrow> nat multiset"
    and completed :: "'m \<Rightarrow> nat multiset"
    and pending :: "'m \<Rightarrow> nat multiset"
  assumes refs_law: "reachable m \<Longrightarrow> refs m = int (live m + queued m)"
    and ops_law: "reachable m \<Longrightarrow> submitted m = completed m + pending m"
    and idle_law: "reachable m \<Longrightarrow> live m = 0 \<Longrightarrow> queued m = 0 \<Longrightarrow> pending m = {#}"
begin

lemma idle_done:
  assumes "reachable m" and "refs m = 0"
  shows "live m = 0 \<and> queued m = 0 \<and> completed m = submitted m"
proof -
  have "live m = 0" "queued m = 0" using refs_law [OF assms(1)] assms(2) by auto
  then show ?thesis using ops_law [OF assms(1)] idle_law [OF assms(1)] by simp
qed

lemma refs_nonneg: "reachable m \<Longrightarrow> 0 \<le> refs m"
  using refs_law by simp

lemma completed_at_most_once: "reachable m \<Longrightarrow> completed m \<subseteq># submitted m"
  using ops_law by simp

lemma unfinished_keeps_running: "reachable m \<Longrightarrow> pending m \<noteq> {#} \<Longrightarrow> 0 < refs m"
  using refs_law [of m] idle_law [of m] by (cases "live m + queued m = 0") auto

end

end
