(* ===== verification/Reactor.thy ===== *)
theory Reactor
  imports Io_Operation Multiplexer
begin

text \<open>
  What \<open>src/io/epoll.cpp\<close> and \<open>src/io/kqueue.cpp\<close> have in common, which is all but the registration of a
  descriptor with the kernel and the meaning of its events: descriptors with three queues of pending
  operations and a reference count, the queue of tasks to run in the loop, the wake-up pipe, and the
  engine's count of work. The difference is the parameter \<open>rx\<close>. Memory is explicit: a descriptor that was
  deleted is absent from the map, and an access to it (or through a null pointer) is \<^const>\<open>None\<close>.

  The results of the system calls come from a script, the list of return values with \<open>errno\<close> in
  the order of the calls; a call after the end of the script would block. A socket variable of the
  client is a number with the descriptor pointer it holds. The client's completion handlers and
  functions are a parameter: what requests they make, given the event and the state.

  The locale \<open>reactor_laws\<close> states what the registration must leave alone; within it every operation
  keeps the invariant of the memory.
\<close>

section \<open>State\<close>

record descriptor =
  d_fd :: int
  d_queue :: "io_op list list"
  d_ref :: int

datatype task =
    Run_Op io_op
  | Call nat
  | Unbind_Task nat
  | Read_Task nat io_op
  | Write_Task nat io_op

datatype event = Completed io_op | Called nat

record mux =
  ep_descs :: "nat \<Rightarrow> descriptor option"
  ep_next :: nat
  ep_queue :: "task list"
  ep_ref :: int
  ep_wake :: nat
  ep_socks :: "nat \<Rightarrow> nat option"
  ep_sys :: "(int \<times> int) list"
  ep_closed :: "int list"
  ep_log :: "event list"
  ep_submitted :: "nat list"

datatype request =
    Req_Read nat io_op
  | Req_Write nat io_op
  | Req_Accept nat io_op
  | Req_Close nat
  | Req_Execute nat
  | Req_Connect nat io_op
  | Req_Listen nat
  | Req_Open nat
  | Req_Bind nat
  | Req_Udp_Write nat io_op
  | Req_Udp_Read nat io_op

type_synonym 'x handlers = "event \<Rightarrow> 'x mux_scheme \<Rightarrow> request list"

text \<open>
  What a multiplexer adds: registering a descriptor, which of the queues an event is about, and what it
  does with a descriptor after it was served.
\<close>

record ('x, 'ev) reactor =
  rx_bind :: "nat \<Rightarrow> 'x mux_scheme \<Rightarrow> (bool \<times> int \<times> 'x mux_scheme) option"
  rx_queues :: "nat list"
  rx_ready :: "'ev \<Rightarrow> nat \<Rightarrow> bool"
  rx_in :: 'ev
  rx_out :: 'ev
  rx_settle :: "nat \<Rightarrow> 'x mux_scheme \<Rightarrow> 'x mux_scheme option"

section \<open>System calls\<close>

definition EAGAIN :: int where "EAGAIN = 11"
definition EWOULDBLOCK :: int where "EWOULDBLOCK = 11"
definition EINPROGRESS :: int where "EINPROGRESS = 115"

definition sys_next :: "'x mux_scheme \<Rightarrow> (int \<times> int) \<times> 'x mux_scheme" where
  "sys_next st =
     (case ep_sys st of [] \<Rightarrow> ((- 1, EAGAIN), st) | x # xs \<Rightarrow> (x, st\<lparr>ep_sys := xs\<rparr>))"

text \<open>The retry loops \<open>do { r = call(); } while (r == -1 && errno == EINTR)\<close>.\<close>

fun retry_eintr :: "(int \<times> int) list \<Rightarrow> (int \<times> int) \<times> (int \<times> int) list" where
  "retry_eintr [] = ((- 1, EAGAIN), [])"
| "retry_eintr (x # xs) = (if fst x = - 1 \<and> snd x = EINTR then retry_eintr xs else (x, xs))"

definition sys_retry :: "'x mux_scheme \<Rightarrow> (int \<times> int) \<times> 'x mux_scheme" where
  "sys_retry st = (let (x, xs) = retry_eintr (ep_sys st) in (x, st\<lparr>ep_sys := xs\<rparr>))"

definition sys_close :: "int \<Rightarrow> 'x mux_scheme \<Rightarrow> 'x mux_scheme" where
  "sys_close fd st = st\<lparr>ep_closed := fd # ep_closed st\<rparr>"

section \<open>The task queue\<close>

definition wake_up :: "'x mux_scheme \<Rightarrow> 'x mux_scheme" where
  "wake_up st = st\<lparr>ep_wake := ep_wake st + 1\<rparr>"

definition op_add :: "task \<Rightarrow> 'x mux_scheme \<Rightarrow> 'x mux_scheme" where
  "op_add t st = st\<lparr>ep_queue := ep_queue st @ [t], ep_ref := ep_ref st + 1\<rparr>"

definition execute :: "task \<Rightarrow> 'x mux_scheme \<Rightarrow> 'x mux_scheme" where
  "execute t st = wake_up (op_add t st)"

section \<open>Descriptors\<close>

definition upd_desc :: "nat \<Rightarrow> (descriptor \<Rightarrow> descriptor) \<Rightarrow> 'x mux_scheme \<Rightarrow> 'x mux_scheme option" where
  "upd_desc d f st =
     (case ep_descs st d of
        None \<Rightarrow> None
      | Some e \<Rightarrow> Some (st\<lparr>ep_descs := (ep_descs st)(d \<mapsto> f e)\<rparr>))"

definition descriptor_create :: "int \<Rightarrow> 'x mux_scheme \<Rightarrow> nat \<times> 'x mux_scheme" where
  "descriptor_create fd st =
     (ep_next st,
      st\<lparr>ep_descs := (ep_descs st)(ep_next st \<mapsto> \<lparr>d_fd = fd, d_queue = [[], [], []], d_ref = 1\<rparr>),
         ep_next := ep_next st + 1, ep_ref := ep_ref st + 1\<rparr>)"

definition descriptor_add_ref :: "nat \<Rightarrow> 'x mux_scheme \<Rightarrow> 'x mux_scheme option" where
  "descriptor_add_ref d st = upd_desc d (\<lambda>e. e\<lparr>d_ref := d_ref e + 1\<rparr>) st"

definition abort_op :: "io_op \<Rightarrow> io_op" where
  "abort_op op = (if \<not> has_error (op_error op) then op\<lparr>op_error := error_aborted\<rparr> else op)"

definition descriptor_release :: "nat \<Rightarrow> 'x mux_scheme \<Rightarrow> 'x mux_scheme option" where
  "descriptor_release d st =
     (case ep_descs st d of
        None \<Rightarrow> None
      | Some e \<Rightarrow>
          if d_ref e \<noteq> 1 then Some (st\<lparr>ep_descs := (ep_descs st)(d \<mapsto> e\<lparr>d_ref := d_ref e - 1\<rparr>)\<rparr>)
          else let st = st\<lparr>ep_ref := ep_ref st - 1\<rparr>;
                   ops = map abort_op (concat (d_queue e));
                   st = (if ops \<noteq> [] then wake_up (fold (\<lambda>op. op_add (Run_Op op)) ops st) else st)
               in Some (st\<lparr>ep_descs := (ep_descs st)(d := None)\<rparr>))"

definition native_descriptor :: "nat \<Rightarrow> 'x mux_scheme \<Rightarrow> int option" where
  "native_descriptor d st = map_option d_fd (ep_descs st d)"

section \<open>Transfers\<close>

definition mux_writev :: "nat \<Rightarrow> error_code \<Rightarrow> 'x mux_scheme \<Rightarrow> (int \<times> error_code \<times> 'x mux_scheme) option" where
  "mux_writev d ec st =
     (case ep_descs st d of
        None \<Rightarrow> None
      | Some e \<Rightarrow>
          if d_fd e = - 1 then Some (- 1, error_invalid, st)
          else let ((r, errno), st) = sys_retry st
               in Some (if r \<ge> 0 then (r, ec, st)
                        else if errno = EAGAIN \<or> errno = EWOULDBLOCK then (- 1, error_success, st)
                        else (- 1, last_error errno, st)))"

definition mux_readv :: "nat \<Rightarrow> error_code \<Rightarrow> 'x mux_scheme \<Rightarrow> (int \<times> error_code \<times> 'x mux_scheme) option" where
  "mux_readv d ec st =
     (case ep_descs st d of
        None \<Rightarrow> None
      | Some e \<Rightarrow>
          if d_fd e = - 1 then Some (- 1, error_invalid, st)
          else let ((r, errno), st) = sys_retry st
               in Some (if r > 0 then (r, ec, st)
                        else if r = 0 then (- 1, error_disconnected, st)
                        else if errno = EAGAIN \<or> errno = EWOULDBLOCK then (- 1, error_success, st)
                        else (- 1, last_error errno, st)))"

definition mux_accept :: "('x, 'ev) reactor \<Rightarrow> nat \<Rightarrow> nat \<Rightarrow> error_code \<Rightarrow> 'x mux_scheme \<Rightarrow> (int \<times> error_code \<times> 'x mux_scheme) option" where
  "mux_accept rx listen sock ec st =
     (case ep_descs st listen of
        None \<Rightarrow> None
      | Some e \<Rightarrow>
          if d_fd e = - 1 then Some (- 1, error_invalid, st)
          else let ((fd, errno), st) = sys_retry st
               in if fd \<noteq> - 1
                  then let (accepted, st) = descriptor_create fd st;
                           st = st\<lparr>ep_socks := (ep_socks st)(sock \<mapsto> accepted)\<rparr>
                       in map_option (\<lambda>(bound, _, st). (0, ec, st)) (rx_bind rx accepted st)
                  else Some (if errno = EAGAIN \<or> errno = EWOULDBLOCK then (- 1, error_success, st)
                             else (- 1, last_error errno, st)))"

definition mux_recvfrom :: "nat \<Rightarrow> error_code \<Rightarrow> 'x mux_scheme \<Rightarrow> (int \<times> error_code \<times> 'x mux_scheme) option" where
  "mux_recvfrom d ec st =
     (case ep_descs st d of
        None \<Rightarrow> None
      | Some e \<Rightarrow>
          if d_fd e = - 1 then Some (- 1, error_invalid, st)
          else let ((r, errno), st) = sys_retry st
               in Some (if r \<ge> 0 then (r, ec, st)
                        else if errno = EAGAIN \<or> errno = EWOULDBLOCK then (- 1, error_success, st)
                        else (- 1, last_error errno, st)))"

definition mux_sendto :: "nat \<Rightarrow> error_code \<Rightarrow> 'x mux_scheme \<Rightarrow> (int \<times> error_code \<times> 'x mux_scheme) option" where
  "mux_sendto d ec st =
     (case ep_descs st d of
        None \<Rightarrow> None
      | Some e \<Rightarrow>
          if d_fd e = - 1 then Some (- 1, error_invalid, st)
          else let ((r, errno), st) = sys_retry st
               in Some (if r \<ge> 0 then (r, ec, st)
                        else if errno = EAGAIN \<or> errno = EWOULDBLOCK then (- 1, error_success, st)
                        else (- 1, last_error errno, st)))"

section \<open>Requests\<close>

definition mux_connect :: "('x, 'ev) reactor \<Rightarrow> nat \<Rightarrow> io_op \<Rightarrow> 'x mux_scheme \<Rightarrow> 'x mux_scheme option" where
  "mux_connect rx sock op st =
     (let ((fd, errno), st) = sys_next st
      in if fd = - 1 then Some (execute (Run_Op (op\<lparr>op_error := last_error errno\<rparr>)) st)
         else let ((r, errno), st) = sys_retry st
              in if r = 0 \<or> errno = EINPROGRESS
                 then let (d, st) = descriptor_create fd st;
                          st = st\<lparr>ep_socks := (ep_socks st)(sock \<mapsto> d)\<rparr>
                      in Option.bind (upd_desc d (\<lambda>e. e\<lparr>d_queue := [[], [op], []]\<rparr>) st) (\<lambda>st.
                         Option.bind (rx_bind rx d st) (\<lambda>(bound, errno, st).
                            if \<not> bound
                            then Option.bind (upd_desc d
                                   (\<lambda>e. e\<lparr>d_queue := [[], [op\<lparr>op_error := last_error errno\<rparr>], []]\<rparr>)
                                   (sys_close fd st)) (\<lambda>st.
                                 map_option (\<lambda>st. st\<lparr>ep_socks := (ep_socks st)(sock := None)\<rparr>)
                                   (descriptor_release d st))
                            else Some st))
                 else Some (execute (Run_Op (op\<lparr>op_error := last_error errno\<rparr>)) (sys_close fd st)))"

definition tcp_write :: "nat option \<Rightarrow> io_op \<Rightarrow> 'x mux_scheme \<Rightarrow> 'x mux_scheme option" where
  "tcp_write desc op st =
     Option.bind desc (\<lambda>d. map_option (execute (Write_Task d op)) (descriptor_add_ref d st))"

definition tcp_read :: "nat option \<Rightarrow> io_op \<Rightarrow> 'x mux_scheme \<Rightarrow> 'x mux_scheme option" where
  "tcp_read desc op st =
     Option.bind desc (\<lambda>d. map_option (execute (Read_Task d op)) (descriptor_add_ref d st))"

text \<open>Creating the descriptor and registering it, as \<open>listen\<close>, \<open>open\<close> and \<open>bind\<close> do.\<close>

definition create_bound :: "('x, 'ev) reactor \<Rightarrow> nat \<Rightarrow> int \<Rightarrow> 'x mux_scheme \<Rightarrow> (bool \<times> 'x mux_scheme) option" where
  "create_bound rx sock fd st =
     (let (d, st) = descriptor_create fd st;
          st = st\<lparr>ep_socks := (ep_socks st)(sock \<mapsto> d)\<rparr>
      in Option.bind (rx_bind rx d st) (\<lambda>(bound, errno, st).
           if bound then Some (True, st)
           else map_option (\<lambda>st. (False, sys_close fd (st\<lparr>ep_socks := (ep_socks st)(sock := None)\<rparr>)))
                  (descriptor_release d st)))"

definition mux_listen :: "('x, 'ev) reactor \<Rightarrow> nat \<Rightarrow> 'x mux_scheme \<Rightarrow> (bool \<times> 'x mux_scheme) option" where
  "mux_listen rx sock st =
     (let ((fd, _), st) = sys_next st
      in if fd = - 1 then Some (False, st)
         else let ((r1, _), st) = sys_next st
              in if r1 \<noteq> 0 then Some (False, sys_close fd st)
                 else let ((r2, _), st) = sys_next st
                      in if r2 \<noteq> 0 then Some (False, sys_close fd st) else create_bound rx sock fd st)"

definition mux_accept_request :: "nat option \<Rightarrow> io_op \<Rightarrow> 'x mux_scheme \<Rightarrow> 'x mux_scheme option" where
  "mux_accept_request desc op st =
     (case desc of
        None \<Rightarrow> Some st
      | Some d \<Rightarrow> map_option (execute (Read_Task d op)) (descriptor_add_ref d st))"

definition mux_open :: "('x, 'ev) reactor \<Rightarrow> nat \<Rightarrow> 'x mux_scheme \<Rightarrow> (bool \<times> 'x mux_scheme) option" where
  "mux_open rx sock st =
     (let ((fd, _), st) = sys_next st
      in if fd = - 1 then Some (False, st) else create_bound rx sock fd st)"

definition mux_bind_address :: "('x, 'ev) reactor \<Rightarrow> nat \<Rightarrow> 'x mux_scheme \<Rightarrow> (bool \<times> 'x mux_scheme) option" where
  "mux_bind_address rx sock st =
     (let ((fd, _), st) = sys_next st
      in if fd = - 1 then Some (False, st)
         else let ((r, _), st) = sys_next st
              in if r \<noteq> 0 then Some (False, sys_close fd st) else create_bound rx sock fd st)"

definition udp_write :: "('x, 'ev) reactor \<Rightarrow> nat \<Rightarrow> io_op \<Rightarrow> 'x mux_scheme \<Rightarrow> 'x mux_scheme option" where
  "udp_write rx sock op st =
     (case ep_socks st sock of
        Some d \<Rightarrow> map_option (execute (Write_Task d op)) (descriptor_add_ref d st)
      | None \<Rightarrow>
          let ((fd, errno), st) = sys_next st
          in if fd = - 1 then Some (execute (Run_Op (op\<lparr>op_error := last_error errno\<rparr>)) st)
             else let (d, st) = descriptor_create fd st;
                      st = st\<lparr>ep_socks := (ep_socks st)(sock \<mapsto> d)\<rparr>
                  in Option.bind (rx_bind rx d st) (\<lambda>(bound, errno, st).
                       if bound
                       then map_option (execute (Write_Task d op)) (descriptor_add_ref d st)
                       else map_option (\<lambda>st. execute (Run_Op (op\<lparr>op_error := last_error errno\<rparr>))
                                (sys_close fd (st\<lparr>ep_socks := (ep_socks st)(sock := None)\<rparr>)))
                              (descriptor_release d st)))"

definition udp_read :: "nat option \<Rightarrow> io_op \<Rightarrow> 'x mux_scheme \<Rightarrow> 'x mux_scheme option" where
  "udp_read desc op st =
     (case desc of
        None \<Rightarrow> Some (execute (Run_Op (op\<lparr>op_error := error_invalid\<rparr>)) st)
      | Some d \<Rightarrow> map_option (execute (Read_Task d op)) (descriptor_add_ref d st))"

definition unbind :: "nat \<Rightarrow> 'x mux_scheme \<Rightarrow> 'x mux_scheme" where
  "unbind sock st =
     (case ep_socks st sock of
        None \<Rightarrow> st
      | Some d \<Rightarrow> wake_up (op_add (Unbind_Task d) (st\<lparr>ep_socks := (ep_socks st)(sock := None)\<rparr>)))"

text \<open>The request a client makes on a socket, through the socket classes.\<close>

fun issue :: "('x, 'ev) reactor \<Rightarrow> request \<Rightarrow> 'x mux_scheme \<Rightarrow> 'x mux_scheme option" where
  "issue rx (Req_Read s op) st = tcp_read (ep_socks st s) op st"
| "issue rx (Req_Write s op) st = tcp_write (ep_socks st s) op st"
| "issue rx (Req_Accept s op) st = mux_accept_request (ep_socks st s) op st"
| "issue rx (Req_Close s) st = Some (unbind s st)"
| "issue rx (Req_Execute k) st = Some (execute (Call k) st)"
| "issue rx (Req_Connect s op) st = mux_connect rx s op st"
| "issue rx (Req_Listen s) st = map_option snd (mux_listen rx s st)"
| "issue rx (Req_Open s) st = map_option snd (mux_open rx s st)"
| "issue rx (Req_Bind s) st = map_option snd (mux_bind_address rx s st)"
| "issue rx (Req_Udp_Write s op) st = udp_write rx s op st"
| "issue rx (Req_Udp_Read s op) st = udp_read (ep_socks st s) op st"

text \<open>\<open>ep_submitted\<close> and \<open>ep_log\<close> are history: the operations handed in and the handlers called.\<close>

fun request_ids :: "request \<Rightarrow> nat list" where
  "request_ids (Req_Read s op) = [op_id op]"
| "request_ids (Req_Write s op) = [op_id op]"
| "request_ids (Req_Accept s op) = [op_id op]"
| "request_ids (Req_Connect s op) = [op_id op]"
| "request_ids (Req_Udp_Write s op) = [op_id op]"
| "request_ids (Req_Udp_Read s op) = [op_id op]"
| "request_ids _ = []"

definition do_request :: "('x, 'ev) reactor \<Rightarrow> request \<Rightarrow> 'x mux_scheme \<Rightarrow> 'x mux_scheme option" where
  "do_request rx r st = issue rx r (st\<lparr>ep_submitted := request_ids r @ ep_submitted st\<rparr>)"

fun do_requests :: "('x, 'ev) reactor \<Rightarrow> request list \<Rightarrow> 'x mux_scheme \<Rightarrow> 'x mux_scheme option" where
  "do_requests rx [] st = Some st"
| "do_requests rx (r # rs) st = Option.bind (do_request rx r st) (do_requests rx rs)"

section \<open>Running\<close>

text \<open>\<open>(*op)()\<close>: the operation is destroyed and its handler called.\<close>

definition complete :: "('x, 'ev) reactor \<Rightarrow> 'x handlers \<Rightarrow> io_op \<Rightarrow> 'x mux_scheme \<Rightarrow> 'x mux_scheme option" where
  "complete rx h op st =
     (let st = st\<lparr>ep_log := Completed op # ep_log st\<rparr> in do_requests rx (h (Completed op) st) st)"

definition call_function :: "('x, 'ev) reactor \<Rightarrow> 'x handlers \<Rightarrow> nat \<Rightarrow> 'x mux_scheme \<Rightarrow> 'x mux_scheme option" where
  "call_function rx h k st =
     (let st = st\<lparr>ep_log := Called k # ep_log st\<rparr> in do_requests rx (h (Called k) st) st)"

definition post_proc :: "('x, 'ev) reactor \<Rightarrow> nat \<Rightarrow> io_op \<Rightarrow> 'x mux_scheme \<Rightarrow> (bool \<times> io_op \<times> 'x mux_scheme) option" where
  "post_proc rx d op st =
     (let with = (\<lambda>post res. map_option (\<lambda>(r, ec, st). let (fin, op) = post (r, ec) op in (fin, op, st)) res)
      in case op_post op of
           Post_Read \<Rightarrow> with post_read_impl (mux_readv d (op_error op) st)
         | Post_Read_Fixed_Len \<Rightarrow> with post_read_impl_fixed_len (mux_readv d (op_error op) st)
         | Post_Write \<Rightarrow> with post_write_impl (mux_writev d (op_error op) st)
         | Post_Accept \<Rightarrow> with post_accept_impl (mux_accept rx d (op_socket op) (op_error op) st)
         | Post_Connect \<Rightarrow> Some (let (fin, op) = post_connect op in (fin, op, st))
         | Post_Udp_Read \<Rightarrow> with udp_post_read_impl (mux_recvfrom d (op_error op) st)
         | Post_Udp_Write \<Rightarrow> with udp_post_write_impl (mux_sendto d (op_error op) st))"

text \<open>The inner loop of \<open>descriptor_dispatch\<close>, over queue \<open>i\<close>.\<close>

partial_function (option) dispatch_loop :: "('x, 'ev) reactor \<Rightarrow> 'x handlers \<Rightarrow> nat \<Rightarrow> nat \<Rightarrow> 'x mux_scheme \<Rightarrow> 'x mux_scheme option" where
  [code]: "dispatch_loop rx h d i st =
     (case ep_descs st d of
        None \<Rightarrow> None
      | Some e \<Rightarrow>
          (case d_queue e ! i of
             [] \<Rightarrow> Some st
           | op # _ \<Rightarrow>
               Option.bind (post_proc rx d op st) (\<lambda>(fin, op, st).
                 if fin
                 then Option.bind (upd_desc d (\<lambda>e. e\<lparr>d_queue := (d_queue e)[i := tl (d_queue e ! i)]\<rparr>) st) (\<lambda>st.
                      Option.bind (complete rx h op st) (\<lambda>st. dispatch_loop rx h d i st))
                 else upd_desc d (\<lambda>e. e\<lparr>d_queue := (d_queue e)[i := op # tl (d_queue e ! i)]\<rparr>) st)))"

fun dispatch_from :: "('x, 'ev) reactor \<Rightarrow> 'x handlers \<Rightarrow> nat \<Rightarrow> 'ev \<Rightarrow> nat list \<Rightarrow> 'x mux_scheme \<Rightarrow> 'x mux_scheme option" where
  "dispatch_from rx h d events [] st = Some st"
| "dispatch_from rx h d events (i # is) st =
     (if rx_ready rx events i
      then Option.bind (dispatch_loop rx h d i st) (dispatch_from rx h d events is)
      else dispatch_from rx h d events is st)"

definition descriptor_dispatch :: "('x, 'ev) reactor \<Rightarrow> 'x handlers \<Rightarrow> nat \<Rightarrow> 'ev \<Rightarrow> 'x mux_scheme \<Rightarrow> 'x mux_scheme option" where
  "descriptor_dispatch rx h d events st =
     Option.bind (dispatch_from rx h d events (rx_queues rx) st) (rx_settle rx d)"

definition push_op :: "nat \<Rightarrow> nat \<Rightarrow> io_op \<Rightarrow> 'x mux_scheme \<Rightarrow> 'x mux_scheme option" where
  "push_op d i op st = upd_desc d (\<lambda>e. e\<lparr>d_queue := (d_queue e)[i := d_queue e ! i @ [op]]\<rparr>) st"

definition descriptor_dispatch_read :: "('x, 'ev) reactor \<Rightarrow> 'x handlers \<Rightarrow> nat \<Rightarrow> io_op \<Rightarrow> 'x mux_scheme \<Rightarrow> 'x mux_scheme option" where
  "descriptor_dispatch_read rx h d op st =
     Option.bind (push_op d 0 op st) (\<lambda>st.
     Option.bind (descriptor_dispatch rx h d (rx_in rx) st) (\<lambda>st. descriptor_release d st))"

definition descriptor_dispatch_write :: "('x, 'ev) reactor \<Rightarrow> 'x handlers \<Rightarrow> nat \<Rightarrow> io_op \<Rightarrow> 'x mux_scheme \<Rightarrow> 'x mux_scheme option" where
  "descriptor_dispatch_write rx h d op st =
     Option.bind (push_op d 1 op st) (\<lambda>st.
     Option.bind (descriptor_dispatch rx h d (rx_out rx) st) (\<lambda>st. descriptor_release d st))"

definition run_unbind :: "nat \<Rightarrow> 'x mux_scheme \<Rightarrow> 'x mux_scheme option" where
  "run_unbind d st =
     (case ep_descs st d of
        None \<Rightarrow> None
      | Some e \<Rightarrow>
          let st = (if d_fd e \<noteq> - 1
                    then sys_close (d_fd e) (st\<lparr>ep_descs := (ep_descs st)(d \<mapsto> e\<lparr>d_fd := - 1\<rparr>)\<rparr>)
                    else st)
          in descriptor_release d st)"

text \<open>\<open>op_run\<close>: give up the engine's reference, then run the task.\<close>

definition op_run :: "('x, 'ev) reactor \<Rightarrow> 'x handlers \<Rightarrow> task \<Rightarrow> 'x mux_scheme \<Rightarrow> 'x mux_scheme option" where
  "op_run rx h t st =
     (let st = st\<lparr>ep_ref := ep_ref st - 1\<rparr>
      in case t of
           Run_Op op \<Rightarrow> complete rx h op st
         | Call k \<Rightarrow> call_function rx h k st
         | Unbind_Task d \<Rightarrow> run_unbind d st
         | Read_Task d op \<Rightarrow> descriptor_dispatch_read rx h d op st
         | Write_Task d op \<Rightarrow> descriptor_dispatch_write rx h d op st)"

fun op_run_all :: "('x, 'ev) reactor \<Rightarrow> 'x handlers \<Rightarrow> task list \<Rightarrow> 'x mux_scheme \<Rightarrow> 'x mux_scheme option" where
  "op_run_all rx h [] st = Some st"
| "op_run_all rx h (t # ts) st = Option.bind (op_run rx h t st) (op_run_all rx h ts)"

text \<open>The events of one wait: a descriptor pointer, null for the pipe, with what happened to it.\<close>

fun run_events :: "('x, 'ev) reactor \<Rightarrow> 'x handlers \<Rightarrow> (nat option \<times> 'ev) list \<Rightarrow> bool \<Rightarrow> 'x mux_scheme \<Rightarrow> (bool \<times> 'x mux_scheme) option" where
  "run_events rx h [] exec st = Some (exec, st)"
| "run_events rx h ((Some d, events) # evs) exec st =
     Option.bind (descriptor_dispatch rx h d events st) (run_events rx h evs exec)"
| "run_events rx h ((None, events) # evs) exec st =
     run_events rx h evs True (st\<lparr>ep_wake := ep_wake st - 256\<rparr>)"

definition mux_run :: "('x, 'ev) reactor \<Rightarrow> 'x handlers \<Rightarrow> (nat option \<times> 'ev) list \<Rightarrow> 'x mux_scheme \<Rightarrow> (nat \<times> 'x mux_scheme) option" where
  "mux_run rx h evs st =
     Option.bind (run_events rx h evs False st) (\<lambda>(exec, st).
       let n = length (filter (\<lambda>ev. fst ev \<noteq> None) evs)
       in if exec
          then let ops = ep_queue st
               in map_option (\<lambda>st. (n + length ops, st)) (op_run_all rx h ops (st\<lparr>ep_queue := []\<rparr>))
          else Some (n, st))"

section \<open>The invariant\<close>

text \<open>
  Who holds a reference to a descriptor: the socket variable that points to it, every task queued
  for it, and the code in the middle of an operation (the list \<open>hs\<close>). \<open>ts\<close> are the tasks taken off
  the queue and not run yet, \<open>M\<close> the operations in hand; \<open>awake\<close> says that the loop has read the
  pipe and will look at the queue in this round.
\<close>

fun task_desc :: "task \<Rightarrow> nat option" where
  "task_desc (Unbind_Task d) = Some d"
| "task_desc (Read_Task d op) = Some d"
| "task_desc (Write_Task d op) = Some d"
| "task_desc _ = None"

fun task_ops :: "task \<Rightarrow> nat multiset" where
  "task_ops (Run_Op op) = {#op_id op#}"
| "task_ops (Read_Task d op) = {#op_id op#}"
| "task_ops (Write_Task d op) = {#op_id op#}"
| "task_ops _ = {#}"

fun event_ops :: "event \<Rightarrow> nat multiset" where
  "event_ops (Completed op) = {#op_id op#}"
| "event_ops (Called k) = {#}"

definition desc_ops :: "descriptor \<Rightarrow> nat multiset" where
  "desc_ops e = mset (map op_id (concat (d_queue e)))"

definition tasks_ops :: "task list \<Rightarrow> nat multiset" where
  "tasks_ops ts = sum_list (map task_ops ts)"

definition heap_ops :: "(nat \<Rightarrow> descriptor option) \<Rightarrow> nat multiset" where
  "heap_ops m = (\<Sum>d\<in>dom m. desc_ops (the (m d)))"

definition log_ops :: "event list \<Rightarrow> nat multiset" where
  "log_ops log = sum_list (map event_ops log)"

definition owners :: "nat list \<Rightarrow> task list \<Rightarrow> (nat \<Rightarrow> nat option) \<Rightarrow> nat \<Rightarrow> nat" where
  "owners hs ts socks d =
     (if d \<in> ran socks then 1 else 0) + count_list (map task_desc ts) (Some d) + count_list hs d"

definition desc_ok :: "nat list \<Rightarrow> task list \<Rightarrow> (nat \<Rightarrow> nat option) \<Rightarrow> nat \<Rightarrow> descriptor \<Rightarrow> bool" where
  "desc_ok hs ts socks d e \<longleftrightarrow> length (d_queue e) = 3 \<and> 1 \<le> d_ref e \<and> int (owners hs ts socks d) \<le> d_ref e"

definition ep_inv :: "bool \<Rightarrow> nat list \<Rightarrow> task list \<Rightarrow> nat multiset \<Rightarrow> 'x mux_scheme \<Rightarrow> bool" where
  "ep_inv awake hs ts M st \<longleftrightarrow>
     finite (dom (ep_descs st)) \<and> (\<forall>d\<in>dom (ep_descs st). d < ep_next st) \<and>
     (\<forall>d e. ep_descs st d = Some e \<longrightarrow> desc_ok hs (ts @ ep_queue st) (ep_socks st) d e) \<and>
     (\<forall>d. 0 < owners hs (ts @ ep_queue st) (ep_socks st) d \<longrightarrow> d \<in> dom (ep_descs st)) \<and>
     inj_on (ep_socks st) (dom (ep_socks st)) \<and>
     ep_ref st = int (card (dom (ep_descs st)) + length (ts @ ep_queue st)) \<and>
     (awake \<or> ep_queue st = [] \<or> 0 < ep_wake st) \<and>
     tasks_ops (ts @ ep_queue st) + heap_ops (ep_descs st) + log_ops (ep_log st) + M = mset (ep_submitted st)"

lemma tasks_ops_simps [simp]:
  "tasks_ops [] = {#}" "tasks_ops (t # ts) = task_ops t + tasks_ops ts"
  "tasks_ops (ts @ us) = tasks_ops ts + tasks_ops us"
  by (simp_all add: tasks_ops_def)

lemma log_ops_simps [simp]: "log_ops [] = {#}" "log_ops (e # es) = event_ops e + log_ops es"
  by (simp_all add: log_ops_def)

lemma heap_ops_upd:
  assumes "finite (dom m)" and "m d = Some e"
  shows "heap_ops (m(d \<mapsto> e')) + desc_ops e = heap_ops m + desc_ops e'"
proof -
  have d: "dom (m(d \<mapsto> e')) = dom m" "d \<in> dom m" using assms(2) by auto
  have "heap_ops (m(d \<mapsto> e')) = desc_ops e' + (\<Sum>x\<in>dom m - {d}. desc_ops (the (m x)))"
    unfolding heap_ops_def d(1) by (subst sum.remove [OF assms(1) d(2)]) (auto intro!: sum.cong)
  moreover have "heap_ops m = desc_ops e + (\<Sum>x\<in>dom m - {d}. desc_ops (the (m x)))"
    unfolding heap_ops_def using assms(2) by (subst sum.remove [OF assms(1) d(2)]) simp
  ultimately show ?thesis by simp
qed

lemma heap_ops_new:
  assumes "finite (dom m)" and "m d = None"
  shows "heap_ops (m(d \<mapsto> e)) = heap_ops m + desc_ops e"
proof -
  have "dom (m(d \<mapsto> e)) = insert d (dom m)" "d \<notin> dom m" using assms(2) by auto
  then show ?thesis
    using assms(1) by (simp add: heap_ops_def) (auto intro!: sum.cong simp: add.commute)
qed

lemma heap_ops_delete:
  assumes "finite (dom m)" and "m d = Some e"
  shows "heap_ops (m(d := None)) + desc_ops e = heap_ops m"
proof -
  have d: "d \<in> dom m" "dom (m(d := None)) = dom m - {d}" using assms(2) by auto
  have "heap_ops m = desc_ops e + (\<Sum>x\<in>dom m - {d}. desc_ops (the (m x)))"
    unfolding heap_ops_def using assms(2) by (subst sum.remove [OF assms(1) d(1)]) simp
  moreover have "heap_ops (m(d := None)) = (\<Sum>x\<in>dom m - {d}. desc_ops (the (m x)))"
    unfolding heap_ops_def d(2) by (auto intro!: sum.cong)
  ultimately show ?thesis by (simp add: add.commute)
qed

text \<open>A step keeps the descriptors that exist, with their queues.\<close>

definition keeps :: "'x mux_scheme \<Rightarrow> 'x mux_scheme \<Rightarrow> bool" where
  "keeps st st' \<longleftrightarrow> (\<forall>d e. ep_descs st d = Some e \<longrightarrow>
     (\<exists>e'. ep_descs st' d = Some e' \<and> d_queue e' = d_queue e \<and> d_fd e' = d_fd e))"

lemma keeps_refl [simp]: "keeps st st"
  by (simp add: keeps_def)

lemma keeps_trans: "keeps st1 st2 \<Longrightarrow> keeps st2 st3 \<Longrightarrow> keeps st1 st3"
  unfolding keeps_def by metis

lemma keeps_same: "ep_descs st' = ep_descs st \<Longrightarrow> keeps st st'"
  by (simp add: keeps_def)

section \<open>The primitive steps\<close>

lemma ep_invD:
  assumes "ep_inv awake hs ts M st"
  shows "finite (dom (ep_descs st))"
    and "ep_descs st d = Some e \<Longrightarrow> d < ep_next st"
    and "ep_descs st d = Some e \<Longrightarrow> desc_ok hs (ts @ ep_queue st) (ep_socks st) d e"
    and "0 < owners hs (ts @ ep_queue st) (ep_socks st) d \<Longrightarrow> \<exists>e. ep_descs st d = Some e"
    and "inj_on (ep_socks st) (dom (ep_socks st))"
    and "ep_ref st = int (card (dom (ep_descs st)) + length (ts @ ep_queue st))"
    and "awake \<or> ep_queue st = [] \<or> 0 < ep_wake st"
    and "tasks_ops (ts @ ep_queue st) + heap_ops (ep_descs st) + log_ops (ep_log st) + M = mset (ep_submitted st)"
  using assms by (auto simp: ep_inv_def dom_def)

lemma ep_invI:
  assumes "finite (dom (ep_descs st))"
    and "\<And>d e. ep_descs st d = Some e \<Longrightarrow> d < ep_next st"
    and "\<And>d e. ep_descs st d = Some e \<Longrightarrow> desc_ok hs (ts @ ep_queue st) (ep_socks st) d e"
    and "\<And>d. 0 < owners hs (ts @ ep_queue st) (ep_socks st) d \<Longrightarrow> \<exists>e. ep_descs st d = Some e"
    and "inj_on (ep_socks st) (dom (ep_socks st))"
    and "ep_ref st = int (card (dom (ep_descs st)) + length (ts @ ep_queue st))"
    and "awake \<or> ep_queue st = [] \<or> 0 < ep_wake st"
    and "tasks_ops (ts @ ep_queue st) + heap_ops (ep_descs st) + log_ops (ep_log st) + M = mset (ep_submitted st)"
  shows "ep_inv awake hs ts M st"
  using assms unfolding ep_inv_def by blast

lemma ep_inv_cong:
  assumes "ep_inv awake hs ts M st" and "ep_descs st' = ep_descs st" and "ep_next st' = ep_next st"
    and "ep_queue st' = ep_queue st" and "ep_ref st' = ep_ref st" and "ep_wake st \<le> ep_wake st'"
    and "ep_socks st' = ep_socks st" and "ep_log st' = ep_log st" and "ep_submitted st' = ep_submitted st"
  shows "ep_inv awake hs ts M st'"
proof (rule ep_invI)
  show "awake \<or> ep_queue st' = [] \<or> 0 < ep_wake st'"
    using ep_invD(7) [OF assms(1)] assms(4,6) by auto
qed (simp_all only: assms(2-5,7-9) ep_invD [OF assms(1)])

lemma owners_hand [simp]:
  "owners (d # hs) ts socks x = owners hs ts socks x + (if x = d then 1 else 0)"
  by (simp add: owners_def)

lemma owners_task [simp]:
  "owners hs (ts @ us @ [t]) socks x = owners hs (ts @ us) socks x + (if task_desc t = Some x then 1 else 0)"
  by (simp add: owners_def)

lemma ep_inv_live: "ep_inv awake (d # hs) ts M st \<Longrightarrow> \<exists>e. ep_descs st d = Some e"
  by (rule ep_invD(4)) (assumption, simp)

lemma ep_inv_sock_live: "ep_inv awake hs ts M st \<Longrightarrow> ep_socks st s = Some d \<Longrightarrow> \<exists>e. ep_descs st d = Some e"
  by (rule ep_invD(4)) (assumption, simp add: owners_def ranI)

lemmas queue_defs = execute_def wake_up_def op_add_def

lemma execute_plain:
  assumes i: "ep_inv awake hs ts (task_ops t + M) st" and t: "task_desc t = None"
  shows "ep_inv awake hs ts M (execute t st)"
proof (rule ep_invI)
  fix d e
  assume "ep_descs (execute t st) d = Some e"
  then have "ep_descs st d = Some e" by (simp add: queue_defs)
  then show "d < ep_next (execute t st)" "desc_ok hs (ts @ ep_queue (execute t st)) (ep_socks (execute t st)) d e"
    using ep_invD(2,3) [OF i] t by (simp_all add: queue_defs desc_ok_def)
qed (use ep_invD [OF i] t in \<open>simp_all add: queue_defs ac_simps\<close>)

lemma execute_desc:
  assumes i: "ep_inv awake (d # hs) ts (task_ops t + M) st" and t: "task_desc t = Some d"
  shows "ep_inv awake hs ts M (execute t st)"
proof (rule ep_invI)
  fix x e
  assume "ep_descs (execute t st) x = Some e"
  then have "ep_descs st x = Some e" by (simp add: queue_defs)
  then show "x < ep_next (execute t st)" "desc_ok hs (ts @ ep_queue (execute t st)) (ep_socks (execute t st)) x e"
    using ep_invD(2) [OF i, of x e] ep_invD(3) [OF i, of x e] t
    by (simp_all add: queue_defs desc_ok_def split: if_splits)
next
  fix x
  assume "0 < owners hs (ts @ ep_queue (execute t st)) (ep_socks (execute t st)) x"
  then show "\<exists>e. ep_descs (execute t st) x = Some e"
    using ep_invD(4) [OF i, of x] t by (simp add: queue_defs split: if_splits)
qed (use ep_invD [OF i] in \<open>simp_all add: queue_defs ac_simps\<close>)

lemma keeps_execute [simp]: "keeps st (execute t st') = keeps st st'"
  by (simp add: keeps_def queue_defs)

lemma dom_upd_live: "m d = Some e \<Longrightarrow> dom (m(d \<mapsto> e')) = dom m"
  by auto

text \<open>Replacing a live descriptor: its count must still cover its owners.\<close>

lemma ep_inv_upd:
  assumes i: "ep_inv awake hs ts M st" and d: "ep_descs st d = Some e"
    and ok: "desc_ok hs' (ts @ ep_queue st) (ep_socks st) d e'"
    and hs: "\<And>x. x \<noteq> d \<Longrightarrow> owners hs' (ts @ ep_queue st) (ep_socks st) x = owners hs (ts @ ep_queue st) (ep_socks st) x"
    and ops: "desc_ops e' + M' = desc_ops e + M"
  shows "ep_inv awake hs' ts M' (st\<lparr>ep_descs := (ep_descs st)(d \<mapsto> e')\<rparr>)"
proof (rule ep_invI)
  let ?st = "st\<lparr>ep_descs := (ep_descs st)(d \<mapsto> e')\<rparr>"
  have dom: "dom (ep_descs ?st) = dom (ep_descs st)" using d by auto
  show "finite (dom (ep_descs ?st))" using dom ep_invD(1) [OF i] by simp
  show "x < ep_next ?st" if "ep_descs ?st x = Some y" for x y
    using that ep_invD(2) [OF i] d by (auto split: if_splits)
  show "desc_ok hs' (ts @ ep_queue ?st) (ep_socks ?st) x y" if "ep_descs ?st x = Some y" for x y
    using that ok hs [of x] ep_invD(3) [OF i, of x y] by (auto simp: desc_ok_def split: if_splits)
  show "\<exists>y. ep_descs ?st x = Some y" if "0 < owners hs' (ts @ ep_queue ?st) (ep_socks ?st) x" for x
    using that hs [of x] ep_invD(4) [OF i, of x] by (cases "x = d") auto
  have "heap_ops (ep_descs ?st) + desc_ops e = heap_ops (ep_descs st) + desc_ops e'"
    using heap_ops_upd [OF ep_invD(1) [OF i] d] by simp
  then have "heap_ops (ep_descs ?st) + M' + (desc_ops e + desc_ops e') =
      heap_ops (ep_descs st) + M + (desc_ops e + desc_ops e')"
    using ops by (metis (no_types, lifting) add.assoc add.commute)
  then have eq: "heap_ops (ep_descs ?st) + M' = heap_ops (ep_descs st) + M" by simp
  show "tasks_ops (ts @ ep_queue ?st) + heap_ops (ep_descs ?st) + log_ops (ep_log ?st) + M' = mset (ep_submitted ?st)"
    using ep_invD(8) [OF i] arg_cong [OF eq, of "\<lambda>x. tasks_ops (ts @ ep_queue st) + log_ops (ep_log st) + x"]
    by (simp add: ac_simps)
  show "ep_ref ?st = int (card (dom (ep_descs ?st)) + length (ts @ ep_queue ?st))"
    unfolding dom using ep_invD(6) [OF i] by simp
qed (use ep_invD(5,7) [OF i] in simp_all)

lemma add_ref_step:
  assumes i: "ep_inv awake hs ts M st" and d: "ep_descs st d = Some e"
  shows "\<exists>st'. descriptor_add_ref d st = Some st' \<and> ep_inv awake (d # hs) ts M st' \<and> keeps st st' \<and> ep_socks st' = ep_socks st"
proof -
  let ?e = "e\<lparr>d_ref := d_ref e + 1\<rparr>"
  have "ep_inv awake (d # hs) ts M (st\<lparr>ep_descs := (ep_descs st)(d \<mapsto> ?e)\<rparr>)"
    using ep_invD(3) [OF i d] by (intro ep_inv_upd [OF i d]) (auto simp: desc_ok_def desc_ops_def)
  then show ?thesis
    using d by (auto simp: descriptor_add_ref_def upd_desc_def keeps_def)
qed

lemma create_step:
  assumes i: "ep_inv awake hs ts M st" and c: "descriptor_create fd st = (d, st')"
  shows "ep_inv awake (d # hs) ts M st'" and "keeps st st'" and "d \<notin> ran (ep_socks st')"
    and "ep_descs st' = (ep_descs st)(d \<mapsto> \<lparr>d_fd = fd, d_queue = [[], [], []], d_ref = 1\<rparr>)"
    and "ep_socks st' = ep_socks st" and "ep_descs st d = None"
proof -
  let ?new = "\<lparr>d_fd = fd, d_queue = [[], [], []], d_ref = 1\<rparr>"
  have st': "st' = st\<lparr>ep_descs := (ep_descs st)(d \<mapsto> ?new), ep_next := d + 1, ep_ref := ep_ref st + 1\<rparr>"
    and d: "d = ep_next st" using c by (auto simp: descriptor_create_def)
  have fresh: "ep_descs st d = None" using ep_invD(2) [OF i, of d] d by (cases "ep_descs st d") auto
  then have none: "owners hs (ts @ ep_queue st) (ep_socks st) d = 0" using ep_invD(4) [OF i, of d] by fastforce
  show "ep_inv awake (d # hs) ts M st'"
  proof (rule ep_invI)
    show "x < ep_next st'" if "ep_descs st' x = Some y" for x y
      using that ep_invD(2) [OF i, of x y] d by (auto simp: st' split: if_splits)
    show "desc_ok (d # hs) (ts @ ep_queue st') (ep_socks st') x y" if "ep_descs st' x = Some y" for x y
      using that none ep_invD(3) [OF i, of x y] by (auto simp: st' desc_ok_def split: if_splits)
    show "\<exists>y. ep_descs st' x = Some y" if "0 < owners (d # hs) (ts @ ep_queue st') (ep_socks st') x" for x
      using that ep_invD(4) [OF i, of x] by (auto simp: st' split: if_splits)
    show "ep_ref st' = int (card (dom (ep_descs st')) + length (ts @ ep_queue st'))"
      using ep_invD(1,6) [OF i] fresh by (simp add: st' domIff)
    show "tasks_ops (ts @ ep_queue st') + heap_ops (ep_descs st') + log_ops (ep_log st') + M = mset (ep_submitted st')"
      using ep_invD(8) [OF i] heap_ops_new [OF ep_invD(1) [OF i] fresh, of ?new]
      by (simp add: st' desc_ops_def)
  qed (use ep_invD(1,5,7) [OF i] in \<open>simp_all add: st'\<close>)
  show "keeps st st'" using fresh by (auto simp: keeps_def st')
  show "d \<notin> ran (ep_socks st')" using none by (auto simp: owners_def st' split: if_splits)
  show "ep_descs st' = (ep_descs st)(d \<mapsto> ?new)" "ep_socks st' = ep_socks st" by (simp_all add: st')
  show "ep_descs st d = None" by (rule fresh)
qed

text \<open>A held reference goes to a socket variable, and back.\<close>

lemma owners_sock_give:
  assumes "d \<notin> ran socks"
  shows "owners hs ts (socks(s \<mapsto> d)) x \<le> owners (d # hs) ts socks x"
  using assms by (auto simp: owners_def ran_def split: if_splits)

lemma owners_sock_take:
  assumes "inj_on socks (dom socks)" and "socks s = Some d"
  shows "owners (d # hs) ts (socks(s := None)) x = owners hs ts socks x"
proof -
  have "d \<notin> ran (socks(s := None))"
    using assms by (auto simp: ran_def inj_on_def dom_def)
  moreover have "x \<in> ran (socks(s := None)) \<longleftrightarrow> x \<in> ran socks" if "x \<noteq> d"
    using that assms(2) by (auto simp: ran_def) (metis option.inject)
  moreover have "d \<in> ran socks" using assms(2) by (auto simp: ran_def)
  ultimately show ?thesis by (auto simp: owners_def)
qed

lemma give_sock:
  assumes i: "ep_inv awake (d # hs) ts M st" and d: "d \<notin> ran (ep_socks st)"
  shows "ep_inv awake hs ts M (st\<lparr>ep_socks := (ep_socks st)(s \<mapsto> d)\<rparr>)"
proof (rule ep_invI)
  let ?st = "st\<lparr>ep_socks := (ep_socks st)(s \<mapsto> d)\<rparr>"
  have le: "owners hs (ts @ ep_queue st) ((ep_socks st)(s \<mapsto> d)) x \<le> owners (d # hs) (ts @ ep_queue st) (ep_socks st) x" for x
    by (rule owners_sock_give [OF d])
  show "desc_ok hs (ts @ ep_queue ?st) (ep_socks ?st) x e" if "ep_descs ?st x = Some e" for x e
    using that ep_invD(3) [OF i, of x e] le [of x] by (auto simp: desc_ok_def simp del: owners_hand)
  show "\<exists>e. ep_descs ?st x = Some e" if "0 < owners hs (ts @ ep_queue ?st) (ep_socks ?st) x" for x
    using that ep_invD(4) [OF i, of x] le [of x] by (simp del: owners_hand)
  show "inj_on (ep_socks ?st) (dom (ep_socks ?st))"
    using ep_invD(5) [OF i] d by (auto simp: inj_on_def ran_def dom_def)
qed (use ep_invD [OF i] in simp_all)

lemma take_sock:
  assumes i: "ep_inv awake hs ts M st" and s: "ep_socks st s = Some d"
  shows "ep_inv awake (d # hs) ts M (st\<lparr>ep_socks := (ep_socks st)(s := None)\<rparr>)"
proof (rule ep_invI)
  let ?st = "st\<lparr>ep_socks := (ep_socks st)(s := None)\<rparr>"
  have eq: "owners (d # hs) (ts @ ep_queue st) ((ep_socks st)(s := None)) x = owners hs (ts @ ep_queue st) (ep_socks st) x" for x
    by (rule owners_sock_take [OF ep_invD(5) [OF i] s])
  show "desc_ok (d # hs) (ts @ ep_queue ?st) (ep_socks ?st) x e" if "ep_descs ?st x = Some e" for x e
    using that ep_invD(3) [OF i, of x e] eq [of x] by (simp add: desc_ok_def del: owners_hand)
  show "\<exists>e. ep_descs ?st x = Some e" if "0 < owners (d # hs) (ts @ ep_queue ?st) (ep_socks ?st) x" for x
    using that ep_invD(4) [OF i, of x] eq [of x] by (simp del: owners_hand)
  show "inj_on (ep_socks ?st) (dom (ep_socks ?st))"
    using ep_invD(5) [OF i] by (auto simp: inj_on_def dom_def)
qed (use ep_invD [OF i] in simp_all)

section \<open>Releasing\<close>

lemma fold_op_add:
  "fold (\<lambda>op. op_add (Run_Op op)) ops st =
     st\<lparr>ep_queue := ep_queue st @ map Run_Op ops, ep_ref := ep_ref st + int (length ops)\<rparr>"
  by (induction ops arbitrary: st) (simp_all add: op_add_def)

lemma abort_id [simp]: "op_id (abort_op op) = op_id op"
  by (simp add: abort_op_def)

lemma abort_tasks_ops: "tasks_ops (map Run_Op (map abort_op ops)) = mset (map op_id ops)"
  by (induction ops) auto

lemma abort_tasks_owners: "owners hs (ts @ map Run_Op ops) socks x = owners hs ts socks x"
  by (induction ops) (simp_all add: owners_def)

lemma release_last:
  assumes "ep_descs st d = Some e" and "d_ref e = 1"
  shows "\<exists>w. ep_wake st \<le> w \<and> (concat (d_queue e) \<noteq> [] \<longrightarrow> 0 < w) \<and> descriptor_release d st =
     Some (st\<lparr>ep_descs := (ep_descs st)(d := None),
       ep_queue := ep_queue st @ map Run_Op (map abort_op (concat (d_queue e))),
       ep_ref := ep_ref st - 1 + int (length (concat (d_queue e))), ep_wake := w\<rparr>)"
proof (cases "concat (d_queue e) = []")
  case True
  then show ?thesis
    using assms by (intro exI [of _ "ep_wake st"]) (simp add: descriptor_release_def)
next
  case False
  then show ?thesis
    using assms by (intro exI [of _ "ep_wake st + 1"])
      (simp add: descriptor_release_def fold_op_add wake_up_def Let_def)
qed

lemma release_step:
  assumes i: "ep_inv awake (d # hs) ts M st"
  shows "\<exists>st'. descriptor_release d st = Some st' \<and> ep_inv awake hs ts M st' \<and> ep_socks st' = ep_socks st \<and>
     (\<forall>x e. x \<noteq> d \<longrightarrow> ep_descs st x = Some e \<longrightarrow> ep_descs st' x = Some e)"
proof -
  obtain e where e: "ep_descs st d = Some e" using ep_inv_live [OF i] by blast
  note ok = ep_invD(3) [OF i e]
  show ?thesis
  proof (cases "d_ref e = 1")
    case False
    have "ep_inv awake hs ts M (st\<lparr>ep_descs := (ep_descs st)(d \<mapsto> e\<lparr>d_ref := d_ref e - 1\<rparr>)\<rparr>)"
      using ok False by (intro ep_inv_upd [OF i e]) (auto simp: desc_ok_def desc_ops_def)
    then show ?thesis using e False by (auto simp: descriptor_release_def)
  next
    case True
    let ?ops = "concat (d_queue e)"
    obtain w where w: "ep_wake st \<le> w" "?ops \<noteq> [] \<longrightarrow> 0 < w" "descriptor_release d st =
     Some (st\<lparr>ep_descs := (ep_descs st)(d := None),
       ep_queue := ep_queue st @ map Run_Op (map abort_op ?ops),
       ep_ref := ep_ref st - 1 + int (length ?ops), ep_wake := w\<rparr>)" (is "_ = Some ?st")
      using release_last [OF e True] by blast
    have none: "owners hs (ts @ ep_queue st) (ep_socks st) d = 0"
      using ok True by (simp add: desc_ok_def)
    have own: "owners hs (ts @ ep_queue ?st) (ep_socks ?st) x = owners hs (ts @ ep_queue st) (ep_socks st) x" for x
      using abort_tasks_owners [of hs "ts @ ep_queue st" "map abort_op ?ops"] by simp
    have "ep_inv awake hs ts M ?st"
    proof (rule ep_invI)
      show "finite (dom (ep_descs ?st))" using ep_invD(1) [OF i] by simp
      show "x < ep_next ?st" if "ep_descs ?st x = Some y" for x y
        using that ep_invD(2) [OF i, of x y] by (simp split: if_splits)
      show "desc_ok hs (ts @ ep_queue ?st) (ep_socks ?st) x y" if "ep_descs ?st x = Some y" for x y
        using that ep_invD(3) [OF i, of x y] own [of x] by (simp add: desc_ok_def split: if_splits)
      show "\<exists>y. ep_descs ?st x = Some y" if "0 < owners hs (ts @ ep_queue ?st) (ep_socks ?st) x" for x
        using that own [of x] none ep_invD(4) [OF i, of x] by (cases "x = d") auto
      show "awake \<or> ep_queue ?st = [] \<or> 0 < ep_wake ?st"
        using w(1,2) ep_invD(7) [OF i] by (cases "?ops = []") auto
      have "card (dom (ep_descs st)) = Suc (card (dom (ep_descs st) - {d}))"
        using ep_invD(1) [OF i] e by (metis card_Suc_Diff1 domI)
      then show "ep_ref ?st = int (card (dom (ep_descs ?st)) + length (ts @ ep_queue ?st))"
        using ep_invD(6) [OF i] by simp
      have "heap_ops (ep_descs ?st) + mset (map op_id ?ops) = heap_ops (ep_descs st)"
        using heap_ops_delete [OF ep_invD(1) [OF i] e] by (simp add: desc_ops_def)
      then show "tasks_ops (ts @ ep_queue ?st) + heap_ops (ep_descs ?st) + log_ops (ep_log ?st) + M = mset (ep_submitted ?st)"
        using ep_invD(8) [OF i] abort_tasks_ops [of ?ops] by (simp add: ac_simps)
    qed (use ep_invD(5) [OF i] in simp_all)
    then show ?thesis using w(3) by auto
  qed
qed

lemma release_socks:
  "descriptor_release d (st\<lparr>ep_socks := X\<rparr>) = map_option (\<lambda>st. st\<lparr>ep_socks := X\<rparr>) (descriptor_release d st)"
  by (simp add: descriptor_release_def Let_def fold_op_add wake_up_def split: option.splits)

section \<open>Requests preserve the invariant\<close>

text \<open>
  What the client must see to: read, write and accept on a stream socket need a socket that is
  open. (With a null pointer, read and write crash and accept drops the operation.)
\<close>

fun valid_request :: "request \<Rightarrow> 'x mux_scheme \<Rightarrow> bool" where
  "valid_request (Req_Read s op) st \<longleftrightarrow> ep_socks st s \<noteq> None"
| "valid_request (Req_Write s op) st \<longleftrightarrow> ep_socks st s \<noteq> None"
| "valid_request (Req_Accept s op) st \<longleftrightarrow> ep_socks st s \<noteq> None"
| "valid_request _ st \<longleftrightarrow> True"

lemma ep_inv_sys [simp]:
  "ep_inv awake hs ts M (st\<lparr>ep_sys := xs\<rparr>) = ep_inv awake hs ts M st"
  "ep_inv awake hs ts M (st\<lparr>ep_closed := c\<rparr>) = ep_inv awake hs ts M st"
  by (simp_all add: ep_inv_def)

lemma keeps_sys [simp]:
  "keeps st (st'\<lparr>ep_sys := xs\<rparr>) = keeps st st'"
  "keeps st (st'\<lparr>ep_closed := c\<rparr>) = keeps st st'"
  "keeps st (st'\<lparr>ep_socks := socks\<rparr>) = keeps st st'"
  "keeps st (st'\<lparr>ep_submitted := b\<rparr>) = keeps st st'"
  "keeps st (st'\<lparr>ep_log := l\<rparr>) = keeps st st'"
  "keeps (st\<lparr>ep_submitted := b\<rparr>) st' = keeps st st'"
  "keeps (st\<lparr>ep_sys := xs\<rparr>) st' = keeps st st'"
  by (simp_all add: keeps_def)

lemma sys_next_cases: obtains r errno xs where "sys_next st = ((r, errno), st\<lparr>ep_sys := xs\<rparr>)"
proof (cases "ep_sys st")
  case Nil
  then show ?thesis using that [of "- 1" EAGAIN "[]"] by (simp add: sys_next_def)
next
  case (Cons x xs)
  then show ?thesis using that [of "fst x" "snd x" xs] by (simp add: sys_next_def)
qed

lemma sys_retry_cases: obtains r errno xs where "sys_retry st = ((r, errno), st\<lparr>ep_sys := xs\<rparr>)"
  by (cases "retry_eintr (ep_sys st)") (auto simp: sys_retry_def)

lemma submit_step:
  "ep_inv awake hs ts M st \<Longrightarrow> ep_inv awake hs ts (mset ids + M) (st\<lparr>ep_submitted := ids @ ep_submitted st\<rparr>)"
  by (auto simp: ep_inv_def ac_simps)

lemma enqueue_step:
  assumes i: "ep_inv awake hs ts (task_ops t + M) st" and t: "task_desc t = Some d" and d: "ep_descs st d = Some e"
  shows "\<exists>st'. map_option (execute t) (descriptor_add_ref d st) = Some st' \<and> ep_inv awake hs ts M st' \<and> keeps st st'"
proof -
  obtain st1 where s: "descriptor_add_ref d st = Some st1" "ep_inv awake (d # hs) ts (task_ops t + M) st1" "keeps st st1"
    using add_ref_step [OF i d] by blast
  have "ep_inv awake hs ts M (execute t st1)" by (rule execute_desc [OF s(2) t])
  then show ?thesis using s by auto
qed

lemma release_sock_step:
  assumes i: "ep_inv awake hs ts M st" and s: "ep_socks st s = Some d"
  shows "\<exists>st'. descriptor_release d st = Some st' \<and> ep_inv awake hs ts M (st'\<lparr>ep_socks := (ep_socks st')(s := None)\<rparr>) \<and>
     (\<forall>x e. x \<noteq> d \<longrightarrow> ep_descs st x = Some e \<longrightarrow> ep_descs st' x = Some e)"
proof -
  let ?st = "st\<lparr>ep_socks := (ep_socks st)(s := None)\<rparr>"
  obtain st1 where r: "descriptor_release d ?st = Some st1" "ep_inv awake hs ts M st1"
    "\<forall>x e. x \<noteq> d \<longrightarrow> ep_descs ?st x = Some e \<longrightarrow> ep_descs st1 x = Some e" "ep_socks st1 = ep_socks ?st"
    using release_step [OF take_sock [OF i s]] by blast
  obtain st2 where st2: "descriptor_release d st = Some st2"
    "st1 = st2\<lparr>ep_socks := (ep_socks st)(s := None)\<rparr>"
    using r(1) by (auto simp: release_socks)
  have "ep_socks st2 = ep_socks st"
    using st2(1) by (auto simp: descriptor_release_def Let_def fold_op_add wake_up_def split: option.splits if_splits)
  then show ?thesis using r st2 by auto
qed

lemma keeps_fresh:
  "ep_descs st d = None \<Longrightarrow> (\<And>x e. x \<noteq> d \<Longrightarrow> ep_descs st x = Some e \<Longrightarrow> ep_descs st' x = Some e) \<Longrightarrow> keeps st st'"
  unfolding keeps_def by (metis option.distinct(1))

lemma run_op_step:
  assumes "ep_inv awake hs ts ({#op_id op#} + M) st"
  shows "ep_inv awake hs ts M (execute (Run_Op op) st)"
  using assms by (intro execute_plain) simp_all

lemma unbind_step: "ep_inv awake hs ts M st \<Longrightarrow> ep_inv awake hs ts M (unbind s st) \<and> keeps st (unbind s st)"
proof (cases "ep_socks st s")
  case (Some d)
  assume i: "ep_inv awake hs ts M st"
  have "ep_inv awake hs ts M (execute (Unbind_Task d) (st\<lparr>ep_socks := (ep_socks st)(s := None)\<rparr>))"
    using take_sock [OF i Some] by (intro execute_desc) simp_all
  then show ?thesis
    using Some keeps_execute [of st "Unbind_Task d" "st\<lparr>ep_socks := (ep_socks st)(s := None)\<rparr>"]
    by (simp add: unbind_def execute_def)
qed (simp add: unbind_def)

text \<open>A client whose handlers and functions only make valid requests.\<close>

fun requests_ok :: "('x, 'ev) reactor \<Rightarrow> request list \<Rightarrow> 'x mux_scheme \<Rightarrow> bool" where
  "requests_ok rx [] st \<longleftrightarrow> True"
| "requests_ok rx (r # rs) st \<longleftrightarrow> valid_request r st \<and> (\<forall>st'. do_request rx r st = Some st' \<longrightarrow> requests_ok rx rs st')"

definition polite :: "('x, 'ev) reactor \<Rightarrow> 'x handlers \<Rightarrow> bool" where
  "polite rx h \<longleftrightarrow> (\<forall>ev st. requests_ok rx (h ev st) st)"

lemma log_step:
  "ep_inv awake hs ts (event_ops ev + M) st \<Longrightarrow> ep_inv awake hs ts M (st\<lparr>ep_log := ev # ep_log st\<rparr>)"
  by (simp add: ep_inv_def ac_simps)

lemma transfer_cases:
  assumes "ep_descs st d = Some e"
  shows "\<exists>r ec' xs. mux_readv d ec st = Some (r, ec', st\<lparr>ep_sys := xs\<rparr>)"
    and "\<exists>r ec' xs. mux_writev d ec st = Some (r, ec', st\<lparr>ep_sys := xs\<rparr>)"
    and "\<exists>r ec' xs. mux_recvfrom d ec st = Some (r, ec', st\<lparr>ep_sys := xs\<rparr>)"
    and "\<exists>r ec' xs. mux_sendto d ec st = Some (r, ec', st\<lparr>ep_sys := xs\<rparr>)"
proof -
  obtain r en xs where s: "sys_retry st = ((r, en), st\<lparr>ep_sys := xs\<rparr>)" by (rule sys_retry_cases)
  have id: "\<exists>xs. st = st\<lparr>ep_sys := xs\<rparr>" by (rule exI [of _ "ep_sys st"]) simp
  show "\<exists>r ec' xs. mux_readv d ec st = Some (r, ec', st\<lparr>ep_sys := xs\<rparr>)"
    using assms s id by (cases "d_fd e = - 1") (auto simp: mux_readv_def)
  show "\<exists>r ec' xs. mux_writev d ec st = Some (r, ec', st\<lparr>ep_sys := xs\<rparr>)"
    using assms s id by (cases "d_fd e = - 1") (auto simp: mux_writev_def)
  show "\<exists>r ec' xs. mux_recvfrom d ec st = Some (r, ec', st\<lparr>ep_sys := xs\<rparr>)"
    using assms s id by (cases "d_fd e = - 1") (auto simp: mux_recvfrom_def)
  show "\<exists>r ec' xs. mux_sendto d ec st = Some (r, ec', st\<lparr>ep_sys := xs\<rparr>)"
    using assms s id by (cases "d_fd e = - 1") (auto simp: mux_sendto_def)
qed

lemma post_id:
  "op_id (snd (post_read_impl res op)) = op_id op" "op_id (snd (post_read_impl_fixed_len res op)) = op_id op"
  "op_id (snd (post_write_impl res op)) = op_id op" "op_id (snd (post_accept_impl res op)) = op_id op"
  "op_id (snd (udp_post_read_impl res op)) = op_id op" "op_id (snd (udp_post_write_impl res op)) = op_id op"
  by (simp_all add: post_read_impl_def post_read_impl_fixed_len_def post_write_impl_def post_accept_impl_def
      udp_post_read_impl_def udp_post_write_impl_def Let_def split: prod.splits)

lemma post_with:
  assumes "res = Some (r, ec, st')" and "ep_inv awake hs ts M st'" and "keeps st st'"
    and "op_id (snd (post (r, ec) op)) = op_id op"
  shows "\<exists>fin op' st'. map_option (\<lambda>(r, ec, st). let (fin, op) = post (r, ec) op in (fin, op, st)) res =
       Some (fin, op', st') \<and> op_id op' = op_id op \<and> ep_inv awake hs ts M st' \<and> keeps st st'"
  using assms by (cases "post (r, ec) op") simp

text \<open>Dispatching keeps every descriptor alive.\<close>

definition lives :: "'x mux_scheme \<Rightarrow> 'x mux_scheme \<Rightarrow> bool" where
  "lives st st' \<longleftrightarrow> dom (ep_descs st) \<subseteq> dom (ep_descs st')"

lemma keeps_lives: "keeps st st' \<Longrightarrow> lives st st'"
  by (fastforce simp: keeps_def lives_def)

lemma lives_trans: "lives st1 st2 \<Longrightarrow> lives st2 st3 \<Longrightarrow> lives st1 st3"
  by (auto simp: lives_def)

lemma lives_upd: "lives st (st\<lparr>ep_descs := (ep_descs st)(d \<mapsto> e)\<rparr>)"
  by (auto simp: lives_def)

lemma queue_ops_split:
  assumes "i < length qs"
  shows "mset (map op_id (concat (qs[i := q]))) + mset (map op_id (qs ! i)) =
         mset (map op_id (concat qs)) + mset (map op_id q)"
  using assms
proof (induction qs arbitrary: i)
  case (Cons a qs)
  then show ?case by (cases i) (auto simp: ac_simps)
qed simp

lemma set_queue_step:
  assumes i: "ep_inv awake hs ts M st" and d: "ep_descs st d = Some e" and j: "j < 3"
    and ops: "mset (map op_id q) + M' = mset (map op_id (d_queue e ! j)) + M"
  shows "ep_inv awake hs ts M' (st\<lparr>ep_descs := (ep_descs st)(d \<mapsto> e\<lparr>d_queue := (d_queue e)[j := q]\<rparr>)\<rparr>)"
proof (rule ep_inv_upd [OF i d])
  have ok: "length (d_queue e) = 3" using ep_invD(3) [OF i d] by (simp add: desc_ok_def)
  let ?A = "mset (map op_id (concat ((d_queue e)[j := q])))" and ?B = "mset (map op_id (concat (d_queue e)))"
  let ?q = "mset (map op_id q)" and ?p = "mset (map op_id (d_queue e ! j))"
  have "?A + ?p = ?B + ?q" using queue_ops_split [of j "d_queue e" q] ok j by simp
  then have "(?A + M') + (?p + ?q) = (?B + ?q) + (?q + M')" by (simp only: ac_simps)
  also have "\<dots> = (?B + M) + (?p + ?q)" using ops by (simp only: ac_simps)
  finally have "?A + M' = ?B + M" by (simp only: add_right_cancel)
  then show "desc_ops (e\<lparr>d_queue := (d_queue e)[j := q]\<rparr>) + M' = desc_ops e + M" by (simp add: desc_ops_def)
qed (use ep_invD(3) [OF i d] in \<open>simp_all add: desc_ok_def\<close>)

lemma lives_refl [simp]: "lives st st"
  by (simp add: lives_def)

lemma push_op_step:
  assumes i: "ep_inv awake (d # hs) ts ({#op_id op#} + M) st" and j: "j < 3"
  shows "\<exists>st'. push_op d j op st = Some st' \<and> ep_inv awake (d # hs) ts M st'"
proof -
  obtain e where e: "ep_descs st d = Some e" using ep_inv_live [OF i] by blast
  have "ep_inv awake (d # hs) ts M
      (st\<lparr>ep_descs := (ep_descs st)(d \<mapsto> e\<lparr>d_queue := (d_queue e)[j := d_queue e ! j @ [op]]\<rparr>)\<rparr>)"
    by (rule set_queue_step [OF i e j]) simp
  then show ?thesis using e by (simp add: push_op_def upd_desc_def)
qed

lemma run_unbind_step:
  assumes i: "ep_inv awake (d # hs) ts M st"
  shows "\<exists>st'. run_unbind d st = Some st' \<and> ep_inv awake hs ts M st'"
proof -
  obtain e where e: "ep_descs st d = Some e" using ep_inv_live [OF i] by blast
  let ?st = "sys_close (d_fd e) (st\<lparr>ep_descs := (ep_descs st)(d \<mapsto> e\<lparr>d_fd := - 1\<rparr>)\<rparr>)"
  have "ep_inv awake (d # hs) ts M (st\<lparr>ep_descs := (ep_descs st)(d \<mapsto> e\<lparr>d_fd := - 1\<rparr>)\<rparr>)"
    using ep_invD(3) [OF i e] by (intro ep_inv_upd [OF i e]) (auto simp: desc_ok_def desc_ops_def)
  then have i1: "ep_inv awake (d # hs) ts M ?st" by (simp add: sys_close_def)
  show ?thesis
    using release_step [OF i] release_step [OF i1] e by (auto simp: run_unbind_def Let_def)
qed

text \<open>Taking a task: the engine's reference to it is given up, its operation and reference are in hand.\<close>

lemma take_task:
  assumes i: "ep_inv awake hs (t # ts) M st"
  shows "ep_inv awake (case task_desc t of None \<Rightarrow> hs | Some d \<Rightarrow> d # hs) ts (task_ops t + M)
           (st\<lparr>ep_ref := ep_ref st - 1\<rparr>)"
proof -
  have o: "owners (case task_desc t of None \<Rightarrow> hs | Some d \<Rightarrow> d # hs) us socks x = owners hs (t # us) socks x" for us socks x
    by (auto simp: owners_def split: option.splits)
  show ?thesis
  proof (rule ep_invI)
    fix x e
    assume "ep_descs (st\<lparr>ep_ref := ep_ref st - 1\<rparr>) x = Some e"
    then show "x < ep_next (st\<lparr>ep_ref := ep_ref st - 1\<rparr>)"
      "desc_ok (case task_desc t of None \<Rightarrow> hs | Some d \<Rightarrow> d # hs)
         (ts @ ep_queue (st\<lparr>ep_ref := ep_ref st - 1\<rparr>)) (ep_socks (st\<lparr>ep_ref := ep_ref st - 1\<rparr>)) x e"
      using ep_invD(2,3) [OF i, of x e] by (simp_all add: desc_ok_def o)
  qed (use ep_invD [OF i] in \<open>simp_all add: o ac_simps\<close>)
qed

lemma ep_inv_awake: "ep_inv awake hs ts M st \<Longrightarrow> ep_inv True hs ts M (st\<lparr>ep_wake := w\<rparr>)"
  by (simp add: ep_inv_def)

text \<open>The kernel reports events of registered descriptors only.\<close>

definition events_live :: "(nat option \<times> 'ev) list \<Rightarrow> 'x mux_scheme \<Rightarrow> bool" where
  "events_live evs st \<longleftrightarrow> (\<forall>ev\<in>set evs. \<forall>d. fst ev = Some d \<longrightarrow> d \<in> dom (ep_descs st))"

lemma take_queue: "ep_inv awake hs [] {#} st \<Longrightarrow> ep_inv False hs (ep_queue st) {#} (st\<lparr>ep_queue := []\<rparr>)"
  by (simp add: ep_inv_def)

section \<open>What the invariant gives\<close>

definition ep_pending :: "'x mux_scheme \<Rightarrow> nat multiset" where
  "ep_pending st = tasks_ops (ep_queue st) + heap_ops (ep_descs st)"

lemma inv_multiplexer:
  assumes "\<And>st. P st \<Longrightarrow> ep_inv False [] [] {#} st"
  shows "multiplexer P ep_ref (\<lambda>st. card (dom (ep_descs st))) (\<lambda>st. length (ep_queue st))
     (\<lambda>st. mset (ep_submitted st)) (\<lambda>st. log_ops (ep_log st)) ep_pending"
proof unfold_locales
  fix st
  assume "P st"
  then have i: "ep_inv False [] [] {#} st" by (rule assms)
  show "ep_ref st = int (card (dom (ep_descs st)) + length (ep_queue st))"
    using ep_invD(6) [OF i] by simp
  show "mset (ep_submitted st) = log_ops (ep_log st) + ep_pending st"
    using ep_invD(8) [OF i] by (simp add: ep_pending_def ac_simps)
  show "ep_pending st = {#}" if "card (dom (ep_descs st)) = 0" "length (ep_queue st) = 0"
    using that ep_invD(1) [OF i] by (simp add: ep_pending_def heap_ops_def)
qed

lemma inv_owners:
  assumes i: "ep_inv False [] [] {#} st" and o: "0 < owners [] (ep_queue st) (ep_socks st) d"
  shows "\<exists>e. ep_descs st d = Some e \<and> int (owners [] (ep_queue st) (ep_socks st) d) \<le> d_ref e"
proof -
  have "0 < owners [] ([] @ ep_queue st) (ep_socks st) d" using o by simp
  from ep_invD(4) [OF i this] obtain e where e: "ep_descs st d = Some e" by blast
  then show ?thesis using ep_invD(3) [OF i e] by (simp add: desc_ok_def)
qed

section \<open>What a multiplexer's own part must leave alone\<close>

definition same_core :: "'x mux_scheme \<Rightarrow> 'x mux_scheme \<Rightarrow> bool" where
  "same_core st st' \<longleftrightarrow> ep_descs st' = ep_descs st \<and> ep_next st' = ep_next st \<and> ep_queue st' = ep_queue st \<and>
     ep_ref st' = ep_ref st \<and> ep_wake st' = ep_wake st \<and> ep_socks st' = ep_socks st \<and> ep_log st' = ep_log st \<and>
     ep_submitted st' = ep_submitted st"

lemma same_coreD:
  assumes "same_core st st'"
  shows "ep_descs st' = ep_descs st" and "ep_socks st' = ep_socks st"
    and "ep_inv awake hs ts M st' = ep_inv awake hs ts M st" and "keeps x st' = keeps x st" and "lives x st' = lives x st"
  using assms by (simp_all add: same_core_def ep_inv_def keeps_def lives_def)

lemma same_core_refl [simp]: "same_core st st"
  by (simp add: same_core_def)

text \<open>What may happen to a multiplexer from a state on: valid requests and rounds of the loop.\<close>

inductive mux_steps :: "('x, 'ev) reactor \<Rightarrow> 'x handlers \<Rightarrow> 'x mux_scheme \<Rightarrow> 'x mux_scheme \<Rightarrow> bool" for rx h st where
  Step_None: "mux_steps rx h st st"
| Step_Request: "mux_steps rx h st st' \<Longrightarrow> valid_request r st' \<Longrightarrow> do_request rx r st' = Some st'' \<Longrightarrow> mux_steps rx h st st''"
| Step_Run: "mux_steps rx h st st' \<Longrightarrow> events_live evs st' \<Longrightarrow> mux_run rx h evs st' = Some (n, st'') \<Longrightarrow> mux_steps rx h st st''"

locale reactor_laws =
  fixes rx :: "('x, 'ev) reactor"
  assumes bind_law: "ep_descs st d = Some e \<Longrightarrow> \<exists>b en st'. rx_bind rx d st = Some (b, en, st') \<and> same_core st st'"
    and settle_law: "ep_descs st d = Some e \<Longrightarrow> \<exists>st'. rx_settle rx d st = Some st' \<and> same_core st st'"
    and settle_core: "rx_settle rx d st = Some st' \<Longrightarrow> same_core st st'"
    and queues_law: "set (rx_queues rx) \<subseteq> {..<3}"
begin

lemma bind_cases:
  assumes "ep_descs st d = Some e"
  obtains b en st' where "rx_bind rx d st = Some (b, en, st')" and "same_core st st'"
  using bind_law [OF assms] by blast

lemma create_bound_step:
  assumes i: "ep_inv awake hs ts M st"
  shows "\<exists>b st'. create_bound rx s fd st = Some (b, st') \<and> ep_inv awake hs ts M st' \<and> keeps st st'"
proof -
  obtain d st1 where c: "descriptor_create fd st = (d, st1)" by fastforce
  note cs = create_step [OF i c]
  let ?st2 = "st1\<lparr>ep_socks := (ep_socks st1)(s \<mapsto> d)\<rparr>"
  have i2: "ep_inv awake hs ts M ?st2" by (rule give_sock [OF cs(1,3)])
  have "ep_descs ?st2 d = Some \<lparr>d_fd = fd, d_queue = [[], [], []], d_ref = 1\<rparr>" using cs(4) by simp
  then obtain r errno st3 where b: "rx_bind rx d ?st2 = Some (r, errno, st3)" "same_core ?st2 st3" by (rule bind_cases)
  note core = same_coreD [OF b(2)]
  have i3: "ep_inv awake hs ts M st3" and k3: "keeps st st3" using i2 cs(2) by (simp_all add: core)
  show ?thesis
  proof (cases r)
    case True
    then show ?thesis
      using c b(1) i3 k3 by (auto simp: create_bound_def)
  next
    case False
    obtain st4 where r4: "descriptor_release d st3 = Some st4"
      "ep_inv awake hs ts M (st4\<lparr>ep_socks := (ep_socks st4)(s := None)\<rparr>)"
      "\<forall>x e. x \<noteq> d \<longrightarrow> ep_descs st3 x = Some e \<longrightarrow> ep_descs st4 x = Some e"
      using release_sock_step [OF i3, of s d] core(2) by auto
    have "keeps st st4" using r4(3) cs(4,6) core(1) by (intro keeps_fresh [OF cs(6)]) auto
    then show ?thesis
      using c b(1) False r4(1,2) by (auto simp: create_bound_def sys_close_def)
  qed
qed

lemma connect_step:
  assumes i: "ep_inv awake hs ts ({#op_id op#} + M) st"
  shows "\<exists>st'. mux_connect rx s op st = Some st' \<and> ep_inv awake hs ts M st' \<and> keeps st st'"
proof -
  obtain fd en xs where s1: "sys_next st = ((fd, en), st\<lparr>ep_sys := xs\<rparr>)" by (rule sys_next_cases)
  let ?st1 = "st\<lparr>ep_sys := xs\<rparr>"
  obtain r en2 ys where s2: "sys_retry ?st1 = ((r, en2), ?st1\<lparr>ep_sys := ys\<rparr>)" by (rule sys_retry_cases)
  let ?st2 = "?st1\<lparr>ep_sys := ys\<rparr>"
  have i2: "ep_inv awake hs ts ({#op_id op#} + M) ?st2" using i by simp
  consider "fd = - 1" | "fd \<noteq> - 1" "r \<noteq> 0" "en2 \<noteq> EINPROGRESS" | "fd \<noteq> - 1" "r = 0 \<or> en2 = EINPROGRESS"
    by blast
  then show ?thesis
  proof cases
    case 1
    then show ?thesis
      using s1 i run_op_step [of awake hs ts "op\<lparr>op_error := last_error en\<rparr>" M ?st1]  by (simp add: mux_connect_def)
  next
    case 2
    then show ?thesis
      using s1 s2 i run_op_step [of awake hs ts "op\<lparr>op_error := last_error en2\<rparr>" M "sys_close fd ?st2"]
      by (simp add: mux_connect_def sys_close_def)
  next
    case 3
    obtain d st3 where c: "descriptor_create fd ?st2 = (d, st3)" by fastforce
    note cs = create_step [OF i2 c]
    let ?e = "\<lparr>d_fd = fd, d_queue = [[], [], []], d_ref = 1\<rparr>"
    let ?st4 = "st3\<lparr>ep_socks := (ep_socks st3)(s \<mapsto> d)\<rparr>"
    have i4: "ep_inv awake hs ts ({#op_id op#} + M) ?st4" by (rule give_sock [OF cs(1,3)])
    have d4: "ep_descs ?st4 d = Some ?e" using cs(4) by simp
    let ?upd = "\<lambda>st o'. st\<lparr>ep_descs := (ep_descs st)(d \<mapsto> ?e\<lparr>d_queue := [[], [o'], []]\<rparr>)\<rparr>"
    have i5: "ep_inv awake hs ts M (?upd ?st4 op)"
      using ep_invD(3) [OF i4 d4] by (intro ep_inv_upd [OF i4 d4]) (auto simp: desc_ok_def desc_ops_def)
    have "ep_descs (?upd ?st4 op) d = Some (?e\<lparr>d_queue := [[], [op], []]\<rparr>)" by simp
    then obtain b en3 st5 where s3: "rx_bind rx d (?upd ?st4 op) = Some (b, en3, st5)" and co: "same_core (?upd ?st4 op) st5"
      by (rule bind_cases)
    note core = same_coreD [OF co]
    have u: "upd_desc d (\<lambda>e. e\<lparr>d_queue := [[], [op], []]\<rparr>) ?st4 = Some (?upd ?st4 op)"
      using d4 by (simp add: upd_desc_def)
    have k5: "keeps st st5" using cs(4,6) by (intro keeps_fresh) (auto simp: core)
    show ?thesis
    proof (cases b)
      case True
      then show ?thesis
        using 3 s1 s2 c u s3 i5 k5 by (simp add: mux_connect_def core)
    next
      case False
      let ?o = "op\<lparr>op_error := last_error en3\<rparr>"
      let ?st6 = "sys_close fd st5"
      have i6: "ep_inv awake hs ts M ?st6" using i5 by (simp add: sys_close_def core)
      have d6: "ep_descs ?st6 d = Some (?e\<lparr>d_queue := [[], [op], []]\<rparr>)" by (simp add: sys_close_def core)
      have i7: "ep_inv awake hs ts M (?upd ?st6 ?o)"
        using ep_invD(3) [OF i6 d6] by (intro ep_inv_upd [OF i6 d6]) (auto simp: desc_ok_def desc_ops_def)
      have "ep_socks (?upd ?st6 ?o) s = Some d" by (simp add: sys_close_def core)
      from release_sock_step [OF i7 this] obtain st8 where r: "descriptor_release d (?upd ?st6 ?o) = Some st8"
        "ep_inv awake hs ts M (st8\<lparr>ep_socks := (ep_socks st8)(s := None)\<rparr>)"
        "\<forall>x e. x \<noteq> d \<longrightarrow> ep_descs (?upd ?st6 ?o) x = Some e \<longrightarrow> ep_descs st8 x = Some e" by blast
      have "upd_desc d (\<lambda>e. e\<lparr>d_queue := [[], [?o], []]\<rparr>) ?st6 = Some (?upd ?st6 ?o)"
        using d6 by (simp add: upd_desc_def)
      moreover have "keeps st st8" using r(3) cs(4,6) by (intro keeps_fresh) (auto simp: sys_close_def core)
      ultimately show ?thesis
        using 3 s1 s2 c u s3 False r(1,2) by (simp add: mux_connect_def)
    qed
  qed
qed

lemma udp_write_step:
  assumes i: "ep_inv awake hs ts ({#op_id op#} + M) st"
  shows "\<exists>st'. udp_write rx s op st = Some st' \<and> ep_inv awake hs ts M st' \<and> keeps st st'"
proof (cases "ep_socks st s")
  case (Some d)
  obtain e where "ep_descs st d = Some e" using ep_inv_sock_live [OF i Some] by blast
  then show ?thesis
    using enqueue_step [of awake hs ts "Write_Task d op" M st d e] i Some by (simp add: udp_write_def)
next
  case None
  obtain fd en xs where s1: "sys_next st = ((fd, en), st\<lparr>ep_sys := xs\<rparr>)" by (rule sys_next_cases)
  let ?st1 = "st\<lparr>ep_sys := xs\<rparr>"
  have i1: "ep_inv awake hs ts ({#op_id op#} + M) ?st1" using i by simp
  show ?thesis
  proof (cases "fd = - 1")
    case True
    then show ?thesis
      using None s1 i run_op_step [of awake hs ts "op\<lparr>op_error := last_error en\<rparr>" M ?st1] 
      by (simp add: udp_write_def)
  next
    case False
    obtain d st2 where c: "descriptor_create fd ?st1 = (d, st2)" by fastforce
    note cs = create_step [OF i1 c]
    let ?st3 = "st2\<lparr>ep_socks := (ep_socks st2)(s \<mapsto> d)\<rparr>"
    have "ep_descs ?st3 d = Some \<lparr>d_fd = fd, d_queue = [[], [], []], d_ref = 1\<rparr>" using cs(4) by simp
    then obtain b en2 st4 where s3: "rx_bind rx d ?st3 = Some (b, en2, st4)" and co: "same_core ?st3 st4" by (rule bind_cases)
    note core = same_coreD [OF co]
    have i4: "ep_inv awake hs ts ({#op_id op#} + M) st4" using give_sock [OF cs(1,3), of s] by (simp add: core)
    show ?thesis
    proof (cases b)
      case True
      have "\<exists>st'. map_option (execute (Write_Task d op)) (descriptor_add_ref d st4) = Some st' \<and>
          ep_inv awake hs ts M st' \<and> keeps st4 st'"
        using cs(4) by (intro enqueue_step) (use i4 core(1) in auto)
      moreover have "keeps st st4" using cs(2) by (simp add: core)
      ultimately show ?thesis
        using None s1 False c s3 True keeps_trans [of st st4] by (auto simp: udp_write_def)
    next
      case nb: False
      obtain st5 where r: "descriptor_release d st4 = Some st5"
        "ep_inv awake hs ts ({#op_id op#} + M) (st5\<lparr>ep_socks := (ep_socks st5)(s := None)\<rparr>)"
        "\<forall>x e. x \<noteq> d \<longrightarrow> ep_descs st4 x = Some e \<longrightarrow> ep_descs st5 x = Some e"
        using release_sock_step [OF i4, of s d] core(2) by auto
      let ?st6 = "sys_close fd (st5\<lparr>ep_socks := (ep_socks st5)(s := None)\<rparr>)"
      have "keeps st ?st6" using r(3) cs(4,6) core(1) by (intro keeps_fresh) (auto simp: sys_close_def)
      moreover have "ep_inv awake hs ts M (execute (Run_Op (op\<lparr>op_error := last_error en2\<rparr>)) ?st6)"
        using r(2) by (intro run_op_step) (simp add: sys_close_def)
      ultimately show ?thesis
        using None s1 False c s3 nb r(1)
        by (simp add: udp_write_def)
    qed
  qed
qed

text \<open>The three operations that open a socket.\<close>

lemma open_steps:
  assumes i: "ep_inv awake hs ts M st"
  shows "\<exists>st'. map_option snd (mux_listen rx s st) = Some st' \<and> ep_inv awake hs ts M st' \<and> keeps st st'"
    and "\<exists>st'. map_option snd (mux_open rx s st) = Some st' \<and> ep_inv awake hs ts M st' \<and> keeps st st'"
    and "\<exists>st'. map_option snd (mux_bind_address rx s st) = Some st' \<and> ep_inv awake hs ts M st' \<and> keeps st st'"
proof -
  obtain fd en xs where s1: "sys_next st = ((fd, en), st\<lparr>ep_sys := xs\<rparr>)" by (rule sys_next_cases)
  let ?st1 = "st\<lparr>ep_sys := xs\<rparr>"
  obtain r1 en1 ys where s2: "sys_next ?st1 = ((r1, en1), ?st1\<lparr>ep_sys := ys\<rparr>)" by (rule sys_next_cases)
  let ?st2 = "?st1\<lparr>ep_sys := ys\<rparr>"
  obtain r2 en2 zs where s3: "sys_next ?st2 = ((r2, en2), ?st2\<lparr>ep_sys := zs\<rparr>)" by (rule sys_next_cases)
  have cb: "\<exists>b st'. create_bound rx s fd (st\<lparr>ep_sys := ws\<rparr>) = Some (b, st') \<and> ep_inv awake hs ts M st' \<and> keeps st st'" for ws
    using create_bound_step [of awake hs ts M "st\<lparr>ep_sys := ws\<rparr>" s fd] i by simp
  show "\<exists>st'. map_option snd (mux_listen rx s st) = Some st' \<and> ep_inv awake hs ts M st' \<and> keeps st st'"
    using s1 s2 s3 i cb [of zs]
    by (auto simp: mux_listen_def sys_close_def keeps_def)
  show "\<exists>st'. map_option snd (mux_open rx s st) = Some st' \<and> ep_inv awake hs ts M st' \<and> keeps st st'"
    using s1 i cb [of xs] by (auto simp: mux_open_def keeps_def)
  show "\<exists>st'. map_option snd (mux_bind_address rx s st) = Some st' \<and> ep_inv awake hs ts M st' \<and> keeps st st'"
    using s1 s2 i cb [of ys] by (auto simp: mux_bind_address_def sys_close_def keeps_def)
qed

lemma request_step:
  assumes "ep_inv awake hs ts M st" and v: "valid_request r st"
  shows "\<exists>st'. do_request rx r st = Some st' \<and> ep_inv awake hs ts M st' \<and> keeps st st'"
proof -
  let ?st = "st\<lparr>ep_submitted := request_ids r @ ep_submitted st\<rparr>"
  have i: "ep_inv awake hs ts (mset (request_ids r) + M) ?st" by (rule submit_step [OF assms(1)])
  have live: "\<exists>e. ep_descs ?st d = Some e" if "ep_socks st s = Some d" for s d
    using ep_inv_sock_live [OF assms(1) that] by simp
  have "\<exists>st'. issue rx r ?st = Some st' \<and> ep_inv awake hs ts M st' \<and> keeps ?st st'"
  proof (cases r)
    case (Req_Read s op)
    with v obtain d where d: "ep_socks st s = Some d" by auto
    from live [OF d] obtain e where "ep_descs ?st d = Some e" ..
    then show ?thesis
      using enqueue_step [of awake hs ts "Read_Task d op" M ?st d e] i Req_Read d by (simp add: tcp_read_def)
  next
    case (Req_Write s op)
    with v obtain d where d: "ep_socks st s = Some d" by auto
    from live [OF d] obtain e where "ep_descs ?st d = Some e" ..
    then show ?thesis
      using enqueue_step [of awake hs ts "Write_Task d op" M ?st d e] i Req_Write d by (simp add: tcp_write_def)
  next
    case (Req_Accept s op)
    with v obtain d where d: "ep_socks st s = Some d" by auto
    from live [OF d] obtain e where "ep_descs ?st d = Some e" ..
    then show ?thesis
      using enqueue_step [of awake hs ts "Read_Task d op" M ?st d e] i Req_Accept d by (simp add: mux_accept_request_def)
  next
    case (Req_Close s)
    then show ?thesis using unbind_step [of awake hs ts M ?st s] i by simp
  next
    case (Req_Execute k)
    then show ?thesis using execute_plain [of awake hs ts "Call k" M ?st] i  by simp
  next
    case (Req_Connect s op)
    then show ?thesis using connect_step [of awake hs ts op M ?st s] i by simp
  next
    case (Req_Listen s)
    then show ?thesis using open_steps(1) [of awake hs ts M ?st s] i by simp
  next
    case (Req_Open s)
    then show ?thesis using open_steps(2) [of awake hs ts M ?st s] i by simp
  next
    case (Req_Bind s)
    then show ?thesis using open_steps(3) [of awake hs ts M ?st s] i by simp
  next
    case (Req_Udp_Write s op)
    then show ?thesis using udp_write_step [of awake hs ts op M ?st s] i by simp
  next
    case (Req_Udp_Read s op)
    show ?thesis
    proof (cases "ep_socks st s")
      case None
      then show ?thesis
        using Req_Udp_Read run_op_step [of awake hs ts "op\<lparr>op_error := error_invalid\<rparr>" M ?st] i 
        by (simp add: udp_read_def)
    next
      case (Some d)
      from live [OF Some] obtain e where "ep_descs ?st d = Some e" ..
      then show ?thesis
        using enqueue_step [of awake hs ts "Read_Task d op" M ?st d e] i Req_Udp_Read Some by (simp add: udp_read_def)
    qed
  qed
  then show ?thesis by (simp add: do_request_def)
qed

section \<open>Handlers\<close>

lemma requests_step:
  assumes "ep_inv awake hs ts M st" and "requests_ok rx rs st"
  shows "\<exists>st'. do_requests rx rs st = Some st' \<and> ep_inv awake hs ts M st' \<and> keeps st st'"
  using assms
proof (induction rs arbitrary: st)
  case (Cons r rs)
  obtain st1 where "do_request rx r st = Some st1" "ep_inv awake hs ts M st1" "keeps st st1"
    using request_step [OF Cons.prems(1), of r] Cons.prems(2) by auto
  moreover from this Cons.prems(2) have "requests_ok rx rs st1" by simp
  ultimately show ?case using Cons.IH [of st1] keeps_trans [of st st1] by auto
qed simp

lemma complete_step:
  assumes i: "ep_inv awake hs ts ({#op_id op#} + M) st" and h: "polite rx h"
  shows "\<exists>st'. complete rx h op st = Some st' \<and> ep_inv awake hs ts M st' \<and> keeps st st'"
proof -
  let ?st = "st\<lparr>ep_log := Completed op # ep_log st\<rparr>"
  have i1: "ep_inv awake hs ts M ?st" using i by (intro log_step) simp
  have "requests_ok rx (h (Completed op) ?st) ?st" using h by (simp add: polite_def)
  from requests_step [OF i1 this] show ?thesis by (simp add: complete_def Let_def keeps_def)
qed

lemma call_function_step:
  assumes i: "ep_inv awake hs ts M st" and h: "polite rx h"
  shows "\<exists>st'. call_function rx h k st = Some st' \<and> ep_inv awake hs ts M st' \<and> keeps st st'"
proof -
  let ?st = "st\<lparr>ep_log := Called k # ep_log st\<rparr>"
  have i1: "ep_inv awake hs ts M ?st" using i by (intro log_step) simp
  have "requests_ok rx (h (Called k) ?st) ?st" using h by (simp add: polite_def)
  from requests_step [OF i1 this] show ?thesis by (simp add: call_function_def Let_def keeps_def)
qed

section \<open>Dispatching\<close>

lemma accept_step:
  assumes i: "ep_inv awake hs ts M st" and d: "ep_descs st d = Some e"
  shows "\<exists>r ec' st'. mux_accept rx d s ec st = Some (r, ec', st') \<and> ep_inv awake hs ts M st' \<and> keeps st st'"
proof -
  obtain fd en xs where s: "sys_retry st = ((fd, en), st\<lparr>ep_sys := xs\<rparr>)" by (rule sys_retry_cases)
  let ?st1 = "st\<lparr>ep_sys := xs\<rparr>"
  have i1: "ep_inv awake hs ts M ?st1" using i by simp
  show ?thesis
  proof (cases "d_fd e = - 1 \<or> fd = - 1")
    case True
    then show ?thesis using d s i by (auto simp: mux_accept_def)
  next
    case False
    obtain a st2 where c: "descriptor_create fd ?st1 = (a, st2)" by fastforce
    note cs = create_step [OF i1 c]
    let ?st3 = "st2\<lparr>ep_socks := (ep_socks st2)(s \<mapsto> a)\<rparr>"
    have "ep_descs ?st3 a = Some \<lparr>d_fd = fd, d_queue = [[], [], []], d_ref = 1\<rparr>" using cs(4) by simp
    then obtain b en2 st4 where s3: "rx_bind rx a ?st3 = Some (b, en2, st4)" and co: "same_core ?st3 st4" by (rule bind_cases)
    note core = same_coreD [OF co]
    have "ep_inv awake hs ts M st4" "keeps st st4" using give_sock [OF cs(1,3), of s] cs(2) by (simp_all add: core)
    then show ?thesis
      using d s False c s3 by (simp add: mux_accept_def)
  qed
qed

lemma post_proc_step:
  assumes i: "ep_inv awake hs ts M st" and d: "ep_descs st d = Some e"
  shows "\<exists>fin op' st'. post_proc rx d op st = Some (fin, op', st') \<and> op_id op' = op_id op \<and>
     ep_inv awake hs ts M st' \<and> keeps st st'"
proof -
  note t = transfer_cases [OF d, of "op_error op"]
  obtain r1 e1 x1 where t1: "mux_readv d (op_error op) st = Some (r1, e1, st\<lparr>ep_sys := x1\<rparr>)" using t(1) by blast
  obtain r2 e2 x2 where t2: "mux_writev d (op_error op) st = Some (r2, e2, st\<lparr>ep_sys := x2\<rparr>)" using t(2) by blast
  obtain r3 e3 x3 where t3: "mux_recvfrom d (op_error op) st = Some (r3, e3, st\<lparr>ep_sys := x3\<rparr>)" using t(3) by blast
  obtain r4 e4 x4 where t4: "mux_sendto d (op_error op) st = Some (r4, e4, st\<lparr>ep_sys := x4\<rparr>)" using t(4) by blast
  obtain r5 e5 st5 where t5: "mux_accept rx d (op_socket op) (op_error op) st = Some (r5, e5, st5)"
    "ep_inv awake hs ts M st5" "keeps st st5"
    using accept_step [OF i d] by blast
  have k: "ep_inv awake hs ts M (st\<lparr>ep_sys := xs\<rparr>)" "keeps st (st\<lparr>ep_sys := xs\<rparr>)" for xs
    using i by simp_all
  show ?thesis
  proof (cases "op_post op")
    case Post_Read
    from post_with [where post = post_read_impl and op = op, OF t1 k post_id(1)] show ?thesis by (simp only: post_proc_def Let_def Post_Read post_proc_handler.case)
  next
    case Post_Read_Fixed_Len
    from post_with [where post = post_read_impl_fixed_len and op = op, OF t1 k post_id(2)] show ?thesis by (simp only: post_proc_def Let_def Post_Read_Fixed_Len post_proc_handler.case)
  next
    case Post_Write
    from post_with [where post = post_write_impl and op = op, OF t2 k post_id(3)] show ?thesis by (simp only: post_proc_def Let_def Post_Write post_proc_handler.case)
  next
    case Post_Accept
    from post_with [where post = post_accept_impl and op = op, OF t5 post_id(4)] show ?thesis by (simp only: post_proc_def Let_def Post_Accept post_proc_handler.case)
  next
    case Post_Connect
    then show ?thesis using i by (auto simp: post_proc_def post_connect_def)
  next
    case Post_Udp_Read
    from post_with [where post = udp_post_read_impl and op = op, OF t3 k post_id(5)] show ?thesis by (simp only: post_proc_def Let_def Post_Udp_Read post_proc_handler.case)
  next
    case Post_Udp_Write
    from post_with [where post = udp_post_write_impl and op = op, OF t4 k post_id(6)] show ?thesis by (simp only: post_proc_def Let_def Post_Udp_Write post_proc_handler.case)
  qed
qed

lemma dispatch_loop_step:
  assumes "ep_inv awake hs ts M st" and "ep_descs st d = Some e" and "i < 3" and h: "polite rx h"
  shows "\<exists>st'. dispatch_loop rx h d i st = Some st' \<and> ep_inv awake hs ts M st' \<and> lives st st'"
  using assms(1-3)
proof (induction "length (d_queue e ! i)" arbitrary: st e)
  case 0
  then show ?case by (subst dispatch_loop.simps) (auto simp: lives_def)
next
  case (Suc n)
  then obtain op q where q: "d_queue e ! i = op # q" by (cases "d_queue e ! i") auto
  obtain fin op' st1 where p: "post_proc rx d op st = Some (fin, op', st1)" "op_id op' = op_id op"
    "ep_inv awake hs ts M st1" "keeps st st1"
    using post_proc_step [OF Suc.prems(1,2)] by blast
  obtain e1 where e1: "ep_descs st1 d = Some e1" "d_queue e1 = d_queue e"
    using p(4) Suc.prems(2) by (auto simp: keeps_def)
  have len: "i < length (d_queue e1)"
    using ep_invD(3) [OF p(3) e1(1)] Suc.prems(3) by (simp add: desc_ok_def)
  show ?case
  proof (cases fin)
    case False
    let ?st = "st1\<lparr>ep_descs := (ep_descs st1)(d \<mapsto> e1\<lparr>d_queue := (d_queue e1)[i := op' # q]\<rparr>)\<rparr>"
    have "ep_inv awake hs ts M ?st"
      using p(2) q e1(2) by (intro set_queue_step [OF p(3) e1(1) Suc.prems(3)]) simp
    moreover have "dispatch_loop rx h d i st = Some ?st"
      using Suc.prems(2) q p(1) e1 False by (subst dispatch_loop.simps) (simp add: upd_desc_def)
    ultimately show ?thesis
      using lives_trans [OF keeps_lives [OF p(4)] lives_upd] by blast
  next
    case True
    let ?e2 = "e1\<lparr>d_queue := (d_queue e1)[i := q]\<rparr>"
    let ?st2 = "st1\<lparr>ep_descs := (ep_descs st1)(d \<mapsto> ?e2)\<rparr>"
    have "ep_inv awake hs ts ({#op_id op'#} + M) ?st2"
      using p(2) q e1(2) by (intro set_queue_step [OF p(3) e1(1) Suc.prems(3)]) simp
    from complete_step [OF this h] obtain st3 where c: "complete rx h op' ?st2 = Some st3"
      "ep_inv awake hs ts M st3" "keeps ?st2 st3" by blast
    obtain e3 where e3: "ep_descs st3 d = Some e3" "d_queue e3 ! i = q"
      using c(3) [unfolded keeps_def, rule_format, of d ?e2] len by auto
    obtain st4 where st4: "dispatch_loop rx h d i st3 = Some st4" "ep_inv awake hs ts M st4" "lives st3 st4"
      using Suc.hyps(1) [of e3 st3] Suc.hyps(2) q c(2) e3 Suc.prems(3) by auto
    have "dispatch_loop rx h d i st = Some st4"
      using Suc.prems(2) q p(1) e1 True c(1) st4(1) by (subst dispatch_loop.simps) (simp add: upd_desc_def)
    moreover have "lives st st4"
      using lives_trans [OF keeps_lives [OF p(4)] lives_trans [OF lives_upd lives_trans [OF keeps_lives [OF c(3)] st4(3)]]] .
    ultimately show ?thesis using st4(2) by blast
  qed
qed

lemma dispatch_from_step:
  assumes "ep_inv awake hs ts M st" and "d \<in> dom (ep_descs st)" and "set is \<subseteq> {..<3}" and h: "polite rx h"
  shows "\<exists>st'. dispatch_from rx h d events is st = Some st' \<and> ep_inv awake hs ts M st' \<and> lives st st'"
  using assms(1-3)
proof (induction "is" arbitrary: st)
  case (Cons i "is")
  show ?case
  proof (cases "rx_ready rx events i")
    case False
    then show ?thesis using Cons by simp
  next
    case True
    obtain e where "ep_descs st d = Some e" using Cons.prems(2) by auto
    then obtain st1 where s1: "dispatch_loop rx h d i st = Some st1" "ep_inv awake hs ts M st1" "lives st st1"
      using dispatch_loop_step [OF Cons.prems(1) _ _ h, of d e i] Cons.prems(3) by auto
    moreover have "d \<in> dom (ep_descs st1)" using s1(3) Cons.prems(2) by (auto simp: lives_def)
    ultimately obtain st2 where "dispatch_from rx h d events is st1 = Some st2" "ep_inv awake hs ts M st2" "lives st1 st2"
      using Cons.IH [of st1] Cons.prems(3) by auto
    then show ?thesis using s1 True lives_trans by auto
  qed
qed simp

lemma dispatch_step:
  assumes "ep_inv awake hs ts M st" and "d \<in> dom (ep_descs st)" and "polite rx h"
  shows "\<exists>st'. descriptor_dispatch rx h d events st = Some st' \<and> ep_inv awake hs ts M st' \<and> lives st st'"
proof -
  obtain st1 where s1: "dispatch_from rx h d events (rx_queues rx) st = Some st1" "ep_inv awake hs ts M st1" "lives st st1"
    using dispatch_from_step [OF assms(1,2) queues_law assms(3)] by blast
  obtain e where e: "ep_descs st1 d = Some e" using s1(3) assms(2) by (auto simp: lives_def)
  obtain st2 where s2: "rx_settle rx d st1 = Some st2" "same_core st1 st2" using settle_law [OF e] by blast
  show ?thesis using s1 s2(1) same_coreD(3,5) [OF s2(2)] by (simp add: descriptor_dispatch_def)
qed

text \<open>Queue the operation, try it at once, give the task's reference back.\<close>

lemma dispatch_task_step:
  assumes i: "ep_inv awake (d # hs) ts ({#op_id op#} + M) st" and j: "j < 3" and h: "polite rx h"
  shows "\<exists>st'. Option.bind (push_op d j op st) (\<lambda>st. Option.bind (descriptor_dispatch rx h d events st)
           (\<lambda>st. descriptor_release d st)) = Some st' \<and> ep_inv awake hs ts M st'"
proof -
  obtain st1 where s1: "push_op d j op st = Some st1" "ep_inv awake (d # hs) ts M st1"
    using push_op_step [OF i j] by blast
  have "d \<in> dom (ep_descs st1)" using ep_inv_live [OF s1(2)] by auto
  from dispatch_step [OF s1(2) this h] obtain st2 where
    s2: "descriptor_dispatch rx h d events st1 = Some st2" "ep_inv awake (d # hs) ts M st2" by blast
  from release_step [OF s2(2)] s1(1) s2(1) show ?thesis by auto
qed

lemma op_run_step:
  assumes i: "ep_inv awake hs (t # ts) M st" and h: "polite rx h"
  shows "\<exists>st'. op_run rx h t st = Some st' \<and> ep_inv awake hs ts M st'"
proof (cases t)
  case (Run_Op op)
  then show ?thesis
    using take_task [OF i] complete_step [of awake hs ts op M "st\<lparr>ep_ref := ep_ref st - 1\<rparr>" h] h
    by (auto simp: op_run_def)
next
  case (Call k)
  then show ?thesis
    using take_task [OF i] call_function_step [of awake hs ts M "st\<lparr>ep_ref := ep_ref st - 1\<rparr>" h k] h
    by (auto simp: op_run_def)
next
  case (Unbind_Task d)
  then show ?thesis
    using take_task [OF i] run_unbind_step [of awake d hs ts M "st\<lparr>ep_ref := ep_ref st - 1\<rparr>"]
    by (auto simp: op_run_def)
next
  case (Read_Task d op)
  then show ?thesis
    using take_task [OF i] dispatch_task_step [of awake d hs ts op M "st\<lparr>ep_ref := ep_ref st - 1\<rparr>" 0 h "rx_in rx"] h
    by (auto simp: op_run_def descriptor_dispatch_read_def)
next
  case (Write_Task d op)
  then show ?thesis
    using take_task [OF i] dispatch_task_step [of awake d hs ts op M "st\<lparr>ep_ref := ep_ref st - 1\<rparr>" 1 h "rx_out rx"] h
    by (auto simp: op_run_def descriptor_dispatch_write_def)
qed

lemma op_run_all_step:
  assumes "ep_inv awake hs ts M st" and h: "polite rx h"
  shows "\<exists>st'. op_run_all rx h ts st = Some st' \<and> ep_inv awake hs [] M st'"
  using assms(1)
proof (induction ts arbitrary: st)
  case (Cons t ts)
  from op_run_step [OF Cons.prems h] Cons.IH show ?case by fastforce
qed simp

section \<open>A round of the loop\<close>

lemma run_events_step:
  assumes "ep_inv exec hs [] {#} st" and "events_live evs st" and h: "polite rx h"
  shows "\<exists>exec' st'. run_events rx h evs exec st = Some (exec', st') \<and> ep_inv exec' hs [] {#} st'"
  using assms(1,2)
proof (induction evs arbitrary: exec st)
  case (Cons ev evs)
  obtain p b where ev: "ev = (p, b)" by fastforce
  show ?case
  proof (cases p)
    case None
    have "events_live evs (st\<lparr>ep_wake := ep_wake st - 256\<rparr>)" using Cons.prems(2) by (simp add: events_live_def)
    then show ?thesis
      using Cons.IH [OF ep_inv_awake [OF Cons.prems(1)]] ev None by simp
  next
    case (Some d)
    then have "d \<in> dom (ep_descs st)" using Cons.prems(2) ev by (auto simp: events_live_def)
    from dispatch_step [OF Cons.prems(1) this h] obtain st1 where
      s1: "descriptor_dispatch rx h d b st = Some st1" "ep_inv exec hs [] {#} st1" "lives st st1" by blast
    have "events_live evs st1" using Cons.prems(2) s1(3) unfolding events_live_def lives_def by (meson list.set_intros(2) subsetD)
    from Cons.IH [OF s1(2) this] show ?thesis using s1(1) ev Some by simp
  qed
qed simp

lemma mux_run_step:
  assumes i: "ep_inv False hs [] {#} st" and e: "events_live evs st" and h: "polite rx h"
  shows "\<exists>n st'. mux_run rx h evs st = Some (n, st') \<and> ep_inv False hs [] {#} st'"
proof -
  obtain exec st1 where s1: "run_events rx h evs False st = Some (exec, st1)" "ep_inv exec hs [] {#} st1"
    using run_events_step [OF i e h] by blast
  show ?thesis
  proof (cases exec)
    case True
    from op_run_all_step [OF take_queue [OF s1(2)] h] show ?thesis
      using s1(1) True by (auto simp: mux_run_def Let_def)
  next
    case False
    then show ?thesis using s1 by (simp add: mux_run_def Let_def)
  qed
qed

text \<open>The steps of a multiplexer keep the references in hand, also those nobody will ever give back.\<close>

lemma mux_steps_inv:
  "mux_steps rx h st st' \<Longrightarrow> polite rx h \<Longrightarrow> ep_inv False hs [] {#} st \<Longrightarrow> ep_inv False hs [] {#} st'"
proof (induction rule: mux_steps.induct)
  case (Step_Request st' r st'')
  then show ?case using request_step [of False hs "[]" "{#}" st' r] by auto
next
  case (Step_Run st' evs n st'')
  then show ?case using mux_run_step [of hs st' evs h] by auto
qed simp

end

end
