(* ===== verification/Reactor_Frame.thy ===== *)
theory Reactor_Frame
  imports Reactor
begin

text \<open>
  What requests leave alone. A property of the multiplexer's state that survives the primitive steps
  (queueing a task, taking a reference, creating and registering a descriptor, giving up one that was just
  created) survives every request of a client and every transfer. The locale \<open>request_frame\<close> proves that
  once; the typing of queues, the order of operations and the filters of \<open>kqueue\<close> use it.
\<close>

text \<open>Which tasks a request may queue: \<open>ok\<close> for tasks, \<open>okc\<close> for the operation of a connect.\<close>

fun request_ok :: "(task \<Rightarrow> bool) \<Rightarrow> (io_op \<Rightarrow> bool) \<Rightarrow> request \<Rightarrow> bool" where
  "request_ok ok okc (Req_Read s op) \<longleftrightarrow> (\<forall>d. ok (Read_Task d op))"
| "request_ok ok okc (Req_Write s op) \<longleftrightarrow> (\<forall>d. ok (Write_Task d op))"
| "request_ok ok okc (Req_Accept s op) \<longleftrightarrow> (\<forall>d. ok (Read_Task d op))"
| "request_ok ok okc (Req_Close s) \<longleftrightarrow> (\<forall>d. ok (Unbind_Task d))"
| "request_ok ok okc (Req_Execute k) \<longleftrightarrow> ok (Call k)"
| "request_ok ok okc (Req_Connect s op) \<longleftrightarrow> okc op"
| "request_ok ok okc (Req_Listen s) \<longleftrightarrow> True"
| "request_ok ok okc (Req_Open s) \<longleftrightarrow> True"
| "request_ok ok okc (Req_Bind s) \<longleftrightarrow> True"
| "request_ok ok okc (Req_Udp_Write s op) \<longleftrightarrow> (\<forall>d. ok (Write_Task d op))"
| "request_ok ok okc (Req_Udp_Read s op) \<longleftrightarrow> (\<forall>d. ok (Read_Task d op))"

lemma request_ok_any [simp]: "request_ok (\<lambda>t. True) (\<lambda>op. True) r"
  by (cases r) simp_all

text \<open>An operation keeps its identity and its kind through a transfer.\<close>

lemma post_kind:
  "op_post (snd (post_read_impl res op)) = op_post op" "op_post (snd (post_read_impl_fixed_len res op)) = op_post op"
  "op_post (snd (post_write_impl res op)) = op_post op" "op_post (snd (post_accept_impl res op)) = op_post op"
  "op_post (snd (udp_post_read_impl res op)) = op_post op" "op_post (snd (udp_post_write_impl res op)) = op_post op"
  by (simp_all add: post_read_impl_def post_read_impl_fixed_len_def post_write_impl_def post_accept_impl_def
      udp_post_read_impl_def udp_post_write_impl_def Let_def split: prod.splits)

lemma post_with_cases:
  assumes "map_option (\<lambda>(r, ec, st). case post (r, ec) op of (fin, op) \<Rightarrow> (fin, op, st)) res = Some (fin, op', st')"
    and "\<And>x. op_id (snd (post x op)) = op_id op" and "\<And>x. op_post (snd (post x op)) = op_post op"
  shows "\<exists>r ec. res = Some (r, ec, st') \<and> op_id op' = op_id op \<and> op_post op' = op_post op"
proof -
  obtain r ec st1 where r: "res = Some (r, ec, st1)" using assms(1) by (cases res) auto
  then have "st' = st1" "op' = snd (post (r, ec) op)" using assms(1) by (cases "post (r, ec) op"; simp)+
  then show ?thesis using assms(2,3) r by simp
qed

locale request_frame = reactor_laws rx
  for rx :: "('x, 'ev) reactor" +
  fixes P :: "'x mux_scheme \<Rightarrow> bool"
    and N :: "nat \<Rightarrow> bool"
    and ok :: "task \<Rightarrow> bool"
    and okc :: "io_op \<Rightarrow> bool"
  assumes field_laws:
      "P st \<Longrightarrow> P (st\<lparr>ep_sys := xs\<rparr>)" "P st \<Longrightarrow> P (st\<lparr>ep_closed := c\<rparr>)" "P st \<Longrightarrow> P (st\<lparr>ep_wake := w\<rparr>)"
      "P st \<Longrightarrow> P (st\<lparr>ep_submitted := ids\<rparr>)" "P st \<Longrightarrow> P (st\<lparr>ep_socks := socks\<rparr>)"
    and run_law: "ok (Run_Op op)"
    and error_law: "okc op \<Longrightarrow> okc (op\<lparr>op_error := ec\<rparr>)"
    and add_law: "P st \<Longrightarrow> ok t \<Longrightarrow> P (op_add t st)"
    and ref_law: "P st \<Longrightarrow> descriptor_add_ref d st = Some st' \<Longrightarrow> P st'"
    and new_law: "P st \<Longrightarrow> descriptor_create fd st = (d, st1) \<Longrightarrow> N d"
    and bind_new_law: "P st \<Longrightarrow> descriptor_create fd st = (d, st1) \<Longrightarrow>
      rx_bind rx d (st1\<lparr>ep_socks := socks\<rparr>) = Some (b, en, st2) \<Longrightarrow> P st2"
    and connect_law: "P st \<Longrightarrow> descriptor_create fd st = (d, st1) \<Longrightarrow> okc op \<Longrightarrow>
      upd_desc d (\<lambda>e. e\<lparr>d_queue := [[], [op], []]\<rparr>) (st1\<lparr>ep_socks := socks\<rparr>) = Some st2 \<Longrightarrow>
      rx_bind rx d st2 = Some (b, en, st3) \<Longrightarrow> P st3"
    and requeue_law: "P st \<Longrightarrow> N d \<Longrightarrow> okc op' \<Longrightarrow> ep_descs st d = Some e \<Longrightarrow> d_queue e = [[], [op], []] \<Longrightarrow>
      P (st\<lparr>ep_descs := (ep_descs st)(d \<mapsto> e\<lparr>d_queue := [[], [op'], []]\<rparr>)\<rparr>)"
    and release_law: "P st \<Longrightarrow> N d \<Longrightarrow> descriptor_release d st = Some st' \<Longrightarrow> P st'"
begin

lemma close_keeps: "P st \<Longrightarrow> P (sys_close fd st)"
  by (simp add: sys_close_def field_laws)

lemma execute_keeps: "P st \<Longrightarrow> ok t \<Longrightarrow> P (execute t st)"
  by (simp add: execute_def wake_up_def add_law field_laws)

lemma sys_keeps:
  "sys_next st = ((r, en), st') \<Longrightarrow> P st \<Longrightarrow> P st'" "sys_retry st = ((r, en), st') \<Longrightarrow> P st \<Longrightarrow> P st'"
  by (auto simp: sys_next_def sys_retry_def field_laws split: list.splits prod.splits)

lemma enqueue_keeps: "map_option (execute t) (descriptor_add_ref d st) = Some st' \<Longrightarrow> ok t \<Longrightarrow> P st \<Longrightarrow> P st'"
  by (auto intro: execute_keeps ref_law)

lemma create_bound_keeps:
  assumes "create_bound rx s fd st = Some (r, st')" and "P st"
  shows "P st'"
proof -
  obtain d st1 where c: "descriptor_create fd st = (d, st1)" by fastforce
  obtain b en st2 where bd: "rx_bind rx d (st1\<lparr>ep_socks := (ep_socks st1)(s \<mapsto> d)\<rparr>) = Some (b, en, st2)"
    using assms(1) c by (auto simp: create_bound_def bind_eq_Some_iff)
  have "P st2" by (rule bind_new_law [OF assms(2) c bd])
  then show ?thesis
    using assms(1) c bd release_law [OF _ new_law [OF assms(2) c]]
    by (auto simp: create_bound_def intro!: close_keeps field_laws split: if_splits)
qed

lemma connect_keeps:
  assumes c: "mux_connect rx s op st = Some st'" and o: "okc op" and p: "P st"
  shows "P st'"
proof -
  obtain fd en st1 where s1: "sys_next st = ((fd, en), st1)" by (metis surj_pair)
  obtain r en2 st2 where s2: "sys_retry st1 = ((r, en2), st2)" by (metis surj_pair)
  have p2: "P st1" "P st2" using sys_keeps(1) [OF s1 p] sys_keeps(2) [OF s2] by auto
  show ?thesis
  proof (cases "fd \<noteq> - 1 \<and> (r = 0 \<or> en2 = EINPROGRESS)")
    case False
    then show ?thesis
      using c s1 s2 p2 by (auto simp: mux_connect_def intro!: execute_keeps run_law close_keeps split: if_splits)
  next
    case True
    obtain d st3 where cr: "descriptor_create fd st2 = (d, st3)" by fastforce
    let ?st3 = "st3\<lparr>ep_socks := (ep_socks st3)(s \<mapsto> d)\<rparr>"
    obtain st4 where u: "upd_desc d (\<lambda>e. e\<lparr>d_queue := [[], [op], []]\<rparr>) ?st3 = Some st4"
      using c s1 s2 True cr by (auto simp: mux_connect_def bind_eq_Some_iff split: if_splits)
    obtain b en3 st5 where bd: "rx_bind rx d st4 = Some (b, en3, st5)"
      using c s1 s2 True cr u by (auto simp: mux_connect_def bind_eq_Some_iff split: if_splits)
    have p5: "P st5" by (rule connect_law [OF p2(2) cr o u bd])
    obtain e where e: "ep_descs st4 d = Some e" "d_queue e = [[], [op], []]"
      using u by (auto simp: upd_desc_def split: option.splits)
    have e5: "ep_descs st5 d = Some e" using bind_law [OF e(1)] bd e(1) by (auto simp: same_core_def)
    note n = new_law [OF p2(2) cr]
    show ?thesis
    proof (cases b)
      case True
      then show ?thesis using c s1 s2 \<open>fd \<noteq> - 1 \<and> _\<close> cr u bd p5 by (auto simp: mux_connect_def split: if_splits)
    next
      case False
      let ?o = "op\<lparr>op_error := last_error en3\<rparr>"
      let ?st6 = "(sys_close fd st5)\<lparr>ep_descs := (ep_descs (sys_close fd st5))(d \<mapsto> e\<lparr>d_queue := [[], [?o], []]\<rparr>)\<rparr>"
      have "P ?st6"
        using e5 e(2) by (intro requeue_law [OF close_keeps [OF p5] n error_law [OF o]]) (simp_all add: sys_close_def)
      moreover obtain st7 where "descriptor_release d ?st6 = Some st7" "st' = st7\<lparr>ep_socks := (ep_socks st7)(s := None)\<rparr>"
        using c s1 s2 True cr u bd False e5
        by (auto simp: mux_connect_def bind_eq_Some_iff upd_desc_def sys_close_def split: if_splits)
      ultimately show ?thesis using release_law [OF _ n] field_laws(5) by blast
    qed
  qed
qed

lemma udp_write_keeps:
  assumes u: "udp_write rx s op st = Some st'" and o: "\<And>d. ok (Write_Task d op)" and p: "P st"
  shows "P st'"
proof (cases "ep_socks st s")
  case (Some d)
  then show ?thesis using u enqueue_keeps [OF _ o p] by (simp add: udp_write_def)
next
  case None
  obtain fd en st1 where s1: "sys_next st = ((fd, en), st1)" by (metis surj_pair)
  have p1: "P st1" by (rule sys_keeps(1) [OF s1 p])
  show ?thesis
  proof (cases "fd = - 1")
    case True
    then show ?thesis using u None s1 p1 by (auto simp: udp_write_def intro!: execute_keeps run_law)
  next
    case False
    obtain d st2 where c: "descriptor_create fd st1 = (d, st2)" by fastforce
    obtain b en2 st3 where bd: "rx_bind rx d (st2\<lparr>ep_socks := (ep_socks st2)(s \<mapsto> d)\<rparr>) = Some (b, en2, st3)"
      using u None s1 False c by (auto simp: udp_write_def bind_eq_Some_iff)
    have p3: "P st3" by (rule bind_new_law [OF p1 c bd])
    show ?thesis
    proof (cases b)
      case True
      then show ?thesis
        using u None s1 False c bd enqueue_keeps [OF _ o p3] by (simp add: udp_write_def)
    next
      case nb: False
      obtain st4 where r: "descriptor_release d st3 = Some st4"
        "st' = execute (Run_Op (op\<lparr>op_error := last_error en2\<rparr>)) (sys_close fd (st4\<lparr>ep_socks := (ep_socks st4)(s := None)\<rparr>))"
        using u None s1 False c bd nb by (auto simp: udp_write_def)
      show ?thesis
        unfolding r(2) by (intro execute_keeps run_law close_keeps field_laws release_law [OF p3 new_law [OF p1 c] r(1)])
    qed
  qed
qed

lemma open_keeps:
  "mux_listen rx s st = Some (r, st') \<Longrightarrow> P st \<Longrightarrow> P st'"
  "mux_open rx s st = Some (r, st') \<Longrightarrow> P st \<Longrightarrow> P st'"
  "mux_bind_address rx s st = Some (r, st') \<Longrightarrow> P st \<Longrightarrow> P st'"
  by (auto simp: mux_listen_def mux_open_def mux_bind_address_def Let_def
      intro: create_bound_keeps close_keeps sys_keeps split: prod.splits if_splits)
    (meson sys_keeps create_bound_keeps close_keeps)+

lemma unbind_keeps: "P st \<Longrightarrow> (\<And>d. ok (Unbind_Task d)) \<Longrightarrow> P (unbind s st)"
  by (auto simp: unbind_def wake_up_def intro!: field_laws add_law split: option.splits)

lemma issue_keeps:
  assumes i: "issue rx r st = Some st'" and o: "request_ok ok okc r" and p: "P st"
  shows "P st'"
proof (cases r)
  case (Req_Read s op)
  then show ?thesis using i o p by (auto simp: tcp_read_def bind_eq_Some_iff intro: execute_keeps ref_law)
next
  case (Req_Write s op)
  then show ?thesis using i o p by (auto simp: tcp_write_def bind_eq_Some_iff intro: execute_keeps ref_law)
next
  case (Req_Accept s op)
  then show ?thesis
    using i o p by (auto simp: mux_accept_request_def intro: execute_keeps ref_law split: option.splits)
next
  case (Req_Close s)
  then show ?thesis using i o p by (auto intro: unbind_keeps)
next
  case (Req_Execute k)
  then show ?thesis using i o p by (auto intro: execute_keeps)
next
  case (Req_Connect s op)
  then show ?thesis using i o p connect_keeps by simp
next
  case (Req_Listen s)
  then show ?thesis using i p open_keeps(1) by auto
next
  case (Req_Open s)
  then show ?thesis using i p open_keeps(2) by auto
next
  case (Req_Bind s)
  then show ?thesis using i p open_keeps(3) by auto
next
  case (Req_Udp_Write s op)
  then show ?thesis using i o p udp_write_keeps by simp
next
  case (Req_Udp_Read s op)
  then show ?thesis
    using i o p by (auto simp: udp_read_def intro: execute_keeps run_law ref_law split: option.splits)
qed

lemma do_request_keeps: "do_request rx r st = Some st' \<Longrightarrow> request_ok ok okc r \<Longrightarrow> P st \<Longrightarrow> P st'"
  unfolding do_request_def by (erule issue_keeps) (auto intro: field_laws)

lemma do_requests_keeps:
  "do_requests rx rs st = Some st' \<Longrightarrow> list_all (request_ok ok okc) rs \<Longrightarrow> P st \<Longrightarrow> P st'"
  by (induction rs arbitrary: st) (auto simp: bind_eq_Some_iff dest!: do_request_keeps)

section \<open>Transfers\<close>

lemma accept_keeps:
  assumes a: "mux_accept rx l s ec st = Some (r, ec', st')" and p: "P st"
  shows "P st'"
proof -
  obtain e where e: "ep_descs st l = Some e" using a by (auto simp: mux_accept_def split: option.splits)
  obtain fd en st1 where s1: "sys_retry st = ((fd, en), st1)" by (metis surj_pair)
  have p1: "P st1" by (rule sys_keeps(2) [OF s1 p])
  show ?thesis
  proof (cases "d_fd e = - 1 \<or> fd = - 1")
    case True
    then show ?thesis using a e s1 p p1 by (auto simp: mux_accept_def split: if_splits)
  next
    case False
    obtain d st2 where c: "descriptor_create fd st1 = (d, st2)" by fastforce
    show ?thesis
      using a e s1 False c bind_new_law [OF p1 c, of "(ep_socks st2)(s \<mapsto> d)"] by (auto simp: mux_accept_def)
  qed
qed

lemma transfers_keep:
  "mux_readv d ec st = Some (r, ec', st') \<Longrightarrow> P st \<Longrightarrow> P st'"
  "mux_writev d ec st = Some (r, ec', st') \<Longrightarrow> P st \<Longrightarrow> P st'"
  "mux_recvfrom d ec st = Some (r, ec', st') \<Longrightarrow> P st \<Longrightarrow> P st'"
  "mux_sendto d ec st = Some (r, ec', st') \<Longrightarrow> P st \<Longrightarrow> P st'"
  by (auto simp: mux_readv_def mux_writev_def mux_recvfrom_def mux_sendto_def
      intro: sys_keeps split: prod.splits if_splits option.splits)

lemma post_proc_keeps:
  assumes a: "post_proc rx d op st = Some (fin, op', st')" and p: "P st"
  shows "P st' \<and> op_id op' = op_id op \<and> op_post op' = op_post op"
proof -
  let ?with = "\<lambda>post res. map_option (\<lambda>(r, ec, st). case post (r, ec) op of (fin, op) \<Rightarrow> (fin, op, st)) res"
  show ?thesis
  proof (cases "op_post op")
    case Post_Connect
    then show ?thesis using a p by (auto simp: post_proc_def post_connect_def)
  next
    case Post_Read
    with a have "?with post_read_impl (mux_readv d (op_error op) st) = Some (fin, op', st')"
      by (simp only: post_proc_def Let_def post_proc_handler.case)
    from post_with_cases [where post = post_read_impl and op = op, OF this post_id(1) post_kind(1)] show ?thesis using transfers_keep(1) p by blast
  next
    case Post_Read_Fixed_Len
    with a have "?with post_read_impl_fixed_len (mux_readv d (op_error op) st) = Some (fin, op', st')"
      by (simp only: post_proc_def Let_def post_proc_handler.case)
    from post_with_cases [where post = post_read_impl_fixed_len and op = op, OF this post_id(2) post_kind(2)] show ?thesis using transfers_keep(1) p by blast
  next
    case Post_Write
    with a have "?with post_write_impl (mux_writev d (op_error op) st) = Some (fin, op', st')"
      by (simp only: post_proc_def Let_def post_proc_handler.case)
    from post_with_cases [where post = post_write_impl and op = op, OF this post_id(3) post_kind(3)] show ?thesis using transfers_keep(2) p by blast
  next
    case Post_Accept
    with a have "?with post_accept_impl (mux_accept rx d (op_socket op) (op_error op) st) = Some (fin, op', st')"
      by (simp only: post_proc_def Let_def post_proc_handler.case)
    from post_with_cases [where post = post_accept_impl and op = op, OF this post_id(4) post_kind(4)] show ?thesis using accept_keeps p by blast
  next
    case Post_Udp_Read
    with a have "?with udp_post_read_impl (mux_recvfrom d (op_error op) st) = Some (fin, op', st')"
      by (simp only: post_proc_def Let_def post_proc_handler.case)
    from post_with_cases [where post = udp_post_read_impl and op = op, OF this post_id(5) post_kind(5)] show ?thesis using transfers_keep(3) p by blast
  next
    case Post_Udp_Write
    with a have "?with udp_post_write_impl (mux_sendto d (op_error op) st) = Some (fin, op', st')"
      by (simp only: post_proc_def Let_def post_proc_handler.case)
    from post_with_cases [where post = udp_post_write_impl and op = op, OF this post_id(6) post_kind(6)] show ?thesis using transfers_keep(4) p by blast
  qed
qed

end

end
