(* ===== verification/Kqueue.thy ===== *)
theory Kqueue
  imports Reactor_Frame
begin

text \<open>
  The multiplexer of \<open>src/io/kqueue.cpp\<close>. It shares the operations of the theory \<open>Reactor\<close> and differs
  in its registration with the kernel: changes to the event filters are collected in \<open>_changes\<close> and
  handed over at the start of the next round, and after every dispatch the two filters of a descriptor
  are switched on or off by whether operations wait.

  \<open>kq_issued\<close> and \<open>kq_applied\<close> are history: every change that was asked for, and those the kernel took.
  Which changes the kernel accepts is an argument of the round. The values of \<open>errno\<close> are only compared
  with each other and keep the numbers of the theory \<open>Reactor\<close>.
\<close>

section \<open>State and registration\<close>

record change =
  ch_ident :: int
  ch_filter :: int
  ch_flags :: nat
  ch_udata :: "nat option"

record kqueue = mux +
  kq_changes :: "change list"
  kq_issued :: "change list"
  kq_applied :: "change list"

definition EVFILT_READ :: int where "EVFILT_READ = - 1"
definition EVFILT_WRITE :: int where "EVFILT_WRITE = - 2"

definition EV_ADD :: nat where "EV_ADD = 1"
definition EV_ENABLE :: nat where "EV_ENABLE = 4"
definition EV_DISABLE :: nat where "EV_DISABLE = 8"

definition kq_change :: "int \<Rightarrow> int \<Rightarrow> nat \<Rightarrow> nat option \<Rightarrow> kqueue \<Rightarrow> kqueue" where
  "kq_change ident filt flag p st =
     (let e = \<lparr>ch_ident = ident, ch_filter = filt, ch_flags = flag, ch_udata = p\<rparr>
      in st\<lparr>kq_changes := kq_changes st @ [e], kq_issued := kq_issued st @ [e]\<rparr>)"

definition kq_ctor :: "int \<Rightarrow> (int \<times> int) list \<Rightarrow> kqueue" where
  "kq_ctor rd_pipe sys =
     kq_change rd_pipe EVFILT_READ (EV_ADD OR EV_ENABLE) None
       \<lparr>ep_descs = Map.empty, ep_next = 0, ep_queue = [], ep_ref = 0, ep_wake = 0, ep_socks = Map.empty,
        ep_sys = sys, ep_closed = [], ep_log = [], ep_submitted = [], kq_changes = [], kq_issued = [], kq_applied = []\<rparr>"

definition kq_bind :: "nat \<Rightarrow> kqueue \<Rightarrow> (bool \<times> int \<times> kqueue) option" where
  "kq_bind d st =
     (case ep_descs st d of
        None \<Rightarrow> None
      | Some e \<Rightarrow>
          let st = kq_change (d_fd e) EVFILT_READ (EV_ADD OR EV_ENABLE) (Some d) st;
              st = kq_change (d_fd e) EVFILT_WRITE (EV_ADD OR EV_ENABLE) (Some d) st
          in Some (True, 0, st))"

definition kqueueev :: "int list" where
  "kqueueev = [EVFILT_READ, EVFILT_WRITE]"

text \<open>The end of \<open>descriptor_dispatch\<close>.\<close>

definition kq_settle :: "nat \<Rightarrow> kqueue \<Rightarrow> kqueue option" where
  "kq_settle d st =
     (case ep_descs st d of
        None \<Rightarrow> None
      | Some e \<Rightarrow>
          let st = kq_change (d_fd e) EVFILT_READ (if d_queue e ! 0 = [] then EV_DISABLE else EV_ENABLE) (Some d) st;
              st = kq_change (d_fd e) EVFILT_WRITE (if d_queue e ! 1 = [] then EV_DISABLE else EV_ENABLE) (Some d) st
          in Some st)"

definition kq_rx :: "(unit kqueue_ext, int) reactor" where
  "kq_rx = \<lparr>rx_bind = kq_bind, rx_queues = [0, 1], rx_ready = (\<lambda>events i. events = kqueueev ! i),
     rx_in = EVFILT_READ, rx_out = EVFILT_WRITE, rx_settle = kq_settle\<rparr>"

section \<open>The members of the class\<close>

text \<open>
  The requests are those of the theory \<open>Reactor\<close> with this registration; \<open>writev\<close>, \<open>readv\<close> and the other members
  that neither register nor dispatch are the shared ones as they are.
\<close>

definition kq_connect :: "nat \<Rightarrow> io_op \<Rightarrow> kqueue \<Rightarrow> kqueue option" where
  "kq_connect = mux_connect kq_rx"

definition kq_tcp_write :: "nat option \<Rightarrow> io_op \<Rightarrow> kqueue \<Rightarrow> kqueue option" where
  "kq_tcp_write = tcp_write"

definition kq_tcp_read :: "nat option \<Rightarrow> io_op \<Rightarrow> kqueue \<Rightarrow> kqueue option" where
  "kq_tcp_read = tcp_read"

definition kq_listen :: "nat \<Rightarrow> kqueue \<Rightarrow> (bool \<times> kqueue) option" where
  "kq_listen = mux_listen kq_rx"

definition kq_accept_request :: "nat option \<Rightarrow> io_op \<Rightarrow> kqueue \<Rightarrow> kqueue option" where
  "kq_accept_request = mux_accept_request"

definition kq_open :: "nat \<Rightarrow> kqueue \<Rightarrow> (bool \<times> kqueue) option" where
  "kq_open = mux_open kq_rx"

definition kq_bind_address :: "nat \<Rightarrow> kqueue \<Rightarrow> (bool \<times> kqueue) option" where
  "kq_bind_address = mux_bind_address kq_rx"

definition kq_udp_write :: "nat \<Rightarrow> io_op \<Rightarrow> kqueue \<Rightarrow> kqueue option" where
  "kq_udp_write = udp_write kq_rx"

definition kq_udp_read :: "nat option \<Rightarrow> io_op \<Rightarrow> kqueue \<Rightarrow> kqueue option" where
  "kq_udp_read = udp_read"

definition kq_unbind :: "nat \<Rightarrow> kqueue \<Rightarrow> kqueue" where
  "kq_unbind = unbind"

definition kq_execute :: "task \<Rightarrow> kqueue \<Rightarrow> kqueue" where
  "kq_execute = execute"

definition kq_dispatch :: "unit kqueue_ext handlers \<Rightarrow> nat \<Rightarrow> int \<Rightarrow> kqueue \<Rightarrow> kqueue option" where
  "kq_dispatch h d events st = Option.bind (dispatch_from kq_rx h d events [0, 1] st) (kq_settle d)"

lemma kq_dispatch_eq: "descriptor_dispatch kq_rx h d events st = kq_dispatch h d events st"
  by (simp add: descriptor_dispatch_def kq_dispatch_def kq_rx_def)

fun kq_issue :: "request \<Rightarrow> kqueue \<Rightarrow> kqueue option" where
  "kq_issue (Req_Read s op) st = kq_tcp_read (ep_socks st s) op st"
| "kq_issue (Req_Write s op) st = kq_tcp_write (ep_socks st s) op st"
| "kq_issue (Req_Accept s op) st = kq_accept_request (ep_socks st s) op st"
| "kq_issue (Req_Close s) st = Some (kq_unbind s st)"
| "kq_issue (Req_Execute k) st = Some (kq_execute (Call k) st)"
| "kq_issue (Req_Connect s op) st = kq_connect s op st"
| "kq_issue (Req_Listen s) st = map_option snd (kq_listen s st)"
| "kq_issue (Req_Open s) st = map_option snd (kq_open s st)"
| "kq_issue (Req_Bind s) st = map_option snd (kq_bind_address s st)"
| "kq_issue (Req_Udp_Write s op) st = kq_udp_write s op st"
| "kq_issue (Req_Udp_Read s op) st = kq_udp_read (ep_socks st s) op st"

definition kq_request :: "request \<Rightarrow> kqueue \<Rightarrow> kqueue option" where
  "kq_request r st = kq_issue r (st\<lparr>ep_submitted := request_ids r @ ep_submitted st\<rparr>)"

lemmas kq_members = kq_connect_def kq_tcp_write_def kq_tcp_read_def kq_listen_def kq_accept_request_def kq_open_def
  kq_bind_address_def kq_udp_write_def kq_udp_read_def kq_unbind_def kq_execute_def

lemma kq_request_eq: "kq_request r st = do_request kq_rx r st"
  by (cases r) (simp_all add: kq_request_def do_request_def kq_members)

section \<open>A round of the loop\<close>

text \<open>
  The first \<open>kevent\<close> of \<open>run\<close>. It has no room to report errors, so the kernel stops at the first
  change it refuses; the list is cleared all the same.
\<close>

definition kq_flush :: "(change \<Rightarrow> bool) \<Rightarrow> kqueue \<Rightarrow> kqueue" where
  "kq_flush accepts st =
     (if 0 < length (kq_changes st)
      then st\<lparr>kq_applied := kq_applied st @ takeWhile accepts (kq_changes st), kq_changes := []\<rparr>
      else st)"

definition kq_run :: "(change \<Rightarrow> bool) \<Rightarrow> unit kqueue_ext handlers \<Rightarrow> (nat option \<times> int) list \<Rightarrow> kqueue \<Rightarrow> (nat \<times> kqueue) option" where
  "kq_run accepts h evs st = mux_run kq_rx h evs (kq_flush accepts st)"

section \<open>The shared laws\<close>

lemma kq_change_core [simp]: "same_core st (kq_change ident filt flag p st') = same_core st st'"
  by (simp add: kq_change_def same_core_def Let_def)

interpretation krx: reactor_laws kq_rx
  by unfold_locales (auto simp: kq_rx_def kq_bind_def kq_settle_def Let_def split: option.splits)

lemma kq_flush_core: "same_core st (kq_flush accepts st)"
  by (simp add: kq_flush_def same_core_def)

lemma kq_run_step:
  assumes "ep_inv False [] [] {#} st" and "events_live evs st" and "polite kq_rx h"
  shows "\<exists>n st'. kq_run accepts h evs st = Some (n, st') \<and> ep_inv False [] [] {#} st'"
proof -
  note core = same_coreD [OF kq_flush_core [of st accepts]]
  have "ep_inv False [] [] {#} (kq_flush accepts st)" using assms(1) core(3) by simp
  moreover have "events_live evs (kq_flush accepts st)" using assms(2) core(1) by (simp add: events_live_def)
  ultimately show ?thesis using krx.mux_run_step assms(3) by (simp add: kq_run_def)
qed

section \<open>Reachable states\<close>

inductive kq_reach :: "unit kqueue_ext handlers \<Rightarrow> kqueue \<Rightarrow> bool" for h where
  Kq_Start: "kq_reach h (kq_ctor rd_pipe sys)"
| Kq_Request: "kq_reach h st \<Longrightarrow> valid_request r st \<Longrightarrow> kq_request r st = Some st' \<Longrightarrow> kq_reach h st'"
| Kq_Run: "kq_reach h st \<Longrightarrow> events_live evs st \<Longrightarrow> kq_run accepts h evs st = Some (n, st') \<Longrightarrow> kq_reach h st'"

lemma kq_ctor_inv: "ep_inv False [] [] {#} (kq_ctor rd_pipe sys)"
  by (simp add: ep_inv_def kq_ctor_def kq_change_def Let_def owners_def heap_ops_def)

lemma kq_reach_inv: "kq_reach h st \<Longrightarrow> polite kq_rx h \<Longrightarrow> ep_inv False [] [] {#} st"
proof (induction rule: kq_reach.induct)
  case (Kq_Request st r st')
  then show ?case using krx.request_step [of False "[]" "[]" "{#}" st r] by (auto simp: kq_request_eq)
next
  case (Kq_Run st evs accepts n st')
  then show ?case using kq_run_step [of st evs h accepts] by auto
qed (rule kq_ctor_inv)

interpretation kmux: multiplexer
  "\<lambda>st :: kqueue. \<exists>h. polite kq_rx h \<and> kq_reach h st" ep_ref "\<lambda>st. card (dom (ep_descs st))" "\<lambda>st. length (ep_queue st)"
  "\<lambda>st. mset (ep_submitted st)" "\<lambda>st. log_ops (ep_log st)" ep_pending
  by (rule inv_multiplexer) (use kq_reach_inv in blast)

section \<open>Waiting operations and filters\<close>

text \<open>The last change that was asked for a filter of a descriptor.\<close>

definition last_change :: "change list \<Rightarrow> nat \<Rightarrow> int \<Rightarrow> change option" where
  "last_change cs d filt = List.find (\<lambda>c. ch_udata c = Some d \<and> ch_filter c = filt) (rev cs)"

text \<open>
  Outside the descriptors \<open>X\<close>, where a dispatch is under way, a queue that is not empty has its filter
  switched on, under the descriptor's file number as long as it is open.
\<close>

definition filter_on :: "change list \<Rightarrow> nat \<Rightarrow> descriptor \<Rightarrow> nat \<Rightarrow> bool" where
  "filter_on cs d e q =
     (case last_change cs d (kqueueev ! q) of
        None \<Rightarrow> False
      | Some c \<Rightarrow> ch_flags c AND EV_ENABLE \<noteq> 0 \<and> (d_fd e \<noteq> - 1 \<longrightarrow> ch_ident c = d_fd e))"

definition waiting_on :: "nat set \<Rightarrow> kqueue \<Rightarrow> bool" where
  "waiting_on X st \<longleftrightarrow> (\<forall>d e q. d \<notin> X \<longrightarrow> ep_descs st d = Some e \<longrightarrow> q < 2 \<longrightarrow> d_queue e ! q \<noteq> [] \<longrightarrow>
     filter_on (kq_issued st) d e q)"

lemma waiting_onD: "waiting_on X st \<Longrightarrow> d \<notin> X \<Longrightarrow> ep_descs st d = Some e \<Longrightarrow> q < 2 \<Longrightarrow> d_queue e ! q \<noteq> [] \<Longrightarrow>
    filter_on (kq_issued st) d e q"
  by (simp add: waiting_on_def)

lemma waiting_onI:
  "(\<And>d e q. d \<notin> X \<Longrightarrow> ep_descs st d = Some e \<Longrightarrow> q < 2 \<Longrightarrow> d_queue e ! q \<noteq> [] \<Longrightarrow> filter_on (kq_issued st) d e q) \<Longrightarrow>
   waiting_on X st"
  by (simp add: waiting_on_def)

lemma waiting_on_fields [simp]:
  "waiting_on X (st\<lparr>ep_next := a\<rparr>) = waiting_on X st"
  "waiting_on X (st\<lparr>ep_queue := b\<rparr>) = waiting_on X st"
  "waiting_on X (st\<lparr>ep_ref := c\<rparr>) = waiting_on X st"
  "waiting_on X (st\<lparr>ep_wake := w\<rparr>) = waiting_on X st"
  "waiting_on X (st\<lparr>ep_socks := socks\<rparr>) = waiting_on X st"
  "waiting_on X (st\<lparr>ep_sys := xs\<rparr>) = waiting_on X st"
  "waiting_on X (st\<lparr>ep_closed := cl\<rparr>) = waiting_on X st"
  "waiting_on X (st\<lparr>ep_log := l\<rparr>) = waiting_on X st"
  "waiting_on X (st\<lparr>ep_submitted := s\<rparr>) = waiting_on X st"
  "waiting_on X (st\<lparr>kq_changes := cs\<rparr>) = waiting_on X st"
  "waiting_on X (st\<lparr>kq_applied := ap\<rparr>) = waiting_on X st"
  by (simp_all add: waiting_on_def)

lemma waiting_on_insert: "waiting_on X st \<Longrightarrow> waiting_on (insert d X) st"
  by (auto simp: waiting_on_def)

lemma waiting_on_execute [simp]: "waiting_on X (execute t st) = waiting_on X st"
  by (simp add: queue_defs)

lemma waiting_on_close [simp]: "waiting_on X (sys_close fd st) = waiting_on X st"
  by (simp add: sys_close_def)

lemma waiting_on_upd:
  assumes "waiting_on X st" and "ep_descs st d = Some e"
    and "d \<in> X \<or> d_queue e' = d_queue e \<and> (d_fd e' = d_fd e \<or> d_fd e' = - 1)"
  shows "waiting_on X (st\<lparr>ep_descs := (ep_descs st)(d \<mapsto> e')\<rparr>)"
proof (rule waiting_onI)
  fix x y q
  assume x: "x \<notin> X" "ep_descs (st\<lparr>ep_descs := (ep_descs st)(d \<mapsto> e')\<rparr>) x = Some y" "q < 2" "d_queue y ! q \<noteq> []"
  show "filter_on (kq_issued (st\<lparr>ep_descs := (ep_descs st)(d \<mapsto> e')\<rparr>)) x y q"
  proof (cases "x = d")
    case True
    then have "y = e'" "d_queue e' = d_queue e" "d_fd e' = d_fd e \<or> d_fd e' = - 1" using x(1,2) assms(3) by auto
    moreover have "filter_on (kq_issued st) d e q"
      using waiting_onD [OF assms(1), of d e q] assms(2) x True calculation by simp
    ultimately show ?thesis using True by (auto simp: filter_on_def split: option.splits)
  next
    case False
    then show ?thesis using waiting_onD [OF assms(1) x(1)] x by simp
  qed
qed

lemma last_change_snoc:
  "last_change (cs @ [c]) d filt =
     (if ch_udata c = Some d \<and> ch_filter c = filt then Some c else last_change cs d filt)"
  by (simp add: last_change_def)

lemma kqueueev_nth: "q < 2 \<Longrightarrow> kqueueev ! q = (if q = 0 then EVFILT_READ else EVFILT_WRITE)"
  by (cases q) (simp_all add: kqueueev_def)

lemma filter_other: "ch_udata c \<noteq> Some d \<Longrightarrow> filter_on (cs @ [c]) d e q = filter_on cs d e q"
  by (simp add: filter_on_def last_change_snoc)

lemma flags_on: "(EV_ADD OR EV_ENABLE) AND EV_ENABLE \<noteq> 0" "EV_ENABLE AND EV_ENABLE \<noteq> 0"
  by (simp_all add: EV_ADD_def EV_ENABLE_def)

lemma filters_differ: "EVFILT_READ \<noteq> EVFILT_WRITE"
  by (simp add: EVFILT_READ_def EVFILT_WRITE_def)

text \<open>The two changes of \<open>bind\<close> and of the end of a dispatch bring the descriptor in order.\<close>

lemma two_changes_on:
  assumes w: "waiting_on (insert d X) st" and e: "ep_descs st d = Some e"
    and r: "d_queue e ! 0 \<noteq> [] \<Longrightarrow> fr AND EV_ENABLE \<noteq> 0" and s: "d_queue e ! 1 \<noteq> [] \<Longrightarrow> fw AND EV_ENABLE \<noteq> 0"
  shows "waiting_on X (kq_change (d_fd e) EVFILT_WRITE fw (Some d) (kq_change (d_fd e) EVFILT_READ fr (Some d) st))"
    (is "waiting_on X ?st")
proof (rule waiting_onI)
  fix x y q
  assume x: "x \<notin> X" "ep_descs ?st x = Some y" "q < 2" "d_queue y ! q \<noteq> []"
  have y: "ep_descs st x = Some y" using x(2) by (simp add: kq_change_def Let_def)
  let ?c = "\<lambda>f g. \<lparr>ch_ident = d_fd e, ch_filter = f, ch_flags = g, ch_udata = Some d\<rparr>"
  have i: "kq_issued ?st = (kq_issued st @ [?c EVFILT_READ fr]) @ [?c EVFILT_WRITE fw]" by (simp add: kq_change_def Let_def)
  show "filter_on (kq_issued ?st) x y q"
  proof (cases "x = d")
    case True
    then have ye: "y = e" using y e by simp
    show ?thesis
    proof (cases "q = 0")
      case True
      then show ?thesis
        unfolding filter_on_def i using r x(4) \<open>x = d\<close> ye filters_differ
        by (simp add: last_change_def kqueueev_def)
    next
      case False
      then have "q = 1" using x(3) by simp
      then show ?thesis
        unfolding filter_on_def i using s x(4) \<open>x = d\<close> ye by (simp add: last_change_def kqueueev_def)
    qed
  next
    case False
    then have "filter_on (kq_issued st) x y q" using waiting_onD [OF w, of x y q] x y by simp
    then show ?thesis unfolding i using False by (simp add: filter_other del: append_assoc)
  qed
qed

lemma kq_bind_on:
  assumes "waiting_on (insert d X) st" and "kq_bind d st = Some (b, en, st')"
  shows "waiting_on X st'"
proof -
  obtain e where e: "ep_descs st d = Some e" using assms(2) by (auto simp: kq_bind_def split: option.splits)
  from two_changes_on [OF assms(1) e flags_on(1,1)] show ?thesis
    using assms(2) e by (simp add: kq_bind_def Let_def)
qed

lemma kq_settle_on:
  assumes "waiting_on (insert d X) st" and "kq_settle d st = Some st'"
  shows "waiting_on X st'"
proof -
  obtain e where e: "ep_descs st d = Some e" using assms(2) by (auto simp: kq_settle_def split: option.splits)
  have "st' = kq_change (d_fd e) EVFILT_WRITE (if d_queue e ! 1 = [] then EV_DISABLE else EV_ENABLE) (Some d)
     (kq_change (d_fd e) EVFILT_READ (if d_queue e ! 0 = [] then EV_DISABLE else EV_ENABLE) (Some d) st)"
    using assms(2) e by (simp add: kq_settle_def Let_def)
  then show ?thesis using two_changes_on [OF assms(1) e] flags_on(2) by simp
qed

section \<open>Every operation keeps waiting operations enabled\<close>

lemma sys_on [simp]:
  "sys_next st = ((r, en), st') \<Longrightarrow> waiting_on X st' = waiting_on X st"
  "sys_retry st = ((r, en), st') \<Longrightarrow> waiting_on X st' = waiting_on X st"
  by (auto simp: sys_next_def sys_retry_def split: list.splits prod.splits)

lemma add_ref_on: "descriptor_add_ref d st = Some st' \<Longrightarrow> waiting_on X st \<Longrightarrow> waiting_on X st'"
  by (auto simp: descriptor_add_ref_def upd_desc_def intro: waiting_on_upd split: option.splits)

lemma release_on:
  assumes r: "descriptor_release d st = Some st'" and w: "waiting_on X st"
  shows "waiting_on X st'"
proof -
  obtain e where e: "ep_descs st d = Some e" using r by (auto simp: descriptor_release_def split: option.splits)
  show ?thesis
  proof (cases "d_ref e = 1")
    case True
    have "waiting_on X (st\<lparr>ep_descs := (ep_descs st)(d := None)\<rparr>)"
      using w by (auto simp: waiting_on_def split: if_splits)
    moreover obtain q n w where "st' = st\<lparr>ep_descs := (ep_descs st)(d := None), ep_queue := q, ep_ref := n, ep_wake := w\<rparr>"
      using release_last [OF e True] r by auto
    ultimately show ?thesis by simp
  next
    case False
    then show ?thesis using r e by (auto simp: descriptor_release_def intro: waiting_on_upd [OF w e])
  qed
qed

lemma create_on:
  assumes "descriptor_create fd st = (d, st')" and "waiting_on X st"
  shows "waiting_on X st'"
proof (rule waiting_onI)
  fix x e q
  assume x: "x \<notin> X" "ep_descs st' x = Some e" "q < 2" "d_queue e ! q \<noteq> []"
  have "ep_descs st x = Some e"
    using assms(1) x(2-4) by (cases q) (auto simp: descriptor_create_def less_Suc_eq numeral_2_eq_2 split: if_splits)
  then show "filter_on (kq_issued st') x e q"
    using waiting_onD [OF assms(2) x(1) _ x(3,4)] assms(1) by (auto simp: descriptor_create_def)
qed

lemma bind_on: "rx_bind kq_rx d st = Some (b, en, st') \<Longrightarrow> waiting_on X st \<Longrightarrow> waiting_on X st'"
  by (rule kq_bind_on [of d X st b en]) (simp_all add: kq_rx_def waiting_on_insert)

lemma upd_desc_on:
  assumes "upd_desc d f st = Some st'" and "waiting_on X st" and "d \<in> X"
  shows "waiting_on X st'"
proof -
  obtain e where e: "ep_descs st d = Some e" using assms(1) by (auto simp: upd_desc_def split: option.splits)
  show ?thesis using waiting_on_upd [OF assms(2) e, of "f e"] assms(1,3) e by (simp add: upd_desc_def)
qed

lemma connect_bind_on:
  assumes "waiting_on X st" and "descriptor_create fd st = (d, st1)"
    and "upd_desc d f (st1\<lparr>ep_socks := socks\<rparr>) = Some st2" and "rx_bind kq_rx d st2 = Some (b, en, st3)"
  shows "waiting_on X st3"
proof -
  have "waiting_on (insert d X) (st1\<lparr>ep_socks := socks\<rparr>)" using create_on [OF assms(2,1)] by (simp add: waiting_on_insert)
  from upd_desc_on [OF assms(3) this] have "waiting_on (insert d X) st2" by simp
  from kq_bind_on [OF this] show ?thesis using assms(4) by (simp add: kq_rx_def)
qed

lemma requeue_on:
  assumes w: "waiting_on X st" and e: "ep_descs st d = Some e" and q: "d_queue e = [[], [op], []]"
  shows "waiting_on X (st\<lparr>ep_descs := (ep_descs st)(d \<mapsto> e\<lparr>d_queue := [[], [op'], []]\<rparr>)\<rparr>)"
proof (rule waiting_onI)
  fix x y q'
  assume x: "x \<notin> X" "ep_descs (st\<lparr>ep_descs := (ep_descs st)(d \<mapsto> e\<lparr>d_queue := [[], [op'], []]\<rparr>)\<rparr>) x = Some y"
    "q' < 2" "d_queue y ! q' \<noteq> []"
  show "filter_on (kq_issued (st\<lparr>ep_descs := (ep_descs st)(d \<mapsto> e\<lparr>d_queue := [[], [op'], []]\<rparr>)\<rparr>)) x y q'"
  proof (cases "x = d")
    case True
    then have "y = e\<lparr>d_queue := [[], [op'], []]\<rparr>" "d_queue e ! q' \<noteq> []"
      using x q by (cases q'; auto simp: less_Suc_eq numeral_2_eq_2)+
    then show ?thesis using waiting_onD [OF w, of d e q'] x(1,3) e True by (auto simp: filter_on_def split: option.splits)
  next
    case False
    then show ?thesis using waiting_onD [OF w x(1)] x by simp
  qed
qed

interpretation kon: request_frame kq_rx "waiting_on X" "\<lambda>d. True" "\<lambda>t. True" "\<lambda>op. True" for X
proof unfold_locales
  show "waiting_on X st2" if "waiting_on X st" "descriptor_create fd st = (d, st1)"
    "rx_bind kq_rx d (st1\<lparr>ep_socks := socks\<rparr>) = Some (b, en, st2)" for st fd d st1 socks b en st2
    using bind_on [OF that(3)] create_on [OF that(2,1)] by simp
qed (auto simp: op_add_def intro: add_ref_on release_on connect_bind_on requeue_on)

lemma complete_on: "complete kq_rx h op st = Some st' \<Longrightarrow> waiting_on X st \<Longrightarrow> waiting_on X st'"
  by (auto simp: complete_def Let_def list_all_iff elim!: kon.do_requests_keeps)

lemma call_on: "call_function kq_rx h k st = Some st' \<Longrightarrow> waiting_on X st \<Longrightarrow> waiting_on X st'"
  by (auto simp: call_function_def Let_def list_all_iff elim!: kon.do_requests_keeps)

lemma dispatch_loop_on:
  assumes "dispatch_loop rx h d i st = Some st'" and "rx = kq_rx" and "d \<in> X" and "waiting_on X st"
  shows "waiting_on X st'"
  using assms(2-4)
proof (induction rule: dispatch_loop.raw_induct [OF _ assms(1)])
  case (1 loop rx h d i st st')
  show ?case
    using 1(2) "1.prems"
    by (auto simp: Option.bind_eq_Some_conv split: option.splits list.splits if_splits
        intro: upd_desc_on kon.post_proc_keeps [THEN conjunct1]) (blast intro: upd_desc_on kon.post_proc_keeps [THEN conjunct1] complete_on 1(1))
qed

lemma dispatch_from_on:
  "dispatch_from kq_rx h d events is st = Some st' \<Longrightarrow> d \<in> X \<Longrightarrow> waiting_on X st \<Longrightarrow> waiting_on X st'"
  by (induction "is" arbitrary: st) (auto simp: Option.bind_eq_Some_conv split: if_splits dest: dispatch_loop_on [OF _ refl])

lemma dispatch_on:
  assumes "descriptor_dispatch kq_rx h d events st = Some st'" and "waiting_on (insert d X) st"
  shows "waiting_on X st'"
proof -
  obtain st1 where s: "dispatch_from kq_rx h d events [0, 1] st = Some st1" "kq_settle d st1 = Some st'"
    using assms(1) by (auto simp: kq_dispatch_eq kq_dispatch_def Option.bind_eq_Some_conv)
  show ?thesis by (rule kq_settle_on [OF dispatch_from_on [OF s(1) _ assms(2)] s(2)]) simp
qed

lemma task_on:
  assumes "Option.bind (push_op d j op st) (\<lambda>st. Option.bind (descriptor_dispatch kq_rx h d events st)
      (\<lambda>st. descriptor_release d st)) = Some st'" and "waiting_on X st"
  shows "waiting_on X st'"
proof -
  obtain st1 st2 where s: "push_op d j op st = Some st1" "descriptor_dispatch kq_rx h d events st1 = Some st2"
    "descriptor_release d st2 = Some st'"
    using assms(1) by (auto simp: Option.bind_eq_Some_conv)
  have "waiting_on (insert d X) st1"
    using upd_desc_on [OF s(1) [unfolded push_op_def] waiting_on_insert [OF assms(2)]] by simp
  from release_on [OF s(3) dispatch_on [OF s(2) this]] show ?thesis .
qed

lemma run_unbind_on:
  assumes "run_unbind d st = Some st'" and "waiting_on X st"
  shows "waiting_on X st'"
proof -
  obtain e where e: "ep_descs st d = Some e" using assms(1) by (auto simp: run_unbind_def split: option.splits)
  have "waiting_on X (st\<lparr>ep_descs := (ep_descs st)(d \<mapsto> e\<lparr>d_fd := - 1\<rparr>)\<rparr>)"
    by (rule waiting_on_upd [OF assms(2) e]) simp
  then show ?thesis
    using assms e by (auto simp: run_unbind_def Let_def split: if_splits dest!: release_on)
qed

lemma op_run_on: "op_run kq_rx h t st = Some st' \<Longrightarrow> waiting_on X st \<Longrightarrow> waiting_on X st'"
  by (cases t) (auto simp: op_run_def Let_def descriptor_dispatch_read_def descriptor_dispatch_write_def
      dest!: complete_on call_on run_unbind_on task_on)

lemma op_run_all_on: "op_run_all kq_rx h ts st = Some st' \<Longrightarrow> waiting_on X st \<Longrightarrow> waiting_on X st'"
  by (induction ts arbitrary: st) (auto simp: Option.bind_eq_Some_conv dest!: op_run_on)

lemma run_events_on:
  "run_events kq_rx h evs exec st = Some (exec', st') \<Longrightarrow> waiting_on X st \<Longrightarrow> waiting_on X st'"
proof (induction evs arbitrary: exec st)
  case (Cons ev evs)
  obtain p f where ev: "ev = (p, f)" by fastforce
  show ?case
  proof (cases p)
    case None
    then show ?thesis using Cons.prems Cons.IH [of True "st\<lparr>ep_wake := ep_wake st - 256\<rparr>"] ev by simp
  next
    case (Some d)
    then obtain st1 where s: "descriptor_dispatch kq_rx h d f st = Some st1" "run_events kq_rx h evs exec st1 = Some (exec', st')"
      using Cons.prems(1) ev by (auto simp: Option.bind_eq_Some_conv)
    from Cons.IH [OF s(2) dispatch_on [OF s(1) waiting_on_insert [OF Cons.prems(2)]]] show ?thesis .
  qed
qed simp

lemma kq_run_on:
  assumes "kq_run accepts h evs st = Some (n, st')" and "waiting_on X st"
  shows "waiting_on X st'"
proof -
  have f: "waiting_on X (kq_flush accepts st)" using assms(2) by (simp add: kq_flush_def)
  obtain exec st1 where s: "run_events kq_rx h evs False (kq_flush accepts st) = Some (exec, st1)"
    using assms(1) by (auto simp: kq_run_def mux_run_def Option.bind_eq_Some_conv)
  have "waiting_on X st1" by (rule run_events_on [OF s f])
  then show ?thesis
    using assms(1) s by (auto simp: kq_run_def mux_run_def Let_def split: if_splits dest!: op_run_all_on)
qed

lemma kq_reach_on: "kq_reach h st \<Longrightarrow> waiting_on {} st"
proof (induction rule: kq_reach.induct)
  case (Kq_Start rd_pipe sys)
  show ?case by (simp add: waiting_on_def kq_ctor_def kq_change_def Let_def)
qed (auto simp: kq_request_eq intro: kon.do_request_keeps dest: kq_run_on)

section \<open>Lost registrations\<close>

text \<open>
  A refused change is not the only one that is lost: with it go all the changes behind it in the list,
  which may register other descriptors.
\<close>

lemma flush_drops_rest:
  assumes "kq_changes st = pre @ c # post" and "\<forall>x\<in>set pre. accepts x" and "\<not> accepts c"
  shows "kq_applied (kq_flush accepts st) = kq_applied st @ pre \<and> kq_changes (kq_flush accepts st) = []"
  using assms by (simp add: kq_flush_def)

definition kq_quiet :: "unit kqueue_ext handlers" where
  "kq_quiet ev st = []"

lemma polite_kq_quiet: "polite kq_rx kq_quiet"
  by (simp add: polite_def kq_quiet_def)

text \<open>
  A socket is opened and closed; in the round that closes it the kernel also reports that it can be
  written, and another socket is opened after the round.
\<close>

definition kq_demo_open :: kqueue where
  "kq_demo_open = the (kq_request (Req_Open 7) (kq_ctor 3 [(5, 0), (6, 0)]))"

definition kq_demo_close :: kqueue where
  "kq_demo_close = the (kq_request (Req_Close 7) kq_demo_open)"

definition kq_demo_events :: "(nat option \<times> int) list" where
  "kq_demo_events = [(Some 0, EVFILT_WRITE), (None, EVFILT_READ)]"

definition kq_demo_ran :: kqueue where
  "kq_demo_ran = snd (the (kq_run (\<lambda>c. True) kq_quiet kq_demo_events kq_demo_close))"

definition kq_demo_stale :: kqueue where
  "kq_demo_stale = the (kq_request (Req_Open 8) kq_demo_ran)"

lemmas kq_demo_eval = kq_request_eq do_request_def mux_open_def kq_ctor_def sys_next_def sys_retry_def kq_change_def Let_def
  create_bound_def descriptor_create_def kq_rx_def kq_bind_def queue_defs unbind_def

lemma kq_demo_open_eq: "kq_request (Req_Open 7) (kq_ctor 3 [(5, 0), (6, 0)]) = Some kq_demo_open"
  by (simp add: kq_demo_open_def kq_demo_eval)

lemma kq_demo_close_eq: "kq_request (Req_Close 7) kq_demo_open = Some kq_demo_close"
  by (simp add: kq_demo_close_def kq_request_eq do_request_def)

lemma kq_demo_open_reach: "kq_reach kq_quiet kq_demo_open"
  by (rule Kq_Request [OF Kq_Start _ kq_demo_open_eq]) simp

lemma kq_demo_close_reach: "kq_reach kq_quiet kq_demo_close"
  by (rule Kq_Request [OF kq_demo_open_reach _ kq_demo_close_eq]) simp

lemma dispatch_loop_empty: "ep_descs st d = Some e \<Longrightarrow> d_queue e ! i = [] \<Longrightarrow> dispatch_loop rx h d i st = Some st"
  by (subst dispatch_loop.simps) simp

lemma kq_demo_live: "events_live kq_demo_events kq_demo_close"
  by (simp add: kq_demo_events_def events_live_def kq_demo_close_def kq_demo_open_def kq_demo_eval)

lemma kq_demo_ran_eq: "\<exists>n. kq_run (\<lambda>c. True) kq_quiet kq_demo_events kq_demo_close = Some (n, kq_demo_ran)"
  using kq_run_step [OF kq_reach_inv [OF kq_demo_close_reach polite_kq_quiet] kq_demo_live polite_kq_quiet, of "\<lambda>c. True"]
  by (auto simp: kq_demo_ran_def)

lemma kq_demo_ran_reach: "kq_reach kq_quiet kq_demo_ran"
  using kq_demo_ran_eq Kq_Run [OF kq_demo_close_reach kq_demo_live] by blast

lemma kq_demo_ran_value:
  "ep_descs kq_demo_ran = Map.empty" "ep_closed kq_demo_ran = [5]" "ep_sys kq_demo_ran = [(6, 0)]" "ep_next kq_demo_ran = 1"
  "\<forall>c\<in>set (kq_applied kq_demo_ran). ch_udata c \<noteq> Some 1"
  "kq_changes kq_demo_ran =
     [\<lparr>ch_ident = 5, ch_filter = EVFILT_READ, ch_flags = EV_DISABLE, ch_udata = Some 0\<rparr>,
      \<lparr>ch_ident = 5, ch_filter = EVFILT_WRITE, ch_flags = EV_DISABLE, ch_udata = Some 0\<rparr>]"
  by (simp_all add: kq_demo_ran_def kq_run_def kq_flush_def mux_run_def kq_demo_events_def kq_demo_close_def
     kq_demo_open_def kq_demo_eval op_run_def descriptor_dispatch_def dispatch_loop_empty kqueueev_def EVFILT_READ_def EVFILT_WRITE_def
     kq_settle_def run_unbind_def descriptor_release_def sys_close_def)

lemma kq_demo_stale_eq: "kq_request (Req_Open 8) kq_demo_ran = Some kq_demo_stale"
  using krx.request_step [OF kq_reach_inv [OF kq_demo_ran_reach polite_kq_quiet], of "Req_Open 8"]
  by (auto simp: kq_demo_stale_def kq_request_eq)

lemma kq_demo_stale_reach: "kq_reach kq_quiet kq_demo_stale"
  by (rule Kq_Request [OF kq_demo_ran_reach _ kq_demo_stale_eq]) simp

text \<open>
  Such a state is reachable: the first two changes in the list name a file number that was closed and a
  descriptor that was deleted, so the kernel refuses them, and the registration of the socket opened
  after them is thrown away. No later operation repeats it: \<open>bind\<close> is called once for a descriptor.
\<close>

lemma registration_lost:
  "ep_socks kq_demo_stale 8 = Some 1" "\<exists>e. ep_descs kq_demo_stale 1 = Some e" "ep_descs kq_demo_stale 0 = None"
  "\<exists>c\<in>set (kq_changes kq_demo_stale). ch_udata c = Some 1"
  "\<forall>c\<in>set (kq_applied (kq_flush (\<lambda>c. ch_ident c \<notin> set (ep_closed kq_demo_stale)) kq_demo_stale)). ch_udata c \<noteq> Some 1"
  "kq_changes (kq_flush (\<lambda>c. ch_ident c \<notin> set (ep_closed kq_demo_stale)) kq_demo_stale) = []"
  using kq_demo_ran_value by (simp_all add: kq_flush_def kq_demo_stale_def kq_demo_eval)

text \<open>
  A connect that is in progress is registered by the next round, but nothing wakes the loop for it: when
  another thread asks for the connection, a loop that sleeps does not see it.
\<close>

lemma connect_does_not_wake:
  assumes "sys_next st = ((fd, en), st1)" and "sys_retry st1 = ((r, en2), st2)" and "fd \<noteq> - 1" and "r = 0 \<or> en2 = EINPROGRESS"
  shows "\<exists>st'. kq_connect s op st = Some st' \<and> ep_wake st' = ep_wake st \<and> ep_queue st' = ep_queue st \<and>
     length (kq_changes st') = length (kq_changes st) + 2"
proof -
  have "ep_wake st2 = ep_wake st" "ep_queue st2 = ep_queue st" "kq_changes st2 = kq_changes st"
    using assms(1,2) by (auto simp: sys_next_def sys_retry_def split: list.splits prod.splits)
  then show ?thesis
    using assms by (auto simp: kq_connect_def mux_connect_def descriptor_create_def upd_desc_def kq_rx_def kq_bind_def kq_change_def Let_def)
qed

section \<open>Properties\<close>

text \<open>
  No use after free with \<open>kqueue\<close>: in every reachable state of a multiplexer with a client that keeps
  the rules, a round of the loop with events of live descriptors ends, whichever changes the
  kernel accepts, and so does every valid request; what socket variables and queued tasks point to exists, with a
  count that covers all of them.
\<close>

theorem kqueue_memory_safe:
  assumes "polite kq_rx h" and "kq_reach h st"
  shows "(events_live evs st \<longrightarrow> (\<exists>n st'. kq_run accepts h evs st = Some (n, st'))) \<and>
     (valid_request r st \<longrightarrow> (\<exists>st'. kq_request r st = Some st')) \<and>
     (0 < owners [] (ep_queue st) (ep_socks st) d \<longrightarrow>
        (\<exists>e. ep_descs st d = Some e \<and> int (owners [] (ep_queue st) (ep_socks st) d) \<le> d_ref e))"
proof -
  have i: "ep_inv False [] [] {#} st" by (rule kq_reach_inv [OF assms(2,1)])
  show ?thesis
    using kq_run_step [OF i _ assms(1)] krx.request_step [OF i] inv_owners [OF i] unfolding kq_request_eq by blast
qed

theorem kqueue_memory_safe_witness:
  "(\<exists>n st'. kq_run (\<lambda>c. False) kq_quiet kq_demo_events kq_demo_close = Some (n, st')) \<and> (\<exists>e. ep_descs kq_demo_close 0 = Some e)"
  using kqueue_memory_safe [OF polite_kq_quiet kq_demo_close_reach, of kq_demo_events "\<lambda>c. False" _ 0] kq_demo_live
  by (simp add: kq_demo_close_def kq_demo_open_def kq_demo_eval)

text \<open>
  C7. The contract of a multiplexer holds for \<open>kqueue\<close> as for \<open>epoll\<close>: the engine's count is the number of
  live descriptors and queued tasks, every operation handed in waits or was completed exactly once, and
  while a task is queued the wake-up pipe holds a byte.
\<close>

theorem kqueue_work_conserved:
  assumes "polite kq_rx h" and "kq_reach h st"
  shows "ep_ref st = int (card (dom (ep_descs st)) + length (ep_queue st)) \<and>
     mset (ep_submitted st) = log_ops (ep_log st) + (tasks_ops (ep_queue st) + heap_ops (ep_descs st)) \<and>
     (ep_ref st = 0 \<longrightarrow> log_ops (ep_log st) = mset (ep_submitted st)) \<and> (ep_queue st \<noteq> [] \<longrightarrow> 0 < ep_wake st)"
proof -
  have r: "\<exists>h. polite kq_rx h \<and> kq_reach h st" using assms by blast
  show ?thesis
    using kmux.refs_law [OF r] kmux.ops_law [OF r, unfolded ep_pending_def] kmux.idle_done [OF r]
      ep_invD(7) [OF kq_reach_inv [OF assms(2,1)]] by blast
qed

theorem kqueue_work_conserved_witness:
  "ep_ref kq_demo_close = int (card (dom (ep_descs kq_demo_close)) + length (ep_queue kq_demo_close)) \<and> 0 < ep_wake kq_demo_close"
  using kqueue_work_conserved [OF polite_kq_quiet kq_demo_close_reach]
  by (simp add: kq_demo_close_def kq_demo_open_def kq_demo_eval)

text \<open>
  C6. An operation that waits at a descriptor is never forgotten by the registration: in every reachable
  state, when the read or the write queue of a descriptor is not empty, the last change that was asked of
  the kernel for that filter switches it on, under the descriptor's own file number while it is open.
\<close>

theorem kqueue_waiting_filter_on:
  assumes "kq_reach h st" and "ep_descs st d = Some e" and "q < 2" and "d_queue e ! q \<noteq> []"
  shows "\<exists>c. last_change (kq_issued st) d (kqueueev ! q) = Some c \<and> ch_flags c AND EV_ENABLE \<noteq> 0 \<and>
     (d_fd e \<noteq> - 1 \<longrightarrow> ch_ident c = d_fd e)"
  using waiting_onD [OF kq_reach_on [OF assms(1)] _ assms(2-4)] by (auto simp: filter_on_def split: option.splits)

definition kq_demo_connect :: kqueue where
  "kq_demo_connect = the (kq_request (Req_Connect 7 (operation_connect_base 4)) (kq_ctor 3 [(5, 0), (- 1, 115)]))"

lemma kq_demo_connect_eq:
  "kq_request (Req_Connect 7 (operation_connect_base 4)) (kq_ctor 3 [(5, 0), (- 1, 115)]) = Some kq_demo_connect"
  using krx.request_step [OF kq_ctor_inv, of "Req_Connect 7 (operation_connect_base 4)" 3 "[(5, 0), (- 1, 115)]"]
  by (auto simp: kq_demo_connect_def kq_request_eq)

lemma kq_demo_connect_reach: "kq_reach kq_quiet kq_demo_connect"
  by (rule Kq_Request [OF Kq_Start _ kq_demo_connect_eq]) simp

theorem kqueue_waiting_filter_on_witness:
  "\<exists>c. last_change (kq_issued kq_demo_connect) 0 (kqueueev ! 1) = Some c \<and> ch_flags c AND EV_ENABLE \<noteq> 0 \<and> ch_ident c = 5"
  using kqueue_waiting_filter_on [OF kq_demo_connect_reach, of 0 "the (ep_descs kq_demo_connect 0)" 1]
  by (simp add: kq_demo_connect_def kq_demo_eval mux_connect_def EINPROGRESS_def EINTR_def upd_desc_def)

end
