(* ===== verification/Poll_Select.thy ===== *)
theory Poll_Select
  imports Tcode_Prelude "HOL-Library.Multiset"
begin

unbundle bit_operations_syntax

text \<open>
  The tables of the two other multiplexers, \<open>src/io/poll.cpp\<close> and \<open>src/io/select.cpp\<close>. Both keep a vector of
  descriptors; \<open>poll\<close> keeps the kernel's \<open>pollfd\<close> entries in a second vector beside it, and in each descriptor the index
  of its entry. The theory models the tables: their construction, the tasks that add and remove a descriptor, the
  tasks that queue an operation, \<open>complete\<close>, and the two loops of \<open>run\<close> that wait and dispatch. What a transfer and a
  handler do is a parameter; descriptors' reference counts and the queue of tasks work as in \<open>epoll.cpp\<close> and are left out.
\<close>

section \<open>Descriptors\<close>





section \<open>poll\<close>










definition swap_at :: "nat \<Rightarrow> nat \<Rightarrow> 'a list \<Rightarrow> 'a list" where
  "swap_at i j xs = xs[i := xs ! j, j := xs ! i]"









section \<open>select\<close>

text \<open>
  The whole of \<open>select\<close>, its tasks and its wake-up pipe included. A descriptor is known by its address; it is never
  deleted here (its count is left out), so its memory is total. \<open>sl_wake\<close> counts the bytes that \<open>wake_up\<close> wrote into
  the pipe: nothing in \<open>select.cpp\<close> reads them. \<open>sl_log\<close> is a history: which queues \<open>run\<close> tried, which tasks it ran.
\<close>

record sel_desc =
  sd_fd :: int
  sd_queue :: "nat list list"

datatype sel_task = Sel_Bind nat | Sel_Unbind nat | Sel_Queue nat nat nat | Sel_Call nat


datatype sel_event = Tried nat nat | Ran sel_task

record 'w select =
  sl_desc :: "nat list"
  sl_heap :: "nat \<Rightarrow> sel_desc"
  sl_next :: nat
  sl_ops :: "sel_task list"
  sl_wake :: nat
  sl_log :: "sel_event list"
  sl_world :: 'w





















section \<open>The table of poll\<close>




















lemma length_swap_at [simp]: "length (swap_at i j xs) = length xs"
  by (simp add: swap_at_def)









section \<open>The rounds of select\<close>

text \<open>
  What requests change: tasks and bytes in the pipe grow together, new descriptors stand behind the old ones, and
  everything else stays.
\<close>

definition grows :: "'w select \<Rightarrow> 'w select \<Rightarrow> bool" where
  "grows s s' \<longleftrightarrow> (\<exists>more. sl_ops s' = sl_ops s @ more \<and> sl_wake s' = sl_wake s + length more) \<and> sl_desc s' = sl_desc s \<and>
     sl_log s' = sl_log s \<and> sl_next s \<le> sl_next s' \<and> (\<forall>d < sl_next s. sl_heap s' d = sl_heap s d) \<and>
     ((\<forall>d. length (sd_queue (sl_heap s d)) = 3) \<longrightarrow> (\<forall>d. length (sd_queue (sl_heap s' d)) = 3)) \<and>
     (\<forall>d. Sel_Bind d \<in> set (sl_ops s') \<longrightarrow> Sel_Bind d \<in> set (sl_ops s) \<or> d < sl_next s')"


lemma grows_refl [simp]: "grows s s" "grows s (s\<lparr>sl_world := w\<rparr>)" by (auto simp: grows_def)






















section \<open>Properties\<close>













end
