(* ===== verification/Epoll.thy ===== *)
theory Epoll
  imports Reactor
begin

text \<open>
  The multiplexer of \<open>src/io/epoll.cpp\<close>: its registration with the kernel, the events it dispatches
  on, and, through the shared operations of the theory \<open>Reactor\<close>, its reachable states and what
  holds in them.
\<close>

section \<open>Registration and events\<close>

type_synonym epoll = mux

definition epoll_ctor :: "(int \<times> int) list \<Rightarrow> epoll" where
  "epoll_ctor sys = \<lparr>ep_descs = Map.empty, ep_next = 0, ep_queue = [], ep_ref = 0, ep_wake = 0,
     ep_socks = Map.empty, ep_sys = sys, ep_closed = [], ep_log = [], ep_submitted = []\<rparr>"

text \<open>\<open>bind( const descriptor& )\<close>: register with the kernel.\<close>

definition epoll_bind :: "nat \<Rightarrow> epoll \<Rightarrow> (bool \<times> int \<times> epoll) option" where
  "epoll_bind d st =
     (case ep_descs st d of
        None \<Rightarrow> None
      | Some e \<Rightarrow> let ((r, errno), st) = sys_next st in Some (r = 0, errno, st))"

definition EPOLLIN :: nat where "EPOLLIN = 1"
definition EPOLLPRI :: nat where "EPOLLPRI = 2"
definition EPOLLOUT :: nat where "EPOLLOUT = 4"

definition epollev :: "nat list" where
  "epollev = [EPOLLIN, EPOLLOUT, EPOLLPRI]"

text \<open>The registration is edge triggered (\<open>EPOLLET\<close>) and is left as it is after a dispatch.\<close>

definition epoll_rx :: "(unit, nat) reactor" where
  "epoll_rx = \<lparr>rx_bind = epoll_bind, rx_queues = [0, 1, 2], rx_ready = (\<lambda>events i. events AND epollev ! i \<noteq> 0),
     rx_in = EPOLLIN, rx_out = EPOLLOUT, rx_settle = (\<lambda>d. Some)\<rparr>"

definition epoll_run :: "unit handlers \<Rightarrow> (nat option \<times> nat) list \<Rightarrow> epoll \<Rightarrow> (nat \<times> epoll) option" where
  "epoll_run h evs st = mux_run epoll_rx h evs st"

lemma epoll_bind_core: "ep_descs st d = Some e \<Longrightarrow> \<exists>b en st'. epoll_bind d st = Some (b, en, st') \<and> same_core st st'"
  by (rule sys_next_cases [of st]) (simp add: epoll_bind_def same_core_def)

interpretation erx: reactor_laws epoll_rx
  by unfold_locales (auto simp: epoll_rx_def intro: epoll_bind_core)

lemma epoll_run_step:
  assumes "ep_inv False [] [] {#} st" and "events_live evs st" and "polite epoll_rx h"
  shows "\<exists>n st'. epoll_run h evs st = Some (n, st') \<and> ep_inv False [] [] {#} st'"
  using erx.mux_run_step [OF assms] by (simp add: epoll_run_def)

section \<open>Reachable states\<close>

text \<open>
  The states a multiplexer gets into: requests from any thread, atomic as the lock and the atomic
  counters make them, and rounds of the loop, in any order.
\<close>

inductive ep_reach :: "unit handlers \<Rightarrow> epoll \<Rightarrow> bool" for h where
  Reach_Start: "ep_reach h (epoll_ctor sys)"
| Reach_Request: "ep_reach h st \<Longrightarrow> valid_request r st \<Longrightarrow> do_request epoll_rx r st = Some st' \<Longrightarrow> ep_reach h st'"
| Reach_Run: "ep_reach h st \<Longrightarrow> events_live evs st \<Longrightarrow> epoll_run h evs st = Some (n, st') \<Longrightarrow> ep_reach h st'"

lemma epoll_ctor_inv: "ep_inv False [] [] {#} (epoll_ctor sys)"
  by (simp add: ep_inv_def epoll_ctor_def owners_def heap_ops_def)

lemma reach_inv: "ep_reach h st \<Longrightarrow> polite epoll_rx h \<Longrightarrow> ep_inv False [] [] {#} st"
proof (induction rule: ep_reach.induct)
  case (Reach_Request st r st')
  then show ?case using erx.request_step [of False "[]" "[]" "{#}" st r] by auto
next
  case (Reach_Run st evs n st')
  then show ?case using epoll_run_step [of st evs h] by auto
qed (rule epoll_ctor_inv)

interpretation mux: multiplexer
  "\<lambda>st :: epoll. \<exists>h. polite epoll_rx h \<and> ep_reach h st" ep_ref "\<lambda>st. card (dom (ep_descs st))" "\<lambda>st. length (ep_queue st)"
  "\<lambda>st. mset (ep_submitted st)" "\<lambda>st. log_ops (ep_log st)" ep_pending
  by (rule inv_multiplexer) (use reach_inv in blast)

section \<open>Properties\<close>

text \<open>
  C1. No use after free: in every reachable state of a multiplexer with a client that keeps the
  rules, a round of the loop with events of registered descriptors ends, and so does every valid
  request, and neither touches a deleted descriptor; the descriptors that socket variables and
  queued tasks point to exist, with a count that covers all of them.
\<close>

theorem epoll_memory_safe:
  assumes "polite epoll_rx h" and "ep_reach h st"
  shows "(events_live evs st \<longrightarrow> (\<exists>n st'. epoll_run h evs st = Some (n, st'))) \<and>
     (valid_request r st \<longrightarrow> (\<exists>st'. do_request epoll_rx r st = Some st')) \<and>
     (0 < owners [] (ep_queue st) (ep_socks st) d \<longrightarrow>
        (\<exists>e. ep_descs st d = Some e \<and> int (owners [] (ep_queue st) (ep_socks st) d) \<le> d_ref e))"
proof -
  have i: "ep_inv False [] [] {#} st" by (rule reach_inv [OF assms(2,1)])
  show ?thesis
    using epoll_run_step [OF i _ assms(1)] erx.request_step [OF i] inv_owners [OF i] by blast
qed

definition quiet :: "unit handlers" where
  "quiet ev st = []"

lemma polite_quiet: "polite epoll_rx quiet"
  by (simp add: polite_def quiet_def)

text \<open>A run to test the hypotheses on: open a socket, send a write to it.\<close>

definition demo_open :: epoll where
  "demo_open = the (do_request epoll_rx (Req_Open 7) (epoll_ctor [(5, 0), (0, 0), (4, 0)]))"

definition demo_write :: epoll where
  "demo_write = the (do_request epoll_rx (Req_Write 7 (operation_write_base 1 [buffer_of 100 4])) demo_open)"

lemmas demo_eval = demo_open_def demo_write_def epoll_rx_def do_request_def mux_open_def epoll_ctor_def sys_next_def
  create_bound_def descriptor_create_def epoll_bind_def tcp_write_def descriptor_add_ref_def upd_desc_def queue_defs

lemma demo_open_eq: "do_request epoll_rx (Req_Open 7) (epoll_ctor [(5, 0), (0, 0), (4, 0)]) = Some demo_open"
  by (simp add: demo_eval)

lemma demo_write_eq: "do_request epoll_rx (Req_Write 7 (operation_write_base 1 [buffer_of 100 4])) demo_open = Some demo_write"
  by (simp add: demo_eval)

lemma demo_reach: "ep_reach quiet demo_write"
proof -
  have o: "ep_reach quiet demo_open"
    by (rule Reach_Request [OF Reach_Start _ demo_open_eq]) simp
  have "valid_request (Req_Write 7 (operation_write_base 1 [buffer_of 100 4])) demo_open"
    by (simp add: demo_eval)
  from Reach_Request [OF o this demo_write_eq] show ?thesis .
qed

theorem epoll_memory_safe_witness:
  "\<exists>n st'. epoll_run quiet [(None, 1)] demo_write = Some (n, st')"
  using epoll_memory_safe [OF polite_quiet demo_reach, of "[(None, 1)]"] by (simp add: events_live_def)

text \<open>
  C2. Every operation handed to the multiplexer is, at every moment, either waiting (in the task
  queue or at exactly one descriptor) or completed, exactly once: none is lost and no handler is
  called twice.
\<close>

theorem epoll_operations_conserved:
  assumes "polite epoll_rx h" and "ep_reach h st"
  shows "mset (ep_submitted st) = log_ops (ep_log st) + (tasks_ops (ep_queue st) + heap_ops (ep_descs st))"
  using mux.ops_law [of st] assms by (auto simp: ep_pending_def)

theorem epoll_operations_conserved_witness:
  "mset (ep_submitted demo_write) = log_ops (ep_log demo_write) + (tasks_ops (ep_queue demo_write) + heap_ops (ep_descs demo_write)) \<and>
   ep_submitted demo_write = [1]"
  using epoll_operations_conserved [OF polite_quiet demo_reach]
  by (simp add: demo_eval operation_write_base_def operation_ctor_def)

text \<open>
  C3. The count the engine's loop tests is the number of live descriptors and queued tasks; when it
  is zero every operation has been completed, and while the queue holds a task the wake-up pipe
  holds a byte, so that the loop will not sleep over it.
\<close>

theorem engine_count_covers_work:
  assumes "polite epoll_rx h" and "ep_reach h st"
  shows "ep_ref st = int (card (dom (ep_descs st)) + length (ep_queue st)) \<and>
     (ep_ref st = 0 \<longrightarrow> ep_queue st = [] \<and> log_ops (ep_log st) = mset (ep_submitted st)) \<and>
     (ep_queue st \<noteq> [] \<longrightarrow> 0 < ep_wake st)"
proof -
  have r: "\<exists>h. polite epoll_rx h \<and> ep_reach h st" using assms by blast
  show ?thesis
    using mux.refs_law [OF r] mux.idle_done [OF r] ep_invD(7) [OF reach_inv [OF assms(2,1)]] by auto
qed

theorem engine_count_covers_work_witness:
  "ep_ref demo_write = int (card (dom (ep_descs demo_write)) + length (ep_queue demo_write)) \<and> 0 < ep_wake demo_write"
  using engine_count_covers_work [OF polite_quiet demo_reach] by (simp add: demo_eval)

text \<open>
  The last release of a descriptor deletes it and queues all of its waiting operations, in the
  order of its queues, each with the aborted error unless it failed before, and wakes the loop.
\<close>

theorem last_release_aborts:
  assumes "ep_descs st d = Some e" and "d_ref e = 1" and "concat (d_queue e) \<noteq> []"
  shows "\<exists>st'. descriptor_release d st = Some st' \<and> ep_descs st' d = None \<and>
     ep_queue st' = ep_queue st @ map (\<lambda>op. Run_Op (abort_op op)) (concat (d_queue e)) \<and>
     (\<forall>op. \<not> has_error (op_error op) \<longrightarrow> op_error (abort_op op) = error_aborted) \<and>
     (\<forall>op. has_error (op_error op) \<longrightarrow> abort_op op = op) \<and> 0 < ep_wake st'"
  using release_last [OF assms(1,2)] assms(3) by (auto simp: abort_op_def comp_def)

theorem last_release_aborts_witness:
  "\<exists>st'. descriptor_release 0 (demo_open\<lparr>ep_descs := [0 \<mapsto> \<lparr>d_fd = 5, d_queue = [[operation_read_base 2 [] False], [], []], d_ref = 1\<rparr>]\<rparr>) =
     Some st' \<and> ep_descs st' 0 = None"
  using last_release_aborts [of "demo_open\<lparr>ep_descs := [0 \<mapsto> \<lparr>d_fd = 5, d_queue = [[operation_read_base 2 [] False], [], []], d_ref = 1\<rparr>]\<rparr>" 0
      "\<lparr>d_fd = 5, d_queue = [[operation_read_base 2 [] False], [], []], d_ref = 1\<rparr>"]
  by auto

end
