(* ===== verification/Reactor_Types.thy ===== *)
theory Reactor_Types
  imports Reactor_Frame Epoll
begin

text \<open>
  The types of the multiplexers' queues. In the sources a queue holds pointers to the base class, and which
  transfer an operation performs is a function pointer set by its constructor; that the queue for
  reading holds operations that read is nowhere declared. Here it is a conformance relation of operations,
  tasks, descriptors and states, kept by every step as long as requests pass operations of the types
  the member functions declare.
\<close>

section \<open>Conformance\<close>

text \<open>\<open>ev_read\<close> and \<open>ev_accept\<close> are 0, \<open>ev_write\<close> and \<open>ev_connect\<close> are 1; nothing goes to \<open>ev_pri\<close>.\<close>

fun kind_conf :: "nat \<Rightarrow> post_proc_handler \<Rightarrow> bool" where
  "kind_conf i Post_Read \<longleftrightarrow> i = 0"
| "kind_conf i Post_Read_Fixed_Len \<longleftrightarrow> i = 0"
| "kind_conf i Post_Accept \<longleftrightarrow> i = 0"
| "kind_conf i Post_Udp_Read \<longleftrightarrow> i = 0"
| "kind_conf i Post_Write \<longleftrightarrow> i = 1"
| "kind_conf i Post_Connect \<longleftrightarrow> i = 1"
| "kind_conf i Post_Udp_Write \<longleftrightarrow> i = 1"

definition op_conf :: "nat \<Rightarrow> io_op \<Rightarrow> bool" where
  "op_conf i op \<longleftrightarrow> kind_conf i (op_post op)"

definition desc_conf :: "descriptor \<Rightarrow> bool" where
  "desc_conf e \<longleftrightarrow> length (d_queue e) = 3 \<and> (\<forall>i<3. list_all (op_conf i) (d_queue e ! i))"

fun task_conf :: "task \<Rightarrow> bool" where
  "task_conf (Read_Task d op) \<longleftrightarrow> op_conf 0 op"
| "task_conf (Write_Task d op) \<longleftrightarrow> op_conf 1 op"
| "task_conf _ \<longleftrightarrow> True"

definition state_conf :: "'x mux_scheme \<Rightarrow> bool" where
  "state_conf st \<longleftrightarrow> (\<forall>d e. ep_descs st d = Some e \<longrightarrow> desc_conf e) \<and> list_all task_conf (ep_queue st)"

text \<open>The parameter types of the member functions that take an operation.\<close>

fun request_typed :: "request \<Rightarrow> bool" where
  "request_typed (Req_Read s op) \<longleftrightarrow> op_post op \<in> {Post_Read, Post_Read_Fixed_Len}"
| "request_typed (Req_Write s op) \<longleftrightarrow> op_post op = Post_Write"
| "request_typed (Req_Accept s op) \<longleftrightarrow> op_post op = Post_Accept"
| "request_typed (Req_Connect s op) \<longleftrightarrow> op_post op = Post_Connect"
| "request_typed (Req_Udp_Write s op) \<longleftrightarrow> op_post op = Post_Udp_Write"
| "request_typed (Req_Udp_Read s op) \<longleftrightarrow> op_post op = Post_Udp_Read"
| "request_typed _ \<longleftrightarrow> True"

definition handlers_typed :: "'x handlers \<Rightarrow> bool" where
  "handlers_typed h \<longleftrightarrow> (\<forall>ev st. list_all request_typed (h ev st))"

section \<open>Lemmas\<close>

lemma list_all_tl: "list_all p q \<Longrightarrow> list_all p (tl q)"
  by (cases q) auto

lemma state_confD: "state_conf st \<Longrightarrow> ep_descs st d = Some e \<Longrightarrow> desc_conf e"
  by (simp add: state_conf_def)

lemma state_conf_fields [simp]:
  "state_conf (st\<lparr>ep_sys := xs\<rparr>) = state_conf st" "state_conf (st\<lparr>ep_closed := c\<rparr>) = state_conf st"
  "state_conf (st\<lparr>ep_wake := w\<rparr>) = state_conf st" "state_conf (st\<lparr>ep_submitted := b\<rparr>) = state_conf st"
  "state_conf (st\<lparr>ep_socks := socks\<rparr>) = state_conf st" "state_conf (st\<lparr>ep_log := l\<rparr>) = state_conf st"
  "state_conf (st\<lparr>ep_ref := n\<rparr>) = state_conf st"
  by (simp_all add: state_conf_def)

lemma state_conf_core: "same_core st st' \<Longrightarrow> state_conf st' = state_conf st"
  by (simp add: state_conf_def same_core_def)

lemma state_conf_upd: "state_conf st \<Longrightarrow> desc_conf e \<Longrightarrow> state_conf (st\<lparr>ep_descs := (ep_descs st)(d \<mapsto> e)\<rparr>)"
  by (simp add: state_conf_def)

lemma state_conf_add: "state_conf st \<Longrightarrow> task_conf t \<Longrightarrow> state_conf (op_add t st)"
  by (simp add: state_conf_def op_add_def)

lemma desc_conf_ref [simp]: "desc_conf (e\<lparr>d_ref := n\<rparr>) = desc_conf e" "desc_conf (e\<lparr>d_fd := fd\<rparr>) = desc_conf e"
  by (simp_all add: desc_conf_def)

lemma desc_conf_new: "desc_conf \<lparr>d_fd = fd, d_queue = [[], [], []], d_ref = n\<rparr>"
  by (auto simp: desc_conf_def less_Suc_eq numeral_3_eq_3)

lemma desc_conf_connect: "op_post op = Post_Connect \<Longrightarrow> desc_conf (e\<lparr>d_queue := [[], [op], []]\<rparr>)"
  by (auto simp: desc_conf_def op_conf_def less_Suc_eq numeral_3_eq_3)

lemma desc_conf_queue:
  "desc_conf e \<Longrightarrow> list_all (op_conf i) q \<Longrightarrow> desc_conf (e\<lparr>d_queue := (d_queue e)[i := q]\<rparr>)"
  by (simp add: desc_conf_def) (metis nth_list_update_eq nth_list_update_neq)

lemma desc_confD: "desc_conf e \<Longrightarrow> i < 3 \<Longrightarrow> list_all (op_conf i) (d_queue e ! i)"
  by (simp add: desc_conf_def)

lemma add_ref_conf: "state_conf st \<Longrightarrow> descriptor_add_ref d st = Some st' \<Longrightarrow> state_conf st'"
  by (auto simp: descriptor_add_ref_def upd_desc_def intro!: state_conf_upd dest: state_confD split: option.splits)

lemma create_conf: "state_conf st \<Longrightarrow> descriptor_create fd st = (d, st') \<Longrightarrow> state_conf st'"
  by (auto simp: descriptor_create_def state_conf_def desc_conf_new split: if_splits)

lemma release_conf:
  assumes c: "state_conf st" and r: "descriptor_release d st = Some st'"
  shows "state_conf st'"
proof -
  obtain e where e: "ep_descs st d = Some e" using r by (auto simp: descriptor_release_def split: option.splits)
  show ?thesis
  proof (cases "d_ref e = 1")
    case True
    then show ?thesis
      using release_last [OF e True] r c by (auto simp: state_conf_def list_all_iff split: if_splits)
  next
    case False
    then show ?thesis
      using r e state_conf_upd [OF c, of "e\<lparr>d_ref := d_ref e - 1\<rparr>"] state_confD [OF c e]
      by (auto simp: descriptor_release_def)
  qed
qed

lemma typed_ok: "request_typed r \<Longrightarrow> request_ok task_conf (\<lambda>op. op_post op = Post_Connect) r"
  by (cases r) (auto simp: op_conf_def)

sublocale reactor_laws \<subseteq> typed: request_frame rx state_conf "\<lambda>d. True" task_conf "\<lambda>op. op_post op = Post_Connect"
proof unfold_locales
  show "state_conf st2" if c: "state_conf st" "descriptor_create fd st = (d, st1)"
    and b: "rx_bind rx d (st1\<lparr>ep_socks := socks\<rparr>) = Some (b, en, st2)" for st fd d st1 socks b en st2
  proof -
    have "ep_descs (st1\<lparr>ep_socks := socks\<rparr>) d = Some \<lparr>d_fd = fd, d_queue = [[], [], []], d_ref = 1\<rparr>"
      using c(2) by (auto simp: descriptor_create_def)
    from bind_law [OF this] b have "same_core (st1\<lparr>ep_socks := socks\<rparr>) st2" by auto
    then show ?thesis using create_conf [OF c] by (simp add: state_conf_core)
  qed
  show "state_conf st3" if c: "state_conf st" "descriptor_create fd st = (d, st1)" and o: "op_post op = Post_Connect"
    and u: "upd_desc d (\<lambda>e. e\<lparr>d_queue := [[], [op], []]\<rparr>) (st1\<lparr>ep_socks := socks\<rparr>) = Some st2"
    and b: "rx_bind rx d st2 = Some (b, en, st3)" for st fd d st1 op socks st2 b en st3
  proof -
    obtain e where e: "ep_descs st2 d = Some e" "state_conf st2"
      using u create_conf [OF c] state_conf_upd [of "st1\<lparr>ep_socks := socks\<rparr>", OF _ desc_conf_connect [OF o]]
      by (auto simp: upd_desc_def split: option.splits)
    from bind_law [OF e(1)] b have "same_core st2 st3" by auto
    then show ?thesis using e(2) by (simp add: state_conf_core)
  qed
qed (auto intro: state_conf_add add_ref_conf release_conf state_conf_upd desc_conf_connect)

context reactor_laws
begin

lemma do_requests_conf:
  "do_requests rx rs st = Some st' \<Longrightarrow> list_all request_typed rs \<Longrightarrow> state_conf st \<Longrightarrow> state_conf st'"
  by (erule typed.do_requests_keeps) (auto simp: list_all_iff intro: typed_ok)

lemma complete_conf:
  "complete rx h op st = Some st' \<Longrightarrow> handlers_typed h \<Longrightarrow> state_conf st \<Longrightarrow> state_conf st'"
  "call_function rx h k st = Some st' \<Longrightarrow> handlers_typed h \<Longrightarrow> state_conf st \<Longrightarrow> state_conf st'"
  by (auto simp: complete_def call_function_def Let_def handlers_typed_def elim!: do_requests_conf)

lemma dispatch_loop_conf:
  assumes "dispatch_loop rx' h d i st = Some st'" and "rx' = rx" and "i < 3" and "handlers_typed h" and "state_conf st"
  shows "state_conf st'"
  using assms(2-5)
proof (induction rule: dispatch_loop.raw_induct [OF _ assms(1)])
  case (1 loop rx' h d i st st')
  obtain e where e: "ep_descs st d = Some e" using 1(2) by (auto split: option.splits)
  note conf = desc_confD [OF state_confD [OF "1.prems"(4) e] "1.prems"(2)]
  show ?case
  proof (cases "d_queue e ! i")
    case Nil
    then show ?thesis using 1(2) e "1.prems"(4) by simp
  next
    case (Cons op q)
    obtain fin op' st1 where p: "post_proc rx d op st = Some (fin, op', st1)"
      using 1(2) e Cons "1.prems"(1) by (auto simp: bind_eq_Some_iff)
    have c1: "state_conf st1" "op_conf i op'"
      using typed.post_proc_keeps [OF p "1.prems"(4)] conf Cons by (auto simp: op_conf_def)
    have upd: "state_conf st2" if u: "upd_desc d (\<lambda>e. e\<lparr>d_queue := (d_queue e)[i := f (d_queue e ! i)]\<rparr>) st1 = Some st2"
      and f: "\<And>q. list_all (op_conf i) q \<Longrightarrow> list_all (op_conf i) (f q)" for f st2
    proof -
      obtain e1 where e1: "ep_descs st1 d = Some e1" using u by (auto simp: upd_desc_def split: option.splits)
      have d1: "desc_conf e1" by (rule state_confD [OF c1(1) e1])
      show ?thesis
        using u e1 state_conf_upd [OF c1(1) desc_conf_queue [OF d1 f [OF desc_confD [OF d1 "1.prems"(2)]]]]
        by (auto simp: upd_desc_def)
    qed
    show ?thesis
    proof (cases fin)
      case True
      obtain st2 st3 where s: "upd_desc d (\<lambda>e. e\<lparr>d_queue := (d_queue e)[i := tl (d_queue e ! i)]\<rparr>) st1 = Some st2"
        "complete rx h op' st2 = Some st3" "loop rx h d i st3 = Some st'"
        using 1(2) e Cons p True "1.prems"(1) by (auto simp: bind_eq_Some_iff)
      have "state_conf st2" by (rule upd [OF s(1) list_all_tl])
      from complete_conf(1) [OF s(2) "1.prems"(3) this] show ?thesis
        using 1(1) [OF s(3) refl "1.prems"(2,3)] by simp
    next
      case False
      then have "upd_desc d (\<lambda>e. e\<lparr>d_queue := (d_queue e)[i := op' # tl (d_queue e ! i)]\<rparr>) st1 = Some st'"
        using 1(2) e Cons p "1.prems"(1) by simp
      then show ?thesis
        by (rule upd [where f = "\<lambda>q. op' # tl q"]) (use c1(2) in \<open>simp add: list_all_tl\<close>)
    qed
  qed
qed

lemma dispatch_from_conf:
  "dispatch_from rx h d events is st = Some st' \<Longrightarrow> set is \<subseteq> {..<3} \<Longrightarrow> handlers_typed h \<Longrightarrow> state_conf st \<Longrightarrow>
     state_conf st'"
  by (induction "is" arbitrary: st)
    (auto simp: bind_eq_Some_iff split: if_splits dest: dispatch_loop_conf [OF _ refl])

lemma dispatch_conf:
  assumes "descriptor_dispatch rx h d events st = Some st'" and "handlers_typed h" and "state_conf st"
  shows "state_conf st'"
proof -
  obtain st1 where s: "dispatch_from rx h d events (rx_queues rx) st = Some st1" "rx_settle rx d st1 = Some st'"
    using assms(1) by (auto simp: descriptor_dispatch_def bind_eq_Some_iff)
  have "state_conf st1" by (rule dispatch_from_conf [OF s(1) queues_law assms(2,3)])
  then show ?thesis using settle_core [OF s(2)] by (simp add: state_conf_core)
qed

lemma push_op_conf:
  assumes "push_op d i op st = Some st'" and "op_conf i op" and "i < 3" and c: "state_conf st"
  shows "state_conf st'"
proof -
  obtain e where e: "ep_descs st d = Some e" using assms(1) by (auto simp: push_op_def upd_desc_def split: option.splits)
  have d: "desc_conf e" by (rule state_confD [OF c e])
  then have "list_all (op_conf i) (d_queue e ! i @ [op])" using assms(2,3) by (simp add: desc_confD)
  from state_conf_upd [OF c desc_conf_queue [OF d this], of d] show ?thesis
    using assms(1) e by (simp add: push_op_def upd_desc_def)
qed

lemma task_step_conf:
  assumes "Option.bind (push_op d i op st) (\<lambda>st. Option.bind (descriptor_dispatch rx h d events st)
      (\<lambda>st. descriptor_release d st)) = Some st'"
    and "op_conf i op" and "i < 3" and "handlers_typed h" and "state_conf st"
  shows "state_conf st'"
proof -
  obtain st1 st2 where s: "push_op d i op st = Some st1" "descriptor_dispatch rx h d events st1 = Some st2"
    "descriptor_release d st2 = Some st'"
    using assms(1) by (auto simp: bind_eq_Some_iff)
  show ?thesis by (rule release_conf [OF dispatch_conf [OF s(2) assms(4) push_op_conf [OF s(1) assms(2,3,5)]] s(3)])
qed

lemma op_run_conf:
  assumes r: "op_run rx h t st = Some st'" and t: "task_conf t" and h: "handlers_typed h" and c: "state_conf st"
  shows "state_conf st'"
proof (cases t)
  case (Unbind_Task d)
  obtain e where e: "ep_descs st d = Some e" using r Unbind_Task by (cases "ep_descs st d") (auto simp: op_run_def run_unbind_def)
  have "state_conf (st\<lparr>ep_descs := (ep_descs st)(d \<mapsto> e\<lparr>d_fd := - 1\<rparr>)\<rparr>)"
    using state_confD [OF c e] by (intro state_conf_upd [OF c]) simp
  then have "state_conf (st\<lparr>ep_ref := ep_ref st - 1, ep_descs := (ep_descs st)(d \<mapsto> e\<lparr>d_fd := - 1\<rparr>)\<rparr>)"
    by (simp add: state_conf_def)
  then show ?thesis
    using r Unbind_Task e c by (auto simp: op_run_def run_unbind_def sys_close_def Let_def split: if_splits dest: release_conf [rotated])
next
  case (Read_Task d op)
  then show ?thesis
    using r t task_step_conf [of d 0 op "st\<lparr>ep_ref := ep_ref st - 1\<rparr>" h "rx_in rx" st'] h c
    by (simp add: op_run_def descriptor_dispatch_read_def)
next
  case (Write_Task d op)
  then show ?thesis
    using r t task_step_conf [of d 1 op "st\<lparr>ep_ref := ep_ref st - 1\<rparr>" h "rx_out rx" st'] h c
    by (simp add: op_run_def descriptor_dispatch_write_def)
qed (use r h c in \<open>auto simp: op_run_def intro: complete_conf\<close>)

lemma op_run_all_conf:
  "op_run_all rx h ts st = Some st' \<Longrightarrow> list_all task_conf ts \<Longrightarrow> handlers_typed h \<Longrightarrow> state_conf st \<Longrightarrow> state_conf st'"
  by (induction ts arbitrary: st) (auto simp: bind_eq_Some_iff dest: op_run_conf)

lemma run_events_conf:
  assumes "run_events rx h evs exec st = Some (exec', st')" and h: "handlers_typed h" and "state_conf st"
  shows "state_conf st'"
  using assms(1,3)
proof (induction evs arbitrary: exec st)
  case (Cons ev evs)
  obtain p f where ev: "ev = (p, f)" by fastforce
  show ?case
  proof (cases p)
    case None
    then show ?thesis using Cons.prems Cons.IH [of True "st\<lparr>ep_wake := ep_wake st - 256\<rparr>"] ev by simp
  next
    case (Some d)
    then obtain st1 where s: "descriptor_dispatch rx h d f st = Some st1" "run_events rx h evs exec st1 = Some (exec', st')"
      using Cons.prems(1) ev by (auto simp: bind_eq_Some_iff)
    from Cons.IH [OF s(2) dispatch_conf [OF s(1) h Cons.prems(2)]] show ?thesis .
  qed
qed simp

lemma mux_run_conf:
  assumes r: "mux_run rx h evs st = Some (n, st')" and h: "handlers_typed h" and c: "state_conf st"
  shows "state_conf st'"
proof -
  obtain exec st1 where s: "run_events rx h evs False st = Some (exec, st1)"
    using r by (auto simp: mux_run_def bind_eq_Some_iff)
  have c1: "state_conf st1" by (rule run_events_conf [OF s h c])
  then have q: "state_conf (st1\<lparr>ep_queue := []\<rparr>)" "list_all task_conf (ep_queue st1)" by (simp_all add: state_conf_def)
  show ?thesis
    using r s c1 op_run_all_conf [OF _ q(2) h q(1)] by (auto simp: mux_run_def Let_def split: if_splits)
qed

end

section \<open>Typed clients\<close>

text \<open>The states a multiplexer gets into when requests pass operations of the declared types.\<close>

inductive typed_steps :: "('x, 'ev) reactor \<Rightarrow> 'x handlers \<Rightarrow> 'x mux_scheme \<Rightarrow> 'x mux_scheme \<Rightarrow> bool" for rx h st where
  Typed_None: "typed_steps rx h st st"
| Typed_Request: "typed_steps rx h st st' \<Longrightarrow> request_typed r \<Longrightarrow> do_request rx r st' = Some st'' \<Longrightarrow> typed_steps rx h st st''"
| Typed_Run: "typed_steps rx h st st' \<Longrightarrow> mux_run rx h evs st' = Some (n, st'') \<Longrightarrow> typed_steps rx h st st''"

context reactor_laws
begin

lemma typed_steps_conf:
  "typed_steps rx h st st' \<Longrightarrow> handlers_typed h \<Longrightarrow> state_conf st \<Longrightarrow> state_conf st'"
proof (induction rule: typed_steps.induct)
  case (Typed_Request st' r st'')
  then show ?case using typed.do_request_keeps [OF Typed_Request(3) typed_ok] by simp
next
  case (Typed_Run st' evs n st'')
  then show ?case using mux_run_conf by blast
qed simp

end

section \<open>Properties\<close>

text \<open>
  C5. The queues of \<open>epoll\<close> are well typed: however requests and rounds follow each other, the reading queue of a
  descriptor holds only operations that read or accept, the writing queue only operations that write or
  connect, and the queue for urgent data nothing; so an event runs only transfers of its own direction.
\<close>

theorem epoll_queues_typed:
  assumes "typed_steps epoll_rx h (epoll_ctor sys) st" and "handlers_typed h"
    and "ep_descs st d = Some e" and "i < length (d_queue e)" and "op \<in> set (d_queue e ! i)"
  shows "length (d_queue e) = 3 \<and> kind_conf i (op_post op) \<and> i \<noteq> 2"
proof -
  have "state_conf st"
    by (rule erx.typed_steps_conf [OF assms(1,2)]) (simp add: state_conf_def epoll_ctor_def)
  then have "desc_conf e" using assms(3) by (rule state_confD)
  then have "length (d_queue e) = 3" "kind_conf i (op_post op)"
    using assms(4,5) by (auto simp: desc_conf_def list_all_iff op_conf_def)
  then show ?thesis by (cases "op_post op") auto
qed

definition demo_connect :: epoll where
  "demo_connect = the (do_request epoll_rx (Req_Connect 7 (operation_connect_base 4)) (epoll_ctor [(5, 0), (0, 0), (0, 0)]))"

lemma demo_connect_value:
  "do_request epoll_rx (Req_Connect 7 (operation_connect_base 4)) (epoll_ctor [(5, 0), (0, 0), (0, 0)]) = Some demo_connect"
  "ep_descs demo_connect 0 = Some \<lparr>d_fd = 5, d_queue = [[], [operation_connect_base 4], []], d_ref = 1\<rparr>"
  by (simp_all add: demo_connect_def mux_connect_def sys_retry_def demo_eval)

theorem epoll_queues_typed_witness:
  "kind_conf 1 (op_post (operation_connect_base 4))"
proof -
  have "typed_steps epoll_rx quiet (epoll_ctor [(5, 0), (0, 0), (0, 0)]) demo_connect"
    by (rule Typed_Request [OF Typed_None _ demo_connect_value(1)]) (simp add: operation_connect_base_def operation_ctor_def)
  moreover have "handlers_typed quiet" by (simp add: handlers_typed_def quiet_def)
  ultimately show ?thesis
    using epoll_queues_typed [OF _ _ demo_connect_value(2), of quiet _ 1 "operation_connect_base 4"] by auto
qed

end
