(* ===== verification/Reactor_Order.thy ===== *)
theory Reactor_Order
  imports Reactor_Frame Epoll "HOL-Library.Sublist"
begin

text \<open>
  The order of transfers. The operations of one direction of a descriptor stand in one line: those
  completed, those in the descriptor's queue, those in tasks that were not run yet, and, when the
  descriptor was deleted, those queued with an error. Every step of a multiplexer keeps the order of the line.
\<close>

section \<open>The line\<close>

fun event_ids :: "event \<Rightarrow> nat list" where
  "event_ids (Completed op) = [op_id op]"
| "event_ids (Called k) = []"

text \<open>The identities of the completed operations, in the order of their handlers' calls.\<close>

definition completed_ids :: "'x mux_scheme \<Rightarrow> nat list" where
  "completed_ids st = concat (map event_ids (rev (ep_log st)))"

fun task_for :: "nat \<Rightarrow> nat \<Rightarrow> task \<Rightarrow> nat list" where
  "task_for d i (Read_Task d' op) = (if d' = d \<and> i = 0 then [op_id op] else [])"
| "task_for d i (Write_Task d' op) = (if d' = d \<and> i = 1 then [op_id op] else [])"
| "task_for d i _ = []"

fun task_runs :: "task \<Rightarrow> nat list" where
  "task_runs (Run_Op op) = [op_id op]"
| "task_runs _ = []"

definition in_line :: "nat \<Rightarrow> nat \<Rightarrow> task list \<Rightarrow> 'x mux_scheme \<Rightarrow> nat list" where
  "in_line d i ts st =
     (case ep_descs st d of
        None \<Rightarrow> concat (map task_runs (ts @ ep_queue st))
      | Some e \<Rightarrow> map op_id (d_queue e ! i) @ concat (map (task_for d i) (ts @ ep_queue st)))"

definition ordered :: "nat \<Rightarrow> nat \<Rightarrow> nat list \<Rightarrow> task list \<Rightarrow> 'x mux_scheme \<Rightarrow> bool" where
  "ordered d i xs ts st \<longleftrightarrow> i < 3 \<and> d < ep_next st \<and> (\<forall>x e. ep_descs st x = Some e \<longrightarrow> x < ep_next st) \<and>
     (\<forall>x e. ep_descs st x = Some e \<longrightarrow> length (d_queue e) = 3) \<and> subseq xs (completed_ids st @ in_line d i ts st)"

lemma orderedD:
  assumes "ordered d i xs ts st"
  shows "i < 3" and "d < ep_next st" and "ep_descs st x = Some e \<Longrightarrow> x < ep_next st"
    and "ep_descs st x = Some e \<Longrightarrow> length (d_queue e) = 3" and "subseq xs (completed_ids st @ in_line d i ts st)"
  using assms by (auto simp: ordered_def)

text \<open>What the line depends on.\<close>

lemma in_line_cong:
  assumes "ep_descs st' d = ep_descs st d" and "ep_queue st' = ep_queue st"
  shows "in_line d i ts st' = in_line d i ts st"
  unfolding in_line_def assms ..

lemma ordered_cong:
  assumes "ordered d i xs ts st" and "ep_next st' = ep_next st" and "ep_descs st' = ep_descs st"
    and "ep_queue st' = ep_queue st" and "ep_log st' = ep_log st"
  shows "ordered d i xs ts st'"
  using assms(1) unfolding ordered_def in_line_def completed_ids_def assms(2-5) .

lemma ordered_core: "ordered d i xs ts st \<Longrightarrow> same_core st st' \<Longrightarrow> ordered d i xs ts st'"
  by (erule ordered_cong) (auto simp: same_core_def)

lemma subseq_more: "subseq xs ys \<Longrightarrow> subseq xs (ys @ zs)"
  by (rule subseq_order.trans) (auto intro: list_emb_append2 subseq_rev_drop_many)

lemma subseq_insert: "subseq xs (ys @ zs) \<Longrightarrow> subseq xs (ys @ y # zs)"
proof -
  have "subseq (ys @ zs) (ys @ y # zs)" by (intro list_emb_append_mono) auto
  then show "subseq xs (ys @ zs) \<Longrightarrow> subseq xs (ys @ y # zs)" by (rule subseq_order.trans [rotated])
qed

lemma ordered_upd:
  assumes o: "ordered d i xs ts st" and e: "ep_descs st x = Some e" and l: "length (d_queue e') = 3"
    and q: "x = d \<Longrightarrow> map op_id (d_queue e' ! i) = map op_id (d_queue e ! i)"
  shows "ordered d i xs ts (st\<lparr>ep_descs := (ep_descs st)(x \<mapsto> e')\<rparr>)"
proof -
  have "in_line d i ts (st\<lparr>ep_descs := (ep_descs st)(x \<mapsto> e')\<rparr>) = in_line d i ts st"
    using e q by (cases "x = d"; cases "ep_descs st d") (auto simp: in_line_def)
  then show ?thesis using o e l by (auto simp: ordered_def completed_ids_def split: if_splits)
qed

lemma ordered_add: "ordered d i xs ts st \<Longrightarrow> ordered d i xs ts (op_add t st)"
  using subseq_more [of xs "completed_ids st @ in_line d i ts st"]
  by (auto simp: ordered_def in_line_def completed_ids_def op_add_def split: option.splits)

lemma ordered_add_ref:
  assumes "ordered d i xs ts st" and "descriptor_add_ref x st = Some st'"
  shows "ordered d i xs ts st'"
proof -
  obtain e where e: "ep_descs st x = Some e" using assms(2) by (auto simp: descriptor_add_ref_def upd_desc_def split: option.splits)
  show ?thesis
    using assms(2) e ordered_upd [OF assms(1) e, of "e\<lparr>d_ref := d_ref e + 1\<rparr>"] orderedD(4) [OF assms(1) e]
    by (simp add: descriptor_add_ref_def upd_desc_def)
qed

lemma ordered_create:
  assumes o: "ordered d i xs ts st" and c: "descriptor_create fd st = (x, st')"
  shows "x \<noteq> d" and "ordered d i xs ts st'" and "ep_descs st' x = Some \<lparr>d_fd = fd, d_queue = [[], [], []], d_ref = 1\<rparr>"
proof -
  show n: "x \<noteq> d" using c orderedD(2) [OF o] by (auto simp: descriptor_create_def)
  have "in_line d i ts st' = in_line d i ts st" using c n by (intro in_line_cong) (auto simp: descriptor_create_def)
  then show "ordered d i xs ts st'"
    using o c by (auto simp: ordered_def completed_ids_def descriptor_create_def less_Suc_eq split: if_splits)
  show "ep_descs st' x = Some \<lparr>d_fd = fd, d_queue = [[], [], []], d_ref = 1\<rparr>" using c by (auto simp: descriptor_create_def)
qed

lemma run_ids: "concat (map task_runs (map Run_Op ops)) = map op_id ops" "concat (map (task_for d i) (map Run_Op ops)) = []"
  by (induction ops) auto

lemma ordered_release_other:
  assumes o: "ordered d i xs ts st" and n: "x \<noteq> d" and r: "descriptor_release x st = Some st'"
  shows "ordered d i xs ts st'"
proof -
  obtain e where e: "ep_descs st x = Some e" using r by (auto simp: descriptor_release_def split: option.splits)
  show ?thesis
  proof (cases "d_ref e = 1")
    case True
    let ?ops = "map abort_op (concat (d_queue e))"
    obtain w where st': "st' = st\<lparr>ep_descs := (ep_descs st)(x := None), ep_queue := ep_queue st @ map Run_Op ?ops,
       ep_ref := ep_ref st - 1 + int (length (concat (d_queue e))), ep_wake := w\<rparr>"
      using release_last [OF e True] r by auto
    have "in_line d i ts st' = in_line d i ts st @ (if ep_descs st d = None then map op_id ?ops else [])"
      using n run_ids(1) [of ?ops] run_ids(2) [of d i ?ops] by (simp add: st' in_line_def del: map_map split: option.splits)
    then show ?thesis
      using o subseq_more [OF orderedD(5) [OF o], of "map op_id ?ops"]
      by (auto simp: ordered_def st' completed_ids_def split: if_splits)
  next
    case False
    then show ?thesis
      using r e ordered_upd [OF o e, of "e\<lparr>d_ref := d_ref e - 1\<rparr>"] orderedD(4) [OF o e] n
      by (simp add: descriptor_release_def)
  qed
qed

text \<open>A known queue of a descriptor, for the duration of a transfer or a handler.\<close>

definition has_queue :: "nat \<Rightarrow> io_op list list \<Rightarrow> 'x mux_scheme \<Rightarrow> bool" where
  "has_queue d q st \<longleftrightarrow> d < ep_next st \<and> (\<exists>e. ep_descs st d = Some e \<and> d_queue e = q)"

lemma has_queue_fields [simp]:
  "has_queue d q (st\<lparr>ep_sys := xs\<rparr>) = has_queue d q st" "has_queue d q (st\<lparr>ep_closed := c\<rparr>) = has_queue d q st"
  "has_queue d q (st\<lparr>ep_wake := w\<rparr>) = has_queue d q st" "has_queue d q (st\<lparr>ep_submitted := ids\<rparr>) = has_queue d q st"
  "has_queue d q (st\<lparr>ep_socks := socks\<rparr>) = has_queue d q st" "has_queue d q (st\<lparr>ep_log := l\<rparr>) = has_queue d q st"
  "has_queue d q (op_add t st) = has_queue d q st"
  by (simp_all add: has_queue_def op_add_def)

lemma has_queue_core: "same_core st st' \<Longrightarrow> has_queue d q st' = has_queue d q st"
  by (simp add: has_queue_def same_core_def)

lemma has_queue_upd:
  "has_queue d q st \<Longrightarrow> x \<noteq> d \<or> d_queue e = q \<Longrightarrow> has_queue d q (st\<lparr>ep_descs := (ep_descs st)(x \<mapsto> e)\<rparr>)"
  by (auto simp: has_queue_def)

lemma has_queue_add_ref: "has_queue d q st \<Longrightarrow> descriptor_add_ref x st = Some st' \<Longrightarrow> has_queue d q st'"
  by (auto simp: descriptor_add_ref_def upd_desc_def has_queue_def split: option.splits)

lemma has_queue_create: "has_queue d q st \<Longrightarrow> descriptor_create fd st = (x, st') \<Longrightarrow> x \<noteq> d \<and> has_queue d q st'"
  by (auto simp: descriptor_create_def has_queue_def)

lemma has_queue_release:
  assumes h: "has_queue d q st" and n: "x \<noteq> d" and r: "descriptor_release x st = Some st'"
  shows "has_queue d q st'"
proof -
  obtain e where e: "ep_descs st x = Some e" using r by (auto simp: descriptor_release_def split: option.splits)
  show ?thesis
    using release_last [OF e] r e h n by (cases "d_ref e = 1") (auto simp: has_queue_def descriptor_release_def)
qed

lemma create_live:
  "descriptor_create fd st = (d, st1) \<Longrightarrow> ep_descs (st1\<lparr>ep_socks := socks\<rparr>) d = Some \<lparr>d_fd = fd, d_queue = [[], [], []], d_ref = 1\<rparr>"
  by (auto simp: descriptor_create_def)

lemma upd_desc_cases:
  assumes "upd_desc d f st = Some st'"
  obtains e where "ep_descs st d = Some e" and "st' = st\<lparr>ep_descs := (ep_descs st)(d \<mapsto> f e)\<rparr>" and "ep_descs st' d = Some (f e)"
  using assms by (auto simp: upd_desc_def split: option.splits)

text \<open>Taking the first operation off a queue and calling its handler leaves the line as it was.\<close>

lemma ordered_pop:
  assumes o: "ordered d i xs ts st" and e: "ep_descs st x = Some e" and q: "d_queue e ! j = op # rest" and j: "j < 3"
    and n: "op_id op' = op_id op"
  shows "ordered d i xs ts (st\<lparr>ep_descs := (ep_descs st)(x \<mapsto> e\<lparr>d_queue := (d_queue e)[j := rest]\<rparr>),
     ep_log := Completed op' # ep_log st\<rparr>)" (is "ordered d i xs ts ?st")
proof -
  have l: "length (d_queue e) = 3" by (rule orderedD(4) [OF o e])
  have c: "completed_ids ?st = completed_ids st @ [op_id op]" using n by (simp add: completed_ids_def)
  have "subseq xs (completed_ids ?st @ in_line d i ts ?st)"
  proof (cases "x = d \<and> j = i")
    case True
    then have "in_line d i ts st = op_id op # in_line d i ts ?st" using e q l j by (simp add: in_line_def)
    then show ?thesis using c orderedD(5) [OF o] by simp
  next
    case False
    then have "in_line d i ts ?st = in_line d i ts st"
      using e by (cases "x = d"; cases "ep_descs st d") (auto simp: in_line_def)
    then show ?thesis using c subseq_insert [OF orderedD(5) [OF o]] by simp
  qed
  then show ?thesis using o l e by (auto simp: ordered_def split: if_splits)
qed

lemma ordered_requeue:
  assumes o: "ordered d i xs ts st" and e: "ep_descs st x = Some e" and q: "d_queue e ! j = op # rest" and j: "j < 3"
    and n: "op_id op' = op_id op"
  shows "ordered d i xs ts (st\<lparr>ep_descs := (ep_descs st)(x \<mapsto> e\<lparr>d_queue := (d_queue e)[j := op' # rest]\<rparr>)\<rparr>)"
  using orderedD(4) [OF o e] q j n by (intro ordered_upd [OF o e]) (auto simp: nth_list_update)

text \<open>The last reference: no task of the descriptor is left, so those who wait go to the end of the line as they stood.\<close>

lemma no_tasks_left: "owners hs ts socks d = 0 \<Longrightarrow> concat (map (task_for d i) ts) = []"
proof (induction ts)
  case (Cons t ts)
  have "owners hs ts socks d = 0" using Cons.prems by (auto simp: owners_def split: if_splits)
  moreover have "task_for d i t = []" using Cons.prems by (cases t) (auto simp: owners_def split: if_splits)
  ultimately show ?case using Cons.IH by simp
qed simp

lemma subseq_nth_concat: "i < length qs \<Longrightarrow> subseq (qs ! i) (concat qs)"
proof (induction qs arbitrary: i)
  case (Cons q qs)
  then show ?case by (cases i) (auto intro: list_emb_append2 subseq_more)
qed simp

lemma ordered_release:
  assumes i: "ep_inv awake (x # hs) ts M st" and o: "ordered d i xs ts st" and r: "descriptor_release x st = Some st'"
  shows "ordered d i xs ts st'"
proof (cases "x = d")
  case False
  then show ?thesis by (rule ordered_release_other [OF o _ r])
next
  case True
  obtain e where e: "ep_descs st x = Some e" using r by (auto simp: descriptor_release_def split: option.splits)
  have l: "i < length (d_queue e)" using orderedD(1) [OF o] orderedD(4) [OF o e] by simp
  show ?thesis
  proof (cases "d_ref e = 1")
    case False
    then show ?thesis
      using r e ordered_upd [OF o e, of "e\<lparr>d_ref := d_ref e - 1\<rparr>"] orderedD(4) [OF o e] by (simp add: descriptor_release_def)
  next
    case last: True
    let ?ops = "map abort_op (concat (d_queue e))"
    obtain w where st': "st' = st\<lparr>ep_descs := (ep_descs st)(x := None), ep_queue := ep_queue st @ map Run_Op ?ops,
       ep_ref := ep_ref st - 1 + int (length (concat (d_queue e))), ep_wake := w\<rparr>"
      using release_last [OF e last] r by auto
    have "owners hs (ts @ ep_queue st) (ep_socks st) d = 0"
      using ep_invD(3) [OF i e] last True by (simp add: desc_ok_def)
    then have no: "concat (map (task_for d i) (ts @ ep_queue st)) = []" by (rule no_tasks_left)
    have "in_line d i ts st = map op_id (d_queue e ! i)" using e True no by (simp add: in_line_def)
    moreover have "in_line d i ts st' = concat (map task_runs (ts @ ep_queue st)) @ map op_id (concat (d_queue e))"
      using True run_ids(1) [of ?ops] by (simp add: st' in_line_def comp_def)
    moreover have "subseq (map op_id (d_queue e ! i)) (map op_id (concat (d_queue e)))"
      by (rule subseq_map [OF subseq_nth_concat [OF l]])
    moreover have "completed_ids st' = completed_ids st" by (simp add: st' completed_ids_def)
    ultimately have "subseq (completed_ids st @ in_line d i ts st) (completed_ids st' @ in_line d i ts st')"
      by (simp add: subseq_append' list_emb_append2)
    then have "subseq xs (completed_ids st' @ in_line d i ts st')"
      by (rule subseq_order.trans [OF orderedD(5) [OF o]])
    then show ?thesis using o True by (auto simp: ordered_def st' split: if_splits)
  qed
qed

text \<open>Taking a task from the front: a transfer goes from the tasks to the end of its queue.\<close>

lemma ordered_push:
  assumes o: "ordered d i xs (t # ts) st" and t: "task_for x j t = [op_id op]" and k: "\<And>y k. task_for y k t \<noteq> [] \<Longrightarrow> y = x \<and> k = j"
    and r: "task_runs t = []" and j: "j < 3" and p: "push_op x j op st = Some st'"
  shows "ordered d i xs ts st'"
proof -
  obtain e where e: "ep_descs st x = Some e" "st' = st\<lparr>ep_descs := (ep_descs st)(x \<mapsto> e\<lparr>d_queue := (d_queue e)[j := d_queue e ! j @ [op]]\<rparr>)\<rparr>"
    using upd_desc_cases [OF p [unfolded push_op_def]] by metis
  have l: "length (d_queue e) = 3" by (rule orderedD(4) [OF o e(1)])
  have "in_line d i ts st' = in_line d i (t # ts) st"
  proof (cases "x = d \<and> j = i")
    case True
    then show ?thesis using e t l j by (simp add: in_line_def)
  next
    case False
    then have "task_for d i t = []" using k [of d i] by auto
    then show ?thesis using False e r by (cases "x = d"; cases "ep_descs st d") (auto simp: in_line_def)
  qed
  then show ?thesis using o l e by (auto simp: ordered_def completed_ids_def split: if_splits)
qed

lemma ordered_drop:
  "ordered d i xs (t # ts) st \<Longrightarrow> task_for d i t = [] \<Longrightarrow> task_runs t = [] \<Longrightarrow> ordered d i xs ts st"
  by (auto simp: ordered_def in_line_def split: option.splits)

text \<open>A task that only runs a handler: the operation moves to the completed ones.\<close>

lemma ordered_run:
  assumes o: "ordered d i xs (Run_Op op # ts) st"
  shows "ordered d i xs ts (st\<lparr>ep_log := Completed op # ep_log st\<rparr>)"
proof (cases "ep_descs st d")
  case None
  then show ?thesis using o by (auto simp: ordered_def in_line_def completed_ids_def)
next
  case (Some e)
  then show ?thesis
    using o subseq_insert [OF orderedD(5) [OF o], of "op_id op"] by (auto simp: ordered_def in_line_def completed_ids_def)
qed

context reactor_laws
begin

lemma bind_core: "rx_bind rx d st = Some (b, en, st') \<Longrightarrow> ep_descs st d = Some e \<Longrightarrow> same_core st st'"
  using bind_law [of st d e] by auto

lemma has_queue_frame: "request_frame rx (has_queue d q) (\<lambda>x. x \<noteq> d) (\<lambda>t. True) (\<lambda>op. True)"
proof unfold_locales
  show "has_queue d q st2" if h: "has_queue d q st" and c: "descriptor_create fd st = (x, st1)"
    and b: "rx_bind rx x (st1\<lparr>ep_socks := socks\<rparr>) = Some (b, en, st2)" for st fd x st1 socks b en st2
    using has_queue_create [OF h c] has_queue_core [OF bind_core [OF b create_live [OF c]]] by (simp add: has_queue_def)
  show "has_queue d q st3" if h: "has_queue d q st" and c: "descriptor_create fd st = (x, st1)"
    and u: "upd_desc x (\<lambda>e. e\<lparr>d_queue := [[], [op], []]\<rparr>) (st1\<lparr>ep_socks := socks\<rparr>) = Some st2"
    and b: "rx_bind rx x st2 = Some (b, en, st3)" for st fd x st1 op socks st2 b en st3
  proof (rule upd_desc_cases [OF u])
    fix e
    assume e: "st2 = st1\<lparr>ep_socks := socks\<rparr>\<lparr>ep_descs := (ep_descs (st1\<lparr>ep_socks := socks\<rparr>))(x \<mapsto> e\<lparr>d_queue := [[], [op], []]\<rparr>)\<rparr>"
      "ep_descs st2 x = Some (e\<lparr>d_queue := [[], [op], []]\<rparr>)"
    have "has_queue d q st2" using has_queue_create [OF h c] unfolding e(1) by (intro has_queue_upd) (auto simp: has_queue_def)
    then show ?thesis using has_queue_core [OF bind_core [OF b e(2)]] by simp
  qed
qed (auto intro: has_queue_add_ref has_queue_release has_queue_upd dest: has_queue_create)

lemma ordered_frame: "request_frame rx (ordered d i xs ts) (\<lambda>x. x \<noteq> d) (\<lambda>t. True) (\<lambda>op. True)"
proof unfold_locales
  show "ordered d i xs ts st2" if h: "ordered d i xs ts st" and c: "descriptor_create fd st = (x, st1)"
    and b: "rx_bind rx x (st1\<lparr>ep_socks := socks\<rparr>) = Some (b, en, st2)" for st fd x st1 socks b en st2
    by (rule ordered_core [OF _ bind_core [OF b create_live [OF c]]])
      (rule ordered_cong [OF ordered_create(2) [OF h c]]; simp)
  show "ordered d i xs ts st3" if h: "ordered d i xs ts st" and c: "descriptor_create fd st = (x, st1)"
    and u: "upd_desc x (\<lambda>e. e\<lparr>d_queue := [[], [op], []]\<rparr>) (st1\<lparr>ep_socks := socks\<rparr>) = Some st2"
    and b: "rx_bind rx x st2 = Some (b, en, st3)" for st fd x st1 op socks st2 b en st3
  proof (rule upd_desc_cases [OF u])
    fix e
    assume e: "ep_descs (st1\<lparr>ep_socks := socks\<rparr>) x = Some e"
      "st2 = st1\<lparr>ep_socks := socks\<rparr>\<lparr>ep_descs := (ep_descs (st1\<lparr>ep_socks := socks\<rparr>))(x \<mapsto> e\<lparr>d_queue := [[], [op], []]\<rparr>)\<rparr>"
      "ep_descs st2 x = Some (e\<lparr>d_queue := [[], [op], []]\<rparr>)"
    have "ordered d i xs ts (st1\<lparr>ep_socks := socks\<rparr>)" by (rule ordered_cong [OF ordered_create(2) [OF h c]]; simp)
    then have "ordered d i xs ts st2" unfolding e(2) using ordered_create(1) [OF h c] e(1) by (intro ordered_upd) auto
    then show ?thesis by (rule ordered_core [OF _ bind_core [OF b e(3)]])
  qed
  show "ordered d i xs ts (st\<lparr>ep_descs := (ep_descs st)(x \<mapsto> e\<lparr>d_queue := [[], [op'], []]\<rparr>)\<rparr>)"
    if "ordered d i xs ts st" "x \<noteq> d" "ep_descs st x = Some e" for st x e op'
    using that by (intro ordered_upd) auto
qed (auto intro: ordered_add ordered_add_ref ordered_release_other elim: ordered_cong dest: ordered_create(1))

lemma do_requests_ordered: "do_requests rx rs st = Some st' \<Longrightarrow> ordered d i xs ts st \<Longrightarrow> ordered d i xs ts st'"
  by (erule request_frame.do_requests_keeps [OF ordered_frame]) (auto simp: list_all_iff)

lemma dispatch_loop_ordered:
  assumes "dispatch_loop rx' h x j st = Some st'" and "rx' = rx" and "j < 3" and "ordered d i xs ts st"
  shows "ordered d i xs ts st'"
  using assms(2-4)
proof (induction rule: dispatch_loop.raw_induct [OF _ assms(1)])
  case (1 loop rx' h x j st st')
  note o = "1.prems"(3)
  obtain e where e: "ep_descs st x = Some e" using 1(2) by (auto split: option.splits)
  show ?case
  proof (cases "d_queue e ! j")
    case Nil
    then show ?thesis using 1(2) e o by simp
  next
    case (Cons op rest)
    obtain fin op' st1 where p: "post_proc rx x op st = Some (fin, op', st1)"
      using 1(2) e Cons "1.prems"(1) by (auto simp: bind_eq_Some_iff)
    have h: "has_queue x (d_queue e) st" using e orderedD(3) [OF o e] by (simp add: has_queue_def)
    have o1: "ordered d i xs ts st1" and n: "op_id op' = op_id op"
      using request_frame.post_proc_keeps [OF ordered_frame p o] by auto
    obtain e1 where e1: "ep_descs st1 x = Some e1" "d_queue e1 = d_queue e"
      using request_frame.post_proc_keeps [OF has_queue_frame p h] by (auto simp: has_queue_def)
    have q1: "d_queue e1 ! j = op # rest" using e1(2) Cons by simp
    show ?thesis
    proof (cases fin)
      case True
      let ?st2 = "st1\<lparr>ep_descs := (ep_descs st1)(x \<mapsto> e1\<lparr>d_queue := (d_queue e1)[j := rest]\<rparr>)\<rparr>"
      obtain st3 where s: "complete rx h op' ?st2 = Some st3" "loop rx h x j st3 = Some st'"
        using 1(2) e Cons p True e1(1) q1 "1.prems"(1) by (auto simp: bind_eq_Some_iff upd_desc_def)
      have "ordered d i xs ts (?st2\<lparr>ep_log := Completed op' # ep_log ?st2\<rparr>)"
        using ordered_pop [OF o1 e1(1) q1 "1.prems"(2) n] by simp
      then have "ordered d i xs ts st3" using s(1) do_requests_ordered by (simp add: complete_def Let_def)
      then show ?thesis using 1(1) [OF s(2) refl "1.prems"(2)] by simp
    next
      case False
      then have "st' = st1\<lparr>ep_descs := (ep_descs st1)(x \<mapsto> e1\<lparr>d_queue := (d_queue e1)[j := op' # rest]\<rparr>)\<rparr>"
        using 1(2) e Cons p e1(1) q1 "1.prems"(1) by (auto simp: upd_desc_def)
      then show ?thesis using ordered_requeue [OF o1 e1(1) q1 "1.prems"(2) n] by simp
    qed
  qed
qed

lemma dispatch_from_ordered:
  "dispatch_from rx h x events is st = Some st' \<Longrightarrow> set is \<subseteq> {..<3} \<Longrightarrow> ordered d i xs ts st \<Longrightarrow> ordered d i xs ts st'"
  by (induction "is" arbitrary: st)
    (auto simp: bind_eq_Some_iff split: if_splits dest: dispatch_loop_ordered [OF _ refl])

lemma dispatch_ordered:
  "descriptor_dispatch rx h x events st = Some st' \<Longrightarrow> ordered d i xs ts st \<Longrightarrow> ordered d i xs ts st'"
  using queues_law by (auto simp: descriptor_dispatch_def bind_eq_Some_iff
      intro: ordered_core settle_core dispatch_from_ordered)

lemma task_step_ordered:
  assumes i: "ep_inv awake (x # hs) ts ({#op_id op#} + M) st" and h: "polite rx h" and j: "j < 3"
    and r: "Option.bind (push_op x j op st) (\<lambda>st. Option.bind (descriptor_dispatch rx h x events st)
      (\<lambda>st. descriptor_release x st)) = Some st'"
    and o: "\<And>st1. push_op x j op st = Some st1 \<Longrightarrow> ordered d k xs ts st1"
  shows "ordered d k xs ts st'"
proof -
  obtain st1 st2 where s: "push_op x j op st = Some st1" "descriptor_dispatch rx h x events st1 = Some st2"
    "descriptor_release x st2 = Some st'"
    using r by (auto simp: bind_eq_Some_iff)
  have i1: "ep_inv awake (x # hs) ts M st1" using push_op_step [OF i j] s(1) by auto
  then have "x \<in> dom (ep_descs st1)" using ep_inv_live by blast
  from dispatch_step [OF i1 this h, of events] s(2) have "ep_inv awake (x # hs) ts M st2" by auto
  from ordered_release [OF this dispatch_ordered [OF s(2) o [OF s(1)]] s(3)] show ?thesis .
qed

lemma op_run_ordered:
  assumes i: "ep_inv awake hs (t # ts) M st" and h: "polite rx h" and r: "op_run rx h t st = Some st'"
    and o: "ordered d k xs (t # ts) st"
  shows "ordered d k xs ts st'"
proof -
  let ?st = "st\<lparr>ep_ref := ep_ref st - 1\<rparr>"
  have o1: "ordered d k xs (t # ts) ?st" by (rule ordered_cong [OF o]; simp)
  note take = take_task [OF i]
  show ?thesis
  proof (cases t)
    case (Run_Op op)
    have "ordered d k xs ts (?st\<lparr>ep_log := Completed op # ep_log ?st\<rparr>)" by (rule ordered_run [OF o1 [unfolded Run_Op]])
    then show ?thesis using r Run_Op do_requests_ordered by (simp add: op_run_def complete_def Let_def)
  next
    case (Call k')
    have "ordered d k xs ts ?st" using ordered_drop [OF o1] Call by simp
    then have "ordered d k xs ts (?st\<lparr>ep_log := Called k' # ep_log ?st\<rparr>)"
      by (auto simp: ordered_def in_line_def completed_ids_def split: option.splits)
    then show ?thesis using r Call do_requests_ordered by (simp add: op_run_def call_function_def Let_def)
  next
    case (Unbind_Task x)
    have o2: "ordered d k xs ts ?st" using ordered_drop [OF o1] Unbind_Task by simp
    have i2: "ep_inv awake (x # hs) ts M ?st" using take Unbind_Task by simp
    obtain e where e: "ep_descs ?st x = Some e" using ep_inv_live [OF i2] by blast
    let ?st2 = "sys_close (d_fd e) (?st\<lparr>ep_descs := (ep_descs ?st)(x \<mapsto> e\<lparr>d_fd := - 1\<rparr>)\<rparr>)"
    have "ordered d k xs ts (?st\<lparr>ep_descs := (ep_descs ?st)(x \<mapsto> e\<lparr>d_fd := - 1\<rparr>)\<rparr>)"
      using orderedD(4) [OF o2 e] by (intro ordered_upd [OF o2 e]) simp_all
    then have o3: "ordered d k xs ts ?st2" unfolding sys_close_def by (rule ordered_cong) simp_all
    have "ep_inv awake (x # hs) ts M (?st\<lparr>ep_descs := (ep_descs ?st)(x \<mapsto> e\<lparr>d_fd := - 1\<rparr>)\<rparr>)"
      using ep_invD(3) [OF i2 e] by (intro ep_inv_upd [OF i2 e]) (auto simp: desc_ok_def desc_ops_def)
    then have i3: "ep_inv awake (x # hs) ts M ?st2" by (simp add: sys_close_def)
    have "descriptor_release x (if d_fd e \<noteq> - 1 then ?st2 else ?st) = Some st'"
      using r Unbind_Task e by (simp add: op_run_def run_unbind_def Let_def)
    then show ?thesis using ordered_release [OF i2 o2] ordered_release [OF i3 o3] by (auto split: if_splits)
  next
    case (Read_Task x op)
    have i1: "ep_inv awake (x # hs) ts ({#op_id op#} + M) ?st" using take Read_Task by simp
    have r1: "Option.bind (push_op x 0 op ?st) (\<lambda>st. Option.bind (descriptor_dispatch rx h x (rx_in rx) st)
        (\<lambda>st. descriptor_release x st)) = Some st'"
      using r Read_Task by (simp add: op_run_def descriptor_dispatch_read_def Let_def)
    have p: "ordered d k xs ts st1" if "push_op x 0 op ?st = Some st1" for st1
      by (rule ordered_push [OF o1 _ _ _ _ that]) (use Read_Task in \<open>auto split: if_splits\<close>)
    show ?thesis by (rule task_step_ordered [OF i1 h _ r1 p]) simp_all
  next
    case (Write_Task x op)
    have i1: "ep_inv awake (x # hs) ts ({#op_id op#} + M) ?st" using take Write_Task by simp
    have r1: "Option.bind (push_op x 1 op ?st) (\<lambda>st. Option.bind (descriptor_dispatch rx h x (rx_out rx) st)
        (\<lambda>st. descriptor_release x st)) = Some st'"
      using r Write_Task by (simp add: op_run_def descriptor_dispatch_write_def Let_def)
    have p: "ordered d k xs ts st1" if "push_op x 1 op ?st = Some st1" for st1
      by (rule ordered_push [OF o1 _ _ _ _ that]) (use Write_Task in \<open>auto split: if_splits\<close>)
    show ?thesis by (rule task_step_ordered [OF i1 h _ r1 p]) simp_all
  qed
qed

lemma op_run_all_ordered:
  assumes "op_run_all rx h ts st = Some st'" and h: "polite rx h" and "ep_inv awake hs ts M st" and "ordered d i xs ts st"
  shows "ordered d i xs [] st'"
  using assms(1,3,4)
proof (induction ts arbitrary: st)
  case (Cons t ts)
  obtain st1 where s: "op_run rx h t st = Some st1" "op_run_all rx h ts st1 = Some st'"
    using Cons.prems(1) by (auto simp: bind_eq_Some_iff)
  have "ep_inv awake hs ts M st1" using op_run_step [OF Cons.prems(2) h] s(1) by auto
  from Cons.IH [OF s(2) this op_run_ordered [OF Cons.prems(2) h s(1) Cons.prems(3)]] show ?case .
qed simp

lemma run_events_ordered:
  "run_events rx h evs exec st = Some (exec', st') \<Longrightarrow> ordered d i xs ts st \<Longrightarrow> ordered d i xs ts st'"
proof (induction evs arbitrary: exec st)
  case (Cons ev evs)
  obtain p f where ev: "ev = (p, f)" by fastforce
  show ?case
  proof (cases p)
    case None
    have "ordered d i xs ts (st\<lparr>ep_wake := ep_wake st - 256\<rparr>)" by (rule ordered_cong [OF Cons.prems(2)]; simp)
    then show ?thesis using Cons.prems(1) Cons.IH [of True "st\<lparr>ep_wake := ep_wake st - 256\<rparr>"] ev None by simp
  next
    case (Some x)
    then obtain st1 where s: "descriptor_dispatch rx h x f st = Some st1" "run_events rx h evs exec st1 = Some (exec', st')"
      using Cons.prems(1) ev by (auto simp: bind_eq_Some_iff)
    from Cons.IH [OF s(2) dispatch_ordered [OF s(1) Cons.prems(2)]] show ?thesis .
  qed
qed simp

lemma mux_run_ordered:
  assumes r: "mux_run rx h evs st = Some (n, st')" and e: "events_live evs st" and h: "polite rx h"
    and i: "ep_inv False hs [] {#} st" and o: "ordered d k xs [] st"
  shows "ordered d k xs [] st'"
proof -
  obtain exec st1 where s: "run_events rx h evs False st = Some (exec, st1)" "ep_inv exec hs [] {#} st1"
    using run_events_step [OF i e h] by blast
  have o1: "ordered d k xs [] st1" by (rule run_events_ordered [OF s(1) o])
  have "ordered d k xs (ep_queue st1) (st1\<lparr>ep_queue := []\<rparr>)"
    using o1 by (auto simp: ordered_def in_line_def completed_ids_def split: option.splits)
  then show ?thesis
    using r s(1) o1 op_run_all_ordered [OF _ h take_queue [OF s(2)]] by (auto simp: mux_run_def Let_def split: if_splits)
qed

lemma mux_steps_ordered:
  "mux_steps rx h st st' \<Longrightarrow> polite rx h \<Longrightarrow> ep_inv False hs [] {#} st \<Longrightarrow> ordered d i xs [] st \<Longrightarrow> ordered d i xs [] st'"
proof (induction rule: mux_steps.induct)
  case (Step_Request st' r st'')
  then show ?case using request_frame.do_request_keeps [OF ordered_frame Step_Request(3)] by simp
next
  case (Step_Run st' evs n st'')
  then show ?case using mux_run_ordered [OF Step_Run(3,2)] mux_steps_inv [OF Step_Run(1)] by blast
qed simp

end

section \<open>Nobody stands in line twice\<close>

lemma mset_completed: "mset (completed_ids st) = log_ops (ep_log st)"
proof -
  have "mset (concat (map event_ids (rev l))) = log_ops l" for l
  proof (induction l)
    case (Cons e l)
    then show ?case by (cases e) (simp_all add: log_ops_def)
  qed simp
  then show ?thesis by (simp add: completed_ids_def)
qed

lemma mset_tasks: "mset (concat (map (task_for d i) ts)) \<subseteq># tasks_ops ts" "mset (concat (map task_runs ts)) \<subseteq># tasks_ops ts"
proof (induction ts)
  case (Cons t ts)
  have t: "mset (task_for d i t) \<subseteq># task_ops t" "mset (task_runs t) \<subseteq># task_ops t" by (cases t; simp)+
  show "mset (concat (map (task_for d i) (t # ts))) \<subseteq># tasks_ops (t # ts)"
    using subset_mset.add_mono [OF t(1) Cons(1)] by simp
  show "mset (concat (map task_runs (t # ts))) \<subseteq># tasks_ops (t # ts)"
    using subset_mset.add_mono [OF t(2) Cons(2)] by simp
qed simp_all

lemma mset_queue: "i < length qs \<Longrightarrow> mset (qs ! i) \<subseteq># mset (concat qs)"
proof (induction qs arbitrary: i)
  case (Cons q qs)
  then show ?case by (cases i) (auto intro: subset_mset.add_increasing)
qed simp

lemma mset_in_line:
  assumes "finite (dom (ep_descs st))" and "\<And>e. ep_descs st d = Some e \<Longrightarrow> i < length (d_queue e)"
  shows "mset (in_line d i [] st) \<subseteq># tasks_ops (ep_queue st) + heap_ops (ep_descs st)"
proof (cases "ep_descs st d")
  case None
  then show ?thesis using mset_tasks(2) [of "ep_queue st"] by (simp add: in_line_def subset_mset.add_increasing2)
next
  case (Some e)
  have "mset (map op_id (d_queue e ! i)) \<subseteq># desc_ops e"
    using image_mset_subseteq_mono [OF mset_queue [OF assms(2) [OF Some]], of op_id] by (simp add: desc_ops_def)
  moreover have "desc_ops e \<subseteq># heap_ops (ep_descs st)"
    using heap_ops_delete [OF assms(1) Some] by (metis mset_subset_eq_add_right)
  ultimately have "mset (map op_id (d_queue e ! i)) \<subseteq># heap_ops (ep_descs st)" by simp
  from subset_mset.add_mono [OF mset_tasks(1) [of d i "ep_queue st"] this] show ?thesis
    using Some by (simp add: in_line_def ac_simps)
qed

lemma distinct_sub:
  assumes "mset xs \<subseteq># mset ys" and "distinct ys"
  shows "distinct xs"
proof -
  obtain zs where "mset ys = mset xs + mset zs" using assms(1) by (metis ex_mset mset_subset_eq_exists_conv)
  then have "distinct (xs @ zs)" using assms(2) mset_eq_imp_distinct_iff [of ys "xs @ zs"] by simp
  then show ?thesis by simp
qed

lemma subseq_set: "subseq xs ys \<Longrightarrow> set xs \<subseteq> set ys"
  by (auto dest: list_emb_set)

lemma subseq_distinct_filter: "subseq xs ys \<Longrightarrow> distinct ys \<Longrightarrow> filter (\<lambda>y. y \<in> set xs) ys = xs"
proof (induction rule: list_emb.induct)
  case (list_emb_Cons xs ys y)
  have "y \<notin> set xs" using list_emb_Cons(3) subseq_set [OF list_emb_Cons(1)] by auto
  then show ?case using list_emb_Cons by simp
next
  case (list_emb_Cons2 x y xs ys)
  have "y \<notin> set ys" "x = y" using list_emb_Cons2 by simp_all
  then have "filter (\<lambda>z. z \<in> set (x # xs)) ys = filter (\<lambda>z. z \<in> set xs) ys" by (intro filter_cong) auto
  then show ?case using list_emb_Cons2 by simp
qed simp

context reactor_laws
begin

lemma line_kept:
  assumes s: "mux_steps rx h st st'" and h: "polite rx h" and inv: "ep_inv False [] [] {#} st"
    and e: "ep_descs st d = Some e" and i: "i < 3" and u: "distinct (ep_submitted st')"
  shows "in_line d i [] st =
     filter (\<lambda>x. x \<in> set (in_line d i [] st)) (completed_ids st') @ filter (\<lambda>x. x \<in> set (in_line d i [] st)) (in_line d i [] st')"
proof -
  have "length (d_queue e') = 3" if "ep_descs st x = Some e'" for x e' using ep_invD(3) [OF inv that] by (simp add: desc_ok_def)
  then have "ordered d i (in_line d i [] st) [] st"
    using ep_invD(2) [OF inv] e i by (auto simp: ordered_def intro: list_emb_append2)
  then have o: "ordered d i (in_line d i [] st) [] st'" by (rule mux_steps_ordered [OF s h inv])
  have inv': "ep_inv False [] [] {#} st'" using mux_steps_inv [OF s h inv] .
  have "mset (in_line d i [] st') \<subseteq># tasks_ops (ep_queue st') + heap_ops (ep_descs st')"
    using orderedD(1) [OF o] orderedD(4) [OF o] by (intro mset_in_line [OF ep_invD(1) [OF inv']]) auto
  from subset_mset.add_left_mono [OF this, of "mset (completed_ids st')"]
  have "mset (completed_ids st' @ in_line d i [] st') \<subseteq># mset (ep_submitted st')"
    using ep_invD(8) [OF inv', symmetric] by (simp add: mset_completed add.commute add.left_commute)
  then have "distinct (completed_ids st' @ in_line d i [] st')"
    by (rule distinct_sub [OF _ u])
  from subseq_distinct_filter [OF orderedD(5) [OF o] this] show ?thesis by simp
qed

end

section \<open>Properties\<close>

text \<open>
  C4. Transfers keep their order: of the operations that stand in one direction of a descriptor - in its
  queue or in tasks that were not run yet - those whose handlers \<open>epoll\<close> has called later are the first ones,
  called in the order in which they were asked for, and the rest still stands in line in the same order, whatever
  requests and rounds come in between, other operations and even the deletion of the descriptor included.
  Nobody overtakes and nobody leaves the line.
\<close>

theorem epoll_transfers_in_order:
  assumes "polite epoll_rx h" and "ep_reach h st" and "mux_steps epoll_rx h st st'"
    and "ep_descs st d = Some e" and "i < 3" and "distinct (ep_submitted st')"
  shows "in_line d i [] st =
     filter (\<lambda>x. x \<in> set (in_line d i [] st)) (completed_ids st') @
     filter (\<lambda>x. x \<in> set (in_line d i [] st)) (in_line d i [] st')"
  by (rule erx.line_kept [OF assms(3,1) reach_inv [OF assms(2,1)] assms(4-6)])

text \<open>Two writes, of which the kernel takes the first.\<close>

definition demo_two :: epoll where
  "demo_two = the (do_request epoll_rx (Req_Write 7 (operation_write_base 2 [buffer_of 200 4])) demo_write)"

definition demo_ran :: epoll where
  "demo_ran = snd (the (epoll_run quiet [(None, 1)] demo_two))"

lemma demo_two_eq: "do_request epoll_rx (Req_Write 7 (operation_write_base 2 [buffer_of 200 4])) demo_write = Some demo_two"
  by (simp add: demo_two_def demo_eval)

lemma demo_two_reach: "ep_reach quiet demo_two"
proof -
  have "valid_request (Req_Write 7 (operation_write_base 2 [buffer_of 200 4])) demo_write"
    by (simp add: demo_eval)
  from Reach_Request [OF demo_reach this demo_two_eq] show ?thesis .
qed

lemma demo_ran_steps: "mux_steps epoll_rx quiet demo_two demo_ran"
proof -
  have v: "events_live [(None, 1)] demo_two" by (simp add: events_live_def)
  obtain n st' where "epoll_run quiet [(None, 1)] demo_two = Some (n, st')"
    using epoll_run_step [OF reach_inv [OF demo_two_reach polite_quiet] v polite_quiet] by blast
  then show ?thesis using Step_Run [OF Step_None v, of epoll_rx quiet] by (simp add: demo_ran_def epoll_run_def)
qed

lemma demo_ran_value:
  "in_line 0 1 [] demo_two = [1, 2] \<and> completed_ids demo_ran = [1] \<and> in_line 0 1 [] demo_ran = [2] \<and> ep_submitted demo_ran = [2, 1]"
  by code_simp

theorem epoll_transfers_in_order_witness:
  "in_line 0 1 [] demo_two = filter (\<lambda>x. x \<in> {1, 2}) (completed_ids demo_ran) @ filter (\<lambda>x. x \<in> {1, 2}) (in_line 0 1 [] demo_ran) \<and>
   completed_ids demo_ran = [1]"
proof -
  have d: "ep_descs demo_two 0 = Some \<lparr>d_fd = 5, d_queue = [[], [], []], d_ref = 3\<rparr>"
    by (simp add: demo_two_def demo_eval)
  show ?thesis
    using epoll_transfers_in_order [OF polite_quiet demo_two_reach demo_ran_steps d, of 1] demo_ran_value by simp
qed

end
