(* ===== verification/Engine.thy ===== *)
theory Engine
  imports Epoll Time_Util
begin

text \<open>
  The engine and its timers: \<open>src/io/engine.cpp\<close>, \<open>src/io/timer.cpp\<close> and \<open>src/io/timer_id.cpp\<close>.
  Timer ids live in an explicit store with their reference counts; an access to a deleted id is
  \<^const>\<open>None\<close>. What \<open>timer_schedule\<close> and \<open>timer_cancel\<close> hand to \<open>execute\<close> are functions in the queue of the
  multiplexer: \<open>en_tasks\<close> is the table of the lambdas made so far, and the entry \<open>k\<close> of the table stands in that queue as
  the function \<open>2 * k\<close> (a function of the application has an odd number). The loop \<open>timer_drain\<close> need not end (a
  repeat time below zero), so it is a partial function.

  The first section has the timers alone; a callback is a parameter, the requests on timers it makes. The second has
  \<open>engine::run\<close> with the multiplexer of the theory \<open>Epoll\<close>: completion handlers, functions and timer callbacks turn both
  to timers and to sockets.
\<close>

section \<open>The program\<close>

record timer_id =
  t_ref :: int
  t_due :: timestamp
  t_repeat :: timespan

datatype timer_task = Schedule_Task nat | Cancel_Task nat

text \<open>
  \<open>en_out\<close> are the functions the current callback gave to \<open>execute\<close>; \<open>en_log\<close>, the callbacks called, and \<open>en_sched\<close>, the
  timers put into the list, are history.
\<close>

record engine =
  en_ids :: "nat \<Rightarrow> timer_id option"
  en_next :: nat
  en_timers :: "nat list"
  en_tasks :: "timer_task list"
  en_log :: "(nat \<times> error_code) list"
  en_out :: "nat list"
  en_sched :: "nat list"

datatype timer_request =
    Timer_Fire nat
  | Timer_Cancel nat
  | Timer_Due nat timestamp
  | Timer_Repeat nat timespan
  | Timer_New
  | Timer_Delete nat

type_synonym callbacks = "nat \<Rightarrow> error_code \<Rightarrow> engine \<Rightarrow> timer_request list"

definition engine_ctor :: engine where
  "engine_ctor = \<lparr>en_ids = Map.empty, en_next = 0, en_timers = [], en_tasks = [], en_log = [], en_out = [], en_sched = []\<rparr>"

definition upd_id :: "nat \<Rightarrow> (timer_id \<Rightarrow> timer_id) \<Rightarrow> engine \<Rightarrow> engine option" where
  "upd_id i f en =
     (case en_ids en i of None \<Rightarrow> None | Some t \<Rightarrow> Some (en\<lparr>en_ids := (en_ids en)(i \<mapsto> f t)\<rparr>))"

definition id_add_ref :: "nat \<Rightarrow> engine \<Rightarrow> engine option" where
  "id_add_ref i en = upd_id i (\<lambda>t. t\<lparr>t_ref := t_ref t + 1\<rparr>) en"

definition id_release :: "nat \<Rightarrow> engine \<Rightarrow> engine option" where
  "id_release i en =
     (case en_ids en i of
        None \<Rightarrow> None
      | Some t \<Rightarrow>
          if t_ref t = 1 then Some (en\<lparr>en_ids := (en_ids en)(i := None)\<rparr>)
          else Some (en\<lparr>en_ids := (en_ids en)(i \<mapsto> t\<lparr>t_ref := t_ref t - 1\<rparr>)\<rparr>))"

definition due_of :: "engine \<Rightarrow> nat \<Rightarrow> int" where
  "due_of en i = (case en_ids en i of None \<Rightarrow> 0 | Some t \<Rightarrow> stamp_tick (t_due t))"

text \<open>\<open>std::upper_bound\<close> on the sorted list, then \<open>insert\<close>: behind the timers due no later.\<close>

definition timer_insert :: "nat \<Rightarrow> engine \<Rightarrow> engine" where
  "timer_insert i en =
     en\<lparr>en_timers := takeWhile (\<lambda>j. \<not> due_of en i < due_of en j) (en_timers en) @ [i] @
                      dropWhile (\<lambda>j. \<not> due_of en i < due_of en j) (en_timers en),
       en_sched := i # en_sched en\<rparr>"

text \<open>\<open>execute\<close> with one of the two lambdas.\<close>

definition engine_execute :: "timer_task \<Rightarrow> engine \<Rightarrow> engine" where
  "engine_execute t en = en\<lparr>en_tasks := en_tasks en @ [t], en_out := en_out en @ [length (en_tasks en)]\<rparr>"

definition timer_schedule :: "bool \<Rightarrow> nat \<Rightarrow> engine \<Rightarrow> engine option" where
  "timer_schedule in_run_loop i en =
     map_option (\<lambda>en. if in_run_loop then timer_insert i en else engine_execute (Schedule_Task i) en) (id_add_ref i en)"

definition timer_cancel :: "nat \<Rightarrow> engine \<Rightarrow> engine option" where
  "timer_cancel i en =
     map_option (engine_execute (Cancel_Task i)) (id_add_ref i en)"

text \<open>The class \<open>timer\<close>: it owns one reference to its id.\<close>

definition timer_ctor :: "engine \<Rightarrow> nat \<times> engine" where
  "timer_ctor en =
     (en_next en,
      en\<lparr>en_ids := (en_ids en)(en_next en \<mapsto> \<lparr>t_ref = 1, t_due = mk_stamp 0, t_repeat = span_ctor\<rparr>),
         en_next := en_next en + 1\<rparr>)"

definition timer_dtor :: "nat \<Rightarrow> engine \<Rightarrow> engine option" where
  "timer_dtor i en = id_release i en"

definition timer_due_time :: "nat \<Rightarrow> timestamp \<Rightarrow> engine \<Rightarrow> engine option" where
  "timer_due_time i ts en = upd_id i (\<lambda>t. t\<lparr>t_due := ts\<rparr>) en"

definition timer_due_span :: "nat \<Rightarrow> timestamp \<Rightarrow> timespan \<Rightarrow> engine \<Rightarrow> engine option" where
  "timer_due_span i now d en = timer_due_time i (stamp_add now d) en"

definition timer_repeat :: "nat \<Rightarrow> timespan \<Rightarrow> engine \<Rightarrow> engine option" where
  "timer_repeat i d en = upd_id i (\<lambda>t. t\<lparr>t_repeat := d\<rparr>) en"

definition timer_fire :: "bool \<Rightarrow> nat \<Rightarrow> engine \<Rightarrow> engine option" where
  "timer_fire in_run_loop i en = timer_schedule in_run_loop i en"

definition timer_cancel_request :: "nat \<Rightarrow> engine \<Rightarrow> engine option" where
  "timer_cancel_request i en =
     (case en_ids en i of
        None \<Rightarrow> None
      | Some t \<Rightarrow> if t_ref t \<noteq> 1 then timer_cancel i en else Some en)"

fun timer_do :: "timer_request \<Rightarrow> engine \<Rightarrow> engine option" where
  "timer_do (Timer_Fire i) en = timer_fire True i en"
| "timer_do (Timer_Cancel i) en = timer_cancel_request i en"
| "timer_do (Timer_Due i ts) en = timer_due_time i ts en"
| "timer_do (Timer_Repeat i d) en = timer_repeat i d en"
| "timer_do Timer_New en = Some (snd (timer_ctor en))"
| "timer_do (Timer_Delete i) en = timer_dtor i en"

fun timer_do_all :: "timer_request list \<Rightarrow> engine \<Rightarrow> engine option" where
  "timer_do_all [] en = Some en"
| "timer_do_all (r # rs) en = Option.bind (timer_do r en) (timer_do_all rs)"

definition call_back :: "callbacks \<Rightarrow> nat \<Rightarrow> error_code \<Rightarrow> engine \<Rightarrow> engine option" where
  "call_back cb i ec en =
     (let en = en\<lparr>en_log := (i, ec) # en_log en\<rparr> in timer_do_all (cb i ec en) en)"

fun timer_task_run :: "callbacks \<Rightarrow> timer_task \<Rightarrow> engine \<Rightarrow> engine option" where
  "timer_task_run cb (Schedule_Task i) en =
     Option.bind (timer_schedule True i en) (\<lambda>en. id_release i en)"
| "timer_task_run cb (Cancel_Task i) en =
     (if i \<in> set (en_timers en)
      then Option.bind (call_back cb i error_aborted (en\<lparr>en_timers := remove1 i (en_timers en)\<rparr>)) (\<lambda>en.
           Option.bind (id_release i en) (\<lambda>en. id_release i en))
      else id_release i en)"

text \<open>One turn of the loop of \<open>timer_drain\<close>, for the first timer, and the loop.\<close>

definition drain_one :: "callbacks \<Rightarrow> nat \<Rightarrow> engine \<Rightarrow> engine option" where
  "drain_one cb i en =
     Option.bind (call_back cb i error_code_ctor (en\<lparr>en_timers := tl (en_timers en), en_out := []\<rparr>)) (\<lambda>en.
     case en_ids en i of
       None \<Rightarrow> None
     | Some t \<Rightarrow>
         Option.bind
           (if total_milliseconds (t_repeat t) \<noteq> 0
            then Option.bind (upd_id i (\<lambda>t. t\<lparr>t_due := stamp_add_assign (t_due t) (t_repeat t)\<rparr>) en)
                   (\<lambda>en. timer_schedule True i en)
            else Some en)
           (\<lambda>en. id_release i en))"

partial_function (option) drain_loop :: "callbacks \<Rightarrow> timestamp \<Rightarrow> engine \<Rightarrow> engine option" where
  [code]: "drain_loop cb ts en =
     (case en_timers en of
        [] \<Rightarrow> Some en
      | i # _ \<Rightarrow>
          (case en_ids en i of
             None \<Rightarrow> None
           | Some t \<Rightarrow>
               if stamp_le (t_due t) ts
               then Option.bind (drain_one cb i en) (\<lambda>en. drain_loop cb ts en)
               else Some en))"

definition timer_drain :: "callbacks \<Rightarrow> timestamp \<Rightarrow> engine \<Rightarrow> engine option" where
  "timer_drain cb now en = drain_loop cb now en"

definition next_wake_up_time :: "timestamp \<Rightarrow> engine \<Rightarrow> timespan option" where
  "next_wake_up_time now en =
     (case en_timers en of
        [] \<Rightarrow> Some (seconds 1)
      | i # _ \<Rightarrow>
          map_option (\<lambda>t. let due = t_due t in if stamp_le due now then seconds 0 else stamp_diff due now)
            (en_ids en i))"

text \<open>What \<open>epoll_wait\<close> gets of it, a \<open>static_cast\<close> to \<open>int\<close>; a negative number waits without an end.\<close>

definition wait_milliseconds :: "timespan \<Rightarrow> int" where
  "wait_milliseconds ts = to_i32 (total_milliseconds ts)"

section \<open>The loop of the engine\<close>

text \<open>
  What runs in the loop: the completion of an operation or a queued function, and a timer's callback. A client is what
  these do to timers, in the state of the engine, and what they ask of sockets and of \<open>execute\<close>, before and after that.
  \<open>cl_timers\<close> sees the history of the multiplexer up to the call it is about; as that grows with every call, the
  function can answer each call differently.
\<close>

datatype user_event = Mux_Event event | Fired nat

record client =
  cl_callback :: callbacks
  cl_timers :: "event list \<Rightarrow> engine \<Rightarrow> timer_request list"
  cl_before :: "user_event \<Rightarrow> engine \<Rightarrow> epoll \<Rightarrow> request list"
  cl_after :: "user_event \<Rightarrow> engine \<Rightarrow> epoll \<Rightarrow> request list"

fun user_request :: "request \<Rightarrow> request" where
  "user_request (Req_Execute k) = Req_Execute (2 * k + 1)"
| "user_request r = r"

definition asks :: "client \<Rightarrow> user_event \<Rightarrow> engine \<Rightarrow> epoll \<Rightarrow> request list" where
  "asks cl u en st = map user_request (cl_before cl u en st) @ map (\<lambda>k. Req_Execute (2 * k)) (en_out en) @
     map user_request (cl_after cl u en st)"

text \<open>The part of the engine in a call from the multiplexer: a lambda of the timers, or a handler or function of the client.\<close>

fun on_call :: "client \<Rightarrow> event list \<Rightarrow> engine \<Rightarrow> engine option" where
  "on_call cl [] en = Some en"
| "on_call cl (ev # evs) en =
     (let en = en\<lparr>en_out := []\<rparr>
      in case ev of
           Completed op \<Rightarrow> timer_do_all (cl_timers cl (ev # evs) en) en
         | Called k \<Rightarrow>
             if odd k then timer_do_all (cl_timers cl (ev # evs) en) en
             else if k div 2 < length (en_tasks en) then timer_task_run (cl_callback cl) (en_tasks en ! (k div 2)) en
             else None)"

text \<open>
  The engine during a round of the multiplexer that began in \<open>en\<close>, when \<open>n\<close> calls had been made: each call since has had
  its effect. The handlers the multiplexer calls in this round.
\<close>

fun engine_view :: "client \<Rightarrow> engine \<Rightarrow> nat \<Rightarrow> event list \<Rightarrow> engine option" where
  "engine_view cl en n [] = Some en"
| "engine_view cl en n (ev # evs) =
     (if length evs < n then Some en else Option.bind (engine_view cl en n evs) (on_call cl (ev # evs)))"

definition loop_handlers :: "client \<Rightarrow> engine \<Rightarrow> nat \<Rightarrow> unit handlers" where
  "loop_handlers cl en n ev st =
     (case engine_view cl en n (ep_log st) of None \<Rightarrow> [] | Some en \<Rightarrow> asks cl (Mux_Event ev) en st)"

definition mux_round :: "client \<Rightarrow> (nat option \<times> nat) list \<Rightarrow> epoll \<Rightarrow> engine \<Rightarrow> (epoll \<times> engine) option" where
  "mux_round cl evs ep en =
     (let n = length (ep_log ep)
      in Option.bind (epoll_run (loop_handlers cl en n) evs ep) (\<lambda>(_, ep).
         map_option (\<lambda>en. (ep, en)) (engine_view cl en n (ep_log ep))))"

text \<open>\<open>timer_drain\<close>, with what the callbacks ask of the multiplexer.\<close>

partial_function (option) loop_drain :: "client \<Rightarrow> timestamp \<Rightarrow> epoll \<Rightarrow> engine \<Rightarrow> (epoll \<times> engine) option" where
  [code]: "loop_drain cl ts ep en =
     (case en_timers en of
        [] \<Rightarrow> Some (ep, en)
      | i # _ \<Rightarrow>
          (case en_ids en i of
             None \<Rightarrow> None
           | Some t \<Rightarrow>
               if stamp_le (t_due t) ts
               then Option.bind (drain_one (cl_callback cl) i en) (\<lambda>en.
                    Option.bind (do_requests epoll_rx (asks cl (Fired i) en ep) ep) (\<lambda>ep. loop_drain cl ts ep en))
               else Some (ep, en)))"

text \<open>
  \<open>engine::run\<close> with what each turn gets from outside: the clock before the wait, the events the wait gives after so
  many milliseconds in that state, and the clock in \<open>timer_drain\<close>. The first component says whether the loop ended.
\<close>

type_synonym turn = "timestamp \<times> (int \<Rightarrow> epoll \<Rightarrow> (nat option \<times> nat) list) \<times> timestamp"

definition engine_turn :: "client \<Rightarrow> turn \<Rightarrow> epoll \<Rightarrow> engine \<Rightarrow> (epoll \<times> engine) option" where
  "engine_turn cl t ep en =
     (case t of (before, evs, now) \<Rightarrow>
        Option.bind (next_wake_up_time before en) (\<lambda>d.
        Option.bind (mux_round cl (evs (wait_milliseconds d) ep) ep en) (\<lambda>(ep, en). loop_drain cl now ep en)))"

fun engine_run :: "client \<Rightarrow> turn list \<Rightarrow> epoll \<Rightarrow> engine \<Rightarrow> (bool \<times> epoll \<times> engine) option" where
  "engine_run cl rounds ep en =
     (if ep_ref ep = 0 \<and> en_timers en = [] then Some (True, ep, en)
      else case rounds of
             [] \<Rightarrow> Some (False, ep, en)
           | t # rs \<Rightarrow> Option.bind (engine_turn cl t ep en) (\<lambda>(ep, en). engine_run cl rs ep en))"

declare engine_run.simps [simp del]

text \<open>A request on timers from outside the loop, from any thread.\<close>

fun timer_do_outside :: "timer_request \<Rightarrow> engine \<Rightarrow> engine option" where
  "timer_do_outside (Timer_Fire i) en = timer_fire False i en"
| "timer_do_outside r en = timer_do r en"

section \<open>Insertion\<close>

lemma timer_insert_set: "mset (en_timers (timer_insert i en)) = add_mset i (mset (en_timers en))"
proof -
  let ?P = "\<lambda>j. \<not> due_of en i < due_of en j"
  have "mset (en_timers en) = mset (takeWhile ?P (en_timers en)) + mset (dropWhile ?P (en_timers en))"
    by (metis mset_append takeWhile_dropWhile_id)
  then show ?thesis by (simp add: timer_insert_def)
qed

lemma timer_insert_sorted:
  assumes "sorted (map (due_of en) (en_timers en))"
  shows "sorted (map (due_of en) (en_timers (timer_insert i en)))"
proof -
  let ?P = "\<lambda>j. \<not> due_of en i < due_of en j"
  let ?xs = "takeWhile ?P (en_timers en)" and ?ys = "dropWhile ?P (en_timers en)"
  have "sorted (map (due_of en) ?xs @ map (due_of en) ?ys)"
    using assms by (simp only: map_append [symmetric] takeWhile_dropWhile_id)
  then have split: "sorted (map (due_of en) ?xs)" "sorted (map (due_of en) ?ys)"
    "\<forall>x\<in>set ?xs. \<forall>y\<in>set ?ys. due_of en x \<le> due_of en y"
    by (auto simp only: sorted_append set_map)
  have "\<forall>j\<in>set ?xs. due_of en j \<le> due_of en i" by (auto dest: set_takeWhileD)
  moreover have "\<forall>j\<in>set ?ys. due_of en i \<le> due_of en j"
  proof
    fix j assume j: "j \<in> set ?ys"
    then obtain y ys where y: "?ys = y # ys" by (cases ?ys) auto
    then have "due_of en i < due_of en y" using hd_dropWhile [of ?P "en_timers en"] by simp
    then show "due_of en i \<le> due_of en j" using j y split(2) by auto
  qed
  ultimately show ?thesis
    using split unfolding timer_insert_def by (simp add: sorted_append)
qed

section \<open>Draining\<close>

text \<open>
  Callbacks that make no request on timers. The times are in range: a repeat time that counts is
  positive, and adding it to a time that is due does not overflow.
\<close>

definition quiet_cb :: callbacks where
  "quiet_cb i ec en = []"

definition repeating :: "engine \<Rightarrow> nat \<Rightarrow> bool" where
  "repeating en i \<longleftrightarrow> (\<exists>t. en_ids en i = Some t \<and> total_milliseconds (t_repeat t) \<noteq> 0)"

definition id_ok :: "int \<Rightarrow> timer_id \<Rightarrow> bool" where
  "id_ok now t \<longleftrightarrow> 1 \<le> t_ref t \<and> - (2 ^ 63) \<le> stamp_tick (t_due t) \<and>
     (total_milliseconds (t_repeat t) \<noteq> 0 \<longrightarrow>
        0 < span_delta (t_repeat t) \<and> now + span_delta (t_repeat t) < 2 ^ 63)"

definition timers_ok :: "int \<Rightarrow> engine \<Rightarrow> bool" where
  "timers_ok now en \<longleftrightarrow> distinct (en_timers en) \<and> sorted (map (due_of en) (en_timers en)) \<and>
     (\<forall>i\<in>set (en_timers en). \<exists>t. en_ids en i = Some t \<and> id_ok now t)"

definition overdue :: "int \<Rightarrow> engine \<Rightarrow> nat" where
  "overdue now en = sum_list (map (\<lambda>i. nat (now + 1 - due_of en i)) (en_timers en))"

lemma call_back_quiet: "call_back quiet_cb i ec en = Some (en\<lparr>en_log := (i, ec) # en_log en\<rparr>)"
  by (simp add: call_back_def quiet_cb_def)

lemma due_of_other: "en_ids en' j = en_ids en j \<Longrightarrow> due_of en' j = due_of en j"
  by (simp add: due_of_def)

lemma drain_once:
  assumes "en_timers en = i # is" and "en_ids en i = Some t" and "total_milliseconds (t_repeat t) = 0"
  shows "\<exists>m. (\<forall>j. j \<noteq> i \<longrightarrow> m j = en_ids en j) \<and>
    drain_one quiet_cb i en = Some (en\<lparr>en_timers := is, en_out := [], en_log := (i, error_code_ctor) # en_log en, en_ids := m\<rparr>)"
proof (cases "t_ref t = 1")
  case True
  then show ?thesis
    using assms by (intro exI [of _ "(en_ids en)(i := None)"])
      (simp add: drain_one_def call_back_quiet id_release_def)
next
  case False
  then show ?thesis
    using assms by (intro exI [of _ "(en_ids en)(i \<mapsto> t\<lparr>t_ref := t_ref t - 1\<rparr>)"])
      (simp add: drain_one_def call_back_quiet id_release_def)
qed

lemma drain_repeat:
  assumes "en_timers en = i # is" and "en_ids en i = Some t" and "total_milliseconds (t_repeat t) \<noteq> 0"
    and "1 \<le> t_ref t"
  shows "drain_one quiet_cb i en =
    Some (timer_insert i (en\<lparr>en_timers := is, en_out := [], en_log := (i, error_code_ctor) # en_log en,
      en_ids := (en_ids en)(i \<mapsto> t\<lparr>t_due := stamp_add_assign (t_due t) (t_repeat t)\<rparr>)\<rparr>))"
  using assms
  by (simp add: drain_one_def call_back_quiet upd_id_def timer_schedule_def id_add_ref_def id_release_def
      timer_insert_def due_of_def cong: if_cong)

text \<open>One turn fires the first timer, keeps the order, and reduces what is overdue.\<close>

lemma drain_one_step:
  assumes ok: "timers_ok now en" and ts: "en_timers en = i # is" and due: "due_of en i \<le> now"
  shows "\<exists>en'. drain_one quiet_cb i en = Some en' \<and> timers_ok now en' \<and> overdue now en' < overdue now en \<and>
     en_log en' = (i, error_code_ctor) # en_log en \<and> (\<forall>j. j \<noteq> i \<longrightarrow> en_ids en' j = en_ids en j) \<and>
     set (en_timers en') = (if repeating en i then set (en_timers en) else set is) \<and>
     (repeating en i \<longrightarrow> repeating en' i)"
proof -
  obtain t where t: "en_ids en i = Some t" "id_ok now t" using ok ts by (auto simp: timers_ok_def)
  have dist: "distinct (i # is)" "sorted (map (due_of en) (i # is))" using ok ts by (auto simp: timers_ok_def)
  have od: "overdue now en = nat (now + 1 - due_of en i) + sum_list (map (\<lambda>j. nat (now + 1 - due_of en j)) is)"
    by (simp add: overdue_def ts)
  show ?thesis
  proof (cases "total_milliseconds (t_repeat t) = 0")
    case True
    obtain m where m: "\<forall>j. j \<noteq> i \<longrightarrow> m j = en_ids en j"
      "drain_one quiet_cb i en = Some (en\<lparr>en_timers := is, en_out := [], en_log := (i, error_code_ctor) # en_log en, en_ids := m\<rparr>)"
      using drain_once [OF ts t(1) True] by blast
    let ?en = "en\<lparr>en_timers := is, en_out := [], en_log := (i, error_code_ctor) # en_log en, en_ids := m\<rparr>"
    have same: "due_of ?en j = due_of en j" if "j \<in> set is" for j
      using that dist(1) m(1) by (auto intro!: due_of_other)
    then have eq: "map (due_of ?en) is = map (due_of en) is"
      and "overdue now ?en = sum_list (map (\<lambda>j. nat (now + 1 - due_of en j)) is)"
      by (auto simp: overdue_def intro!: arg_cong [where f = sum_list])
    moreover have "sorted (map (due_of ?en) is)" unfolding eq using dist(2) by simp
    then have "timers_ok now ?en" using ok ts m(1) dist(1) by (auto simp: timers_ok_def)
    ultimately show ?thesis
      using m od due True t(1) by (auto simp: repeating_def)
  next
    case False
    let ?t = "t\<lparr>t_due := stamp_add_assign (t_due t) (t_repeat t)\<rparr>"
    let ?en1 = "en\<lparr>en_timers := is, en_out := [], en_log := (i, error_code_ctor) # en_log en, en_ids := (en_ids en)(i \<mapsto> ?t)\<rparr>"
    let ?en = "timer_insert i ?en1"
    have d: "drain_one quiet_cb i en = Some ?en"
      using drain_repeat [OF ts t(1) False] t(2) by (simp add: id_ok_def)
    have ids: "en_ids ?en = (en_ids en)(i \<mapsto> ?t)" "en_log ?en = (i, error_code_ctor) # en_log en"
      by (simp_all add: timer_insert_def)
    have tick: "stamp_tick (t_due ?t) = due_of en i + span_delta (t_repeat t)" and pos: "0 < span_delta (t_repeat t)"
      using t False due
      by (auto simp: stamp_add_assign_def total_microseconds_def id_ok_def due_of_def intro!: to_i64_id)
    have same: "due_of ?en j = due_of en j" if "j \<in> set is" for j
      using that dist(1) ids by (auto intro!: due_of_other)
    have dues: "due_of ?en = due_of ?en1" by (simp add: due_of_def timer_insert_def fun_eq_iff)
    have eq: "map (due_of ?en1) is = map (due_of en) is" using same dues by auto
    have ms: "mset (en_timers ?en) = add_mset i (mset is)" using timer_insert_set [of i ?en1] by simp
    have st: "set (en_timers ?en) = insert i (set is)" using ms by (metis set_mset_add_mset_insert set_mset_mset)
    have "sorted (map (due_of ?en) (en_timers ?en))"
    proof -
      have "sorted (map (due_of ?en1) is)" unfolding eq using dist(2) by simp
      then show ?thesis unfolding dues by (intro timer_insert_sorted) simp
    qed
    moreover have "distinct (en_timers ?en)"
      using ms dist(1) by (metis mset.simps(2) mset_eq_imp_distinct_iff)
    moreover have "id_ok now ?t" using t(2) tick pos by (auto simp: id_ok_def due_of_def t(1))
    ultimately have "timers_ok now ?en"
      using ok ts dist(1) st ids by (auto simp: timers_ok_def)
    moreover have "overdue now ?en < overdue now en"
    proof -
      have "overdue now ?en = sum_mset (image_mset (\<lambda>j. nat (now + 1 - due_of ?en j)) (mset (en_timers ?en)))"
        by (simp add: overdue_def sum_mset_sum_list [symmetric])
      also have "\<dots> = nat (now + 1 - due_of ?en i) + sum_list (map (\<lambda>j. nat (now + 1 - due_of ?en j)) is)"
        unfolding ms by (simp add: sum_mset_sum_list [symmetric])
      also have "map (\<lambda>j. nat (now + 1 - due_of ?en j)) is = map (\<lambda>j. nat (now + 1 - due_of en j)) is"
        using same by simp
      also have "due_of ?en i = due_of en i + span_delta (t_repeat t)" using ids tick by (simp add: due_of_def)
      finally show ?thesis using od pos due by linarith
    qed
    ultimately show ?thesis
      using d ids st ts t(1) False by (auto simp: repeating_def)
  qed
qed

lemma drain_loop_ends:
  assumes "timers_ok now en" and "stamp_tick ts = now"
  shows "\<exists>en'. drain_loop quiet_cb ts en = Some en' \<and> timers_ok now en' \<and>
     (\<forall>i\<in>set (en_timers en'). now < due_of en' i) \<and>
     set (en_timers en') = {i \<in> set (en_timers en). now < due_of en i \<or> repeating en i} \<and>
     (\<forall>i\<in>set (en_timers en). due_of en i \<le> now \<longrightarrow> (i, error_code_ctor) \<in> set (en_log en')) \<and>
     set (en_log en) \<subseteq> set (en_log en') \<and> (\<forall>i. now < due_of en i \<longrightarrow> en_ids en' i = en_ids en i)"
  using assms(1)
proof (induction "overdue now en" arbitrary: en rule: less_induct)
  case less
  show ?case
  proof (cases "en_timers en")
    case Nil
    then show ?thesis using less.prems by (subst drain_loop.simps) simp
  next
    case (Cons i "is")
    obtain t where t: "en_ids en i = Some t" using less.prems Cons by (auto simp: timers_ok_def)
    have first: "\<forall>j\<in>set (en_timers en). due_of en i \<le> due_of en j"
      using less.prems Cons by (auto simp: timers_ok_def)
    show ?thesis
    proof (cases "due_of en i \<le> now")
      case False
      then have "drain_loop quiet_cb ts en = Some en"
        using Cons t assms(2) by (subst drain_loop.simps) (simp add: stamp_le_def due_of_def)
      then show ?thesis using False first less.prems by fastforce
    next
      case True
      obtain en1 where e: "drain_one quiet_cb i en = Some en1" "timers_ok now en1" "overdue now en1 < overdue now en"
        "en_log en1 = (i, error_code_ctor) # en_log en" "\<forall>j. j \<noteq> i \<longrightarrow> en_ids en1 j = en_ids en j"
        "set (en_timers en1) = (if repeating en i then set (en_timers en) else set is)"
        "repeating en i \<longrightarrow> repeating en1 i"
        using drain_one_step [OF less.prems Cons True] by blast
      obtain en2 where e2: "drain_loop quiet_cb ts en1 = Some en2" "timers_ok now en2"
        "\<forall>i\<in>set (en_timers en2). now < due_of en2 i"
        "set (en_timers en2) = {i \<in> set (en_timers en1). now < due_of en1 i \<or> repeating en1 i}"
        "\<forall>i\<in>set (en_timers en1). due_of en1 i \<le> now \<longrightarrow> (i, error_code_ctor) \<in> set (en_log en2)"
        "set (en_log en1) \<subseteq> set (en_log en2)" "\<forall>i. now < due_of en1 i \<longrightarrow> en_ids en2 i = en_ids en1 i"
        using less.hyps [OF e(3,2)] by blast
      have loop: "drain_loop quiet_cb ts en = Some en2"
        using Cons t assms(2) True e(1) e2(1) by (subst drain_loop.simps) (simp add: stamp_le_def due_of_def)
      have other: "due_of en1 j = due_of en j" "repeating en1 j = repeating en j" if "j \<noteq> i" for j
        using that e(5) by (simp_all add: due_of_def repeating_def)
      have notin: "i \<notin> set is" using less.prems Cons by (simp add: timers_ok_def)
      have "set (en_timers en2) = {j \<in> set (en_timers en). now < due_of en j \<or> repeating en j}"
      proof (rule set_eqI)
        fix j
        show "j \<in> set (en_timers en2) \<longleftrightarrow> j \<in> {j \<in> set (en_timers en). now < due_of en j \<or> repeating en j}"
          using e2(4) e(6,7) other [of j] notin True Cons by (cases "j = i") auto
      qed
      moreover have "\<forall>j\<in>set (en_timers en). due_of en j \<le> now \<longrightarrow> (j, error_code_ctor) \<in> set (en_log en2)"
      proof (intro ballI impI)
        fix j assume "j \<in> set (en_timers en)" "due_of en j \<le> now"
        then show "(j, error_code_ctor) \<in> set (en_log en2)"
          using e2(5,6) e(4,6) other [of j] Cons by (cases "j = i") auto
      qed
      moreover have "\<forall>j. now < due_of en j \<longrightarrow> en_ids en2 j = en_ids en j"
        using e2(7) e(5) other True by (metis not_less)
      moreover have "set (en_log en) \<subseteq> set (en_log en2)" using e2(6) e(4) by auto
      ultimately show ?thesis using loop e2(2,3) by blast
    qed
  qed
qed

section \<open>The invariant of the loop\<close>

text \<open>Every insertion into the list is still there or was followed by a call.\<close>

definition fired_once :: "engine \<Rightarrow> bool" where
  "fired_once en \<longleftrightarrow> mset (en_sched en) = mset (en_timers en) + mset (map fst (en_log en))"

lemma fired_once_insert: "fired_once en \<Longrightarrow> fired_once (timer_insert i en)"
  using timer_insert_set [of i en] by (simp add: fired_once_def timer_insert_def)

lemma fired_once_parts [simp]:
  "fired_once (en\<lparr>en_ids := m\<rparr>) = fired_once en" "fired_once (en\<lparr>en_out := o'\<rparr>) = fired_once en"
  "fired_once (engine_execute t en) = fired_once en" "fired_once (en\<lparr>en_next := n\<rparr>) = fired_once en"
  by (simp_all add: fired_once_def engine_execute_def)

lemma fired_once_upd: "upd_id i f en = Some en' \<Longrightarrow> fired_once en \<Longrightarrow> fired_once en'"
  by (auto simp: upd_id_def split: option.splits)

lemma fired_once_release: "id_release i en = Some en' \<Longrightarrow> fired_once en \<Longrightarrow> fired_once en'"
  by (auto simp: id_release_def split: option.splits if_splits)

lemma fired_once_schedule: "timer_schedule b i en = Some en' \<Longrightarrow> fired_once en \<Longrightarrow> fired_once en'"
  by (auto simp: timer_schedule_def id_add_ref_def dest!: fired_once_upd intro: fired_once_insert split: if_splits)

lemma fired_once_cancel: "timer_cancel i en = Some en' \<Longrightarrow> fired_once en \<Longrightarrow> fired_once en'"
  by (auto simp: timer_cancel_def id_add_ref_def dest!: fired_once_upd)

lemma fired_once_do: "timer_do r en = Some en' \<Longrightarrow> fired_once en \<Longrightarrow> fired_once en'"
  by (cases r)
    (auto simp: timer_fire_def timer_cancel_request_def timer_due_time_def timer_repeat_def timer_ctor_def timer_dtor_def
      intro: fired_once_schedule fired_once_cancel fired_once_upd fired_once_release split: option.splits if_splits)

lemma fired_once_do_all: "timer_do_all rs en = Some en' \<Longrightarrow> fired_once en \<Longrightarrow> fired_once en'"
  by (induction rs arbitrary: en) (auto simp: bind_eq_Some_iff intro: fired_once_do)

text \<open>Taking a timer out of the list and calling it back belong together.\<close>

lemma fired_once_call:
  assumes "call_back cb i ec (en\<lparr>en_timers := ts, en_out := out\<rparr>) = Some en'" and "fired_once en"
    and "mset (en_timers en) = add_mset i (mset ts)"
  shows "fired_once en'"
proof -
  have "fired_once (en\<lparr>en_timers := ts, en_out := out, en_log := (i, ec) # en_log en\<rparr>)"
    using assms(2,3) by (simp add: fired_once_def)
  then show ?thesis using assms(1) fired_once_do_all by (simp add: call_back_def Let_def)
qed

lemma fired_once_drain:
  assumes "drain_one cb i en = Some en'" and "fired_once en" and "en_timers en = i # is"
  shows "fired_once en'"
proof -
  obtain en1 where c: "call_back cb i error_code_ctor (en\<lparr>en_timers := tl (en_timers en), en_out := []\<rparr>) = Some en1"
    using assms(1) by (auto simp: drain_one_def bind_eq_Some_iff)
  have "fired_once en1" by (rule fired_once_call [OF c assms(2)]) (simp add: assms(3))
  then show ?thesis
    using assms(1) c
    by (auto simp: drain_one_def bind_eq_Some_iff split: option.splits if_splits
        dest!: fired_once_release fired_once_schedule fired_once_upd)
qed

lemma fired_once_task:
  assumes "timer_task_run cb t en = Some en'" and "fired_once en"
  shows "fired_once en'"
proof (cases t)
  case (Schedule_Task i)
  then show ?thesis using assms by (auto simp: bind_eq_Some_iff intro: fired_once_release fired_once_schedule)
next
  case (Cancel_Task i)
  show ?thesis
  proof (cases "i \<in> set (en_timers en)")
    case True
    then obtain en1 where c: "call_back cb i error_aborted (en\<lparr>en_timers := remove1 i (en_timers en)\<rparr>) = Some en1"
      using assms(1) Cancel_Task by (auto simp: bind_eq_Some_iff)
    have "en\<lparr>en_timers := remove1 i (en_timers en)\<rparr> = en\<lparr>en_timers := remove1 i (en_timers en), en_out := en_out en\<rparr>" by simp
    moreover have "mset (en_timers en) = add_mset i (mset (remove1 i (en_timers en)))" using True by simp
    ultimately have "fired_once en1" using fired_once_call [OF _ assms(2)] c by metis
    then show ?thesis using assms(1) Cancel_Task True c by (auto simp: bind_eq_Some_iff intro: fired_once_release)
  next
    case False
    then show ?thesis using assms Cancel_Task by (auto intro: fired_once_release)
  qed
qed

lemma fired_once_call_event: "on_call cl evs en = Some en' \<Longrightarrow> fired_once en \<Longrightarrow> fired_once en'"
  by (cases evs) (auto simp: Let_def split: event.splits if_splits intro: fired_once_do_all fired_once_task)

lemma fired_once_view: "engine_view cl en n evs = Some en' \<Longrightarrow> fired_once en \<Longrightarrow> fired_once en'"
  by (induction evs arbitrary: en') (auto simp: bind_eq_Some_iff split: if_splits intro: fired_once_call_event simp del: on_call.simps)

text \<open>
  A client keeps the rules if what its callbacks ask of sockets is valid when they ask it, whatever the timers ask for
  in between.
\<close>

definition polite_client :: "client \<Rightarrow> bool" where
  "polite_client cl \<longleftrightarrow> (\<forall>u en st ks. requests_ok epoll_rx
     (map user_request (cl_before cl u en st) @ map Req_Execute ks @ map user_request (cl_after cl u en st)) st)"

lemma asks_ok: "polite_client cl \<Longrightarrow> requests_ok epoll_rx (asks cl u en st) st"
  using polite_client_def [of cl] map_map [of Req_Execute "\<lambda>k. 2 * k" "en_out en"] unfolding asks_def comp_def by metis

lemma polite_loop: "polite_client cl \<Longrightarrow> polite epoll_rx (loop_handlers cl en n)"
  by (auto simp: polite_def loop_handlers_def asks_ok split: option.split)

text \<open>What the multiplexer keeps, with references \<open>hs\<close> that nobody will give back, and, from a state where they kept it (\<open>b\<close>), the timers keep.\<close>

definition loop_inv :: "bool \<Rightarrow> nat list \<Rightarrow> epoll \<Rightarrow> engine \<Rightarrow> bool" where
  "loop_inv b hs ep en \<longleftrightarrow> ep_inv False hs [] {#} ep \<and> (b \<longrightarrow> fired_once en)"

lemma mux_round_inv:
  assumes "mux_round cl evs ep en = Some (ep', en')" and "polite_client cl" and "loop_inv b hs ep en" and "events_live evs ep"
  shows "loop_inv b hs ep' en'"
proof -
  let ?n = "length (ep_log ep)"
  obtain k where r: "mux_run epoll_rx (loop_handlers cl en ?n) evs ep = Some (k, ep')" "engine_view cl en ?n (ep_log ep') = Some en'"
    using assms(1) by (auto simp: mux_round_def epoll_run_def Let_def bind_eq_Some_iff)
  have "ep_inv False hs [] {#} ep'"
    using erx.mux_run_step [OF _ assms(4) polite_loop [OF assms(2)], of hs en ?n] assms(3) r(1) by (auto simp: loop_inv_def)
  then show ?thesis using fired_once_view [OF r(2)] assms(3) by (simp add: loop_inv_def)
qed

lemma requests_inv:
  assumes "ep_inv False hs [] {#} ep" and "requests_ok epoll_rx rs ep"
  shows "\<exists>ep'. do_requests epoll_rx rs ep = Some ep' \<and> ep_inv False hs [] {#} ep'"
  using erx.requests_step [OF assms] by blast

lemma loop_drain_inv:
  assumes "loop_drain cl ts ep en = Some r" and "polite_client cl" and "loop_inv b hs ep en"
  shows "loop_inv b hs (fst r) (snd r) \<and> drain_loop (cl_callback cl) ts en = Some (snd r)"
  using assms(2,3)
proof (induction rule: loop_drain.raw_induct [OF _ assms(1)])
  case (1 f cl ts ep en r)
  show ?case
  proof (cases "en_timers en")
    case Nil
    then show ?thesis using 1(2,4) by (subst drain_loop.simps) auto
  next
    case (Cons i "is")
    then obtain t where t: "en_ids en i = Some t" using 1(2) by (auto split: option.splits)
    show ?thesis
    proof (cases "stamp_le (t_due t) ts")
      case False
      then show ?thesis using 1(2,4) Cons t by (subst drain_loop.simps) auto
    next
      case True
      then obtain en1 ep1 where s: "drain_one (cl_callback cl) i en = Some en1"
        "do_requests epoll_rx (asks cl (Fired i) en1 ep) ep = Some ep1" "f cl ts ep1 en1 = Some r"
        using 1(2) Cons t by (auto simp: bind_eq_Some_iff)
      have "loop_inv b hs ep1 en1"
        using requests_inv [OF _ asks_ok [OF 1(3)], of hs ep "Fired i" en1] s(2) fired_once_drain [OF s(1) _ Cons] 1(4)
        by (auto simp: loop_inv_def)
      from 1(1) [OF s(3) 1(3) this] show ?thesis using Cons t True s(1) by (subst drain_loop.simps) simp
    qed
  qed
qed

text \<open>The other way round: while the timers' part ends, the multiplexer's part ends too.\<close>

lemma loop_drain_ends:
  assumes "drain_loop cb ts en = Some en'" and "cb = cl_callback cl" and "polite_client cl" and "ep_inv False hs [] {#} ep"
  shows "\<exists>ep'. loop_drain cl ts ep en = Some (ep', en')"
  using assms(2-4)
proof (induction arbitrary: ep rule: drain_loop.raw_induct [OF _ assms(1)])
  case (1 f cb ts en en')
  show ?case
  proof (cases "en_timers en")
    case Nil
    then show ?thesis using 1(2) by (subst loop_drain.simps) auto
  next
    case (Cons i "is")
    then obtain t where t: "en_ids en i = Some t" using 1(2) by (auto split: option.splits)
    show ?thesis
    proof (cases "stamp_le (t_due t) ts")
      case False
      then show ?thesis using 1(2) Cons t by (subst loop_drain.simps) auto
    next
      case True
      then obtain en1 where s: "drain_one cb i en = Some en1" "f cb ts en1 = Some en'"
        using 1(2) Cons t by (auto simp: bind_eq_Some_iff)
      obtain ep1 where e: "do_requests epoll_rx (asks cl (Fired i) en1 ep) ep = Some ep1" "ep_inv False hs [] {#} ep1"
        using requests_inv [OF 1(5) asks_ok [OF 1(4)]] by blast
      from 1(1) [OF s(2) 1(3,4) e(2)] obtain ep' where "loop_drain cl ts ep1 en1 = Some (ep', en')" by blast
      then show ?thesis using Cons t True s(1) e(1) 1(3) by (subst loop_drain.simps) auto
    qed
  qed
qed

lemma engine_turn_inv:
  assumes "engine_turn cl t ep en = Some (ep', en')" and "polite_client cl" and "loop_inv b hs ep en"
    and "\<And>d st. events_live (fst (snd t) d st) st"
  shows "loop_inv b hs ep' en'"
proof -
  obtain before evs now where t: "t = (before, evs, now)" by (cases t)
  obtain d ep1 en1 where s: "mux_round cl (evs (wait_milliseconds d) ep) ep en = Some (ep1, en1)"
    "loop_drain cl now ep1 en1 = Some (ep', en')"
    using assms(1) by (auto simp: engine_turn_def t bind_eq_Some_iff)
  have "events_live (evs (wait_milliseconds d) ep) ep" using assms(4) by (simp add: t)
  then have "loop_inv b hs ep1 en1" by (rule mux_round_inv [OF s(1) assms(2,3)])
  from loop_drain_inv [OF s(2) assms(2) this] show ?thesis by simp
qed

lemma engine_run_inv:
  assumes "engine_run cl rounds ep en = Some (ended, ep', en')" and "polite_client cl" and "loop_inv b hs ep en"
    and "\<forall>(before, evs, now)\<in>set rounds. \<forall>d st. events_live (evs d st) st"
  shows "loop_inv b hs ep' en' \<and> (ended \<longrightarrow> ep_ref ep' = 0 \<and> en_timers en' = [])"
  using assms(1,3,4)
proof (induction rounds arbitrary: ep en)
  case Nil
  then show ?case by (subst (asm) (1) engine_run.simps) (auto split: if_splits)
next
  case (Cons t rounds)
  show ?case
  proof (cases "ep_ref ep = 0 \<and> en_timers en = []")
    case True
    then show ?thesis using Cons.prems by (subst (asm) (1) engine_run.simps) auto
  next
    case False
    then obtain ep1 en1 where e: "engine_turn cl t ep en = Some (ep1, en1)" "engine_run cl rounds ep1 en1 = Some (ended, ep', en')"
      using Cons.prems(1) by (subst (asm) (1) engine_run.simps) (auto simp: bind_eq_Some_iff)
    have "events_live (fst (snd t) d st) st" for d st using Cons.prems(3) by (simp add: case_prod_unfold)
    then have "loop_inv b hs ep1 en1" by (rule engine_turn_inv [OF e(1) assms(2) Cons.prems(2)])
    from Cons.IH [OF e(2) this] Cons.prems(3) show ?thesis by auto
  qed
qed

text \<open>The part of the multiplexer, whatever the state of the timers.\<close>

lemma engine_run_mux:
  assumes "engine_run cl rounds ep en = Some (ended, ep', en')" and "polite_client cl" and "ep_inv False hs [] {#} ep"
    and "\<forall>(before, evs, now)\<in>set rounds. \<forall>d st. events_live (evs d st) st"
  shows "ep_inv False hs [] {#} ep' \<and> (ended \<longrightarrow> ep_ref ep' = 0)"
  using engine_run_inv [OF assms(1,2) _ assms(4), of False hs] assms(3) by (simp add: loop_inv_def)

lemma engine_run_goes_on:
  "engine_run cl rounds ep en = Some (False, ep', en') \<Longrightarrow> \<not> (ep_ref ep' = 0 \<and> en_timers en' = [])"
proof (induction rounds arbitrary: ep en)
  case Nil
  then show ?case by (subst (asm) engine_run.simps) (auto split: if_splits)
next
  case (Cons t rounds)
  show ?case
  proof (cases "ep_ref ep = 0 \<and> en_timers en = []")
    case True
    then show ?thesis using Cons.prems by (subst (asm) engine_run.simps) simp
  next
    case False
    then obtain ep1 en1 where "engine_run cl rounds ep1 en1 = Some (False, ep', en')"
      using Cons.prems by (subst (asm) (1) engine_run.simps) (auto simp: bind_eq_Some_iff)
    then show ?thesis by (rule Cons.IH)
  qed
qed

text \<open>The engine uses its multiplexer by the contract only.\<close>

interpretation erun: multiplexer
  "\<lambda>st :: epoll. \<exists>en. loop_inv True [] st en" ep_ref "\<lambda>st. card (dom (ep_descs st))" "\<lambda>st. length (ep_queue st)"
  "\<lambda>st. mset (ep_submitted st)" "\<lambda>st. log_ops (ep_log st)" ep_pending
  by (rule inv_multiplexer) (auto simp: loop_inv_def)

text \<open>The states of the loop: requests on sockets and on timers from any thread, and turns.\<close>

inductive loop_reach :: "client \<Rightarrow> epoll \<Rightarrow> engine \<Rightarrow> bool" for cl where
  Loop_Start: "loop_reach cl (epoll_ctor sys) engine_ctor"
| Loop_Request: "loop_reach cl ep en \<Longrightarrow> valid_request r ep \<Longrightarrow> do_request epoll_rx (user_request r) ep = Some ep' \<Longrightarrow>
    loop_reach cl ep' en"
| Loop_Timer: "loop_reach cl ep en \<Longrightarrow> timer_do_outside r (en\<lparr>en_out := []\<rparr>) = Some en' \<Longrightarrow>
    do_requests epoll_rx (map (\<lambda>k. Req_Execute (2 * k)) (en_out en')) ep = Some ep' \<Longrightarrow> loop_reach cl ep' en'"
| Loop_Turn: "loop_reach cl ep en \<Longrightarrow> (\<And>d st. events_live (fst (snd t) d st) st) \<Longrightarrow>
    engine_turn cl t ep en = Some (ep', en') \<Longrightarrow> loop_reach cl ep' en'"

lemma executes_ok: "requests_ok rx (map Req_Execute ks) st"
  by (induction ks arbitrary: st) auto

lemma valid_user_request: "valid_request (user_request r) st = valid_request r st"
  by (cases r) simp_all

lemma fired_once_outside: "timer_do_outside r en = Some en' \<Longrightarrow> fired_once en \<Longrightarrow> fired_once en'"
  by (cases r) (auto simp: timer_fire_def intro: fired_once_schedule fired_once_do simp del: timer_do.simps)

lemma loop_reach_inv: "loop_reach cl ep en \<Longrightarrow> polite_client cl \<Longrightarrow> loop_inv True [] ep en"
proof (induction rule: loop_reach.induct)
  case (Loop_Start sys)
  then show ?case using epoll_ctor_inv by (simp add: loop_inv_def fired_once_def engine_ctor_def)
next
  case (Loop_Request ep en r ep')
  then show ?case
    using erx.request_step [of False "[]" "[]" "{#}" ep "user_request r"] by (auto simp: loop_inv_def valid_user_request)
next
  case (Loop_Timer ep en r en' ep')
  have "requests_ok epoll_rx (map (\<lambda>k. Req_Execute (2 * k)) (en_out en')) ep"
    using executes_ok [of epoll_rx "map (\<lambda>k. 2 * k) (en_out en')" ep] by (simp add: comp_def)
  then show ?case
    using Loop_Timer fired_once_outside [OF Loop_Timer.hyps(2)] requests_inv [of "[]" ep "map (\<lambda>k. Req_Execute (2 * k)) (en_out en')"]
    by (auto simp: loop_inv_def)
next
  case (Loop_Turn ep en t ep' en')
  then show ?case using engine_turn_inv [of cl t ep en ep' en' True "[]"] by blast
qed

section \<open>Properties\<close>

text \<open>
  C11. For callbacks that leave the timers alone, \<open>timer_drain\<close> ends: every timer that was due is
  fired, a one-shot timer that was due is gone and a repeating one is scheduled at its next time
  after now, the timers not due are untouched, and the list stays sorted without duplicates.
\<close>

theorem timers_drain_correct:
  assumes "timers_ok (stamp_tick now) en"
  shows "\<exists>en'. timer_drain quiet_cb now en = Some en' \<and> timers_ok (stamp_tick now) en' \<and>
     (\<forall>i\<in>set (en_timers en'). stamp_tick now < due_of en' i) \<and>
     set (en_timers en') = {i \<in> set (en_timers en). stamp_tick now < due_of en i \<or> repeating en i} \<and>
     (\<forall>i\<in>set (en_timers en). due_of en i \<le> stamp_tick now \<longrightarrow> (i, error_code_ctor) \<in> set (en_log en')) \<and>
     (\<forall>i. stamp_tick now < due_of en i \<longrightarrow> en_ids en' i = en_ids en i)"
  unfolding timer_drain_def using drain_loop_ends [OF assms refl] by blast

definition demo_engine :: engine where
  "demo_engine = engine_ctor\<lparr>en_ids := [0 \<mapsto> \<lparr>t_ref = 2, t_due = mk_stamp 100, t_repeat = milliseconds 2\<rparr>,
     1 \<mapsto> \<lparr>t_ref = 1, t_due = mk_stamp 200, t_repeat = span_ctor\<rparr>], en_next := 2, en_timers := [0, 1]\<rparr>"

lemma demo_engine_ok: "timers_ok 3000 demo_engine"
  by (simp add: demo_engine_def engine_ctor_def timers_ok_def id_ok_def due_of_def mk_stamp_def to_i64_def
      milliseconds_def mk_span_def span_ctor_def total_milliseconds_def signed_divide_int_def)

theorem timers_drain_correct_witness:
  "\<exists>en'. timer_drain quiet_cb (mk_stamp 3000) demo_engine = Some en' \<and> set (en_timers en') = {0}"
proof -
  have tick: "stamp_tick (mk_stamp 3000) = 3000" by (simp add: mk_stamp_def to_i64_def)
  have "{i \<in> set (en_timers demo_engine). 3000 < due_of demo_engine i \<or> repeating demo_engine i} = {0}"
    by (auto simp: demo_engine_def engine_ctor_def due_of_def repeating_def mk_stamp_def to_i64_def
      milliseconds_def mk_span_def span_ctor_def total_milliseconds_def signed_divide_int_def)
  moreover obtain en' where "timer_drain quiet_cb (mk_stamp 3000) demo_engine = Some en'"
    "set (en_timers en') = {i \<in> set (en_timers demo_engine). 3000 < due_of demo_engine i \<or> repeating demo_engine i}"
    using timers_drain_correct [of "mk_stamp 3000" demo_engine, unfolded tick, OF demo_engine_ok] by (elim exE conjE)
  ultimately show ?thesis by simp
qed

lemma behind_insertion:
  assumes "sorted (map (due_of en) xs)"
  shows "\<forall>j\<in>set (drop (length (takeWhile (\<lambda>j. \<not> due_of en i < due_of en j) xs)) xs). due_of en i < due_of en j"
proof
  let ?P = "\<lambda>j. \<not> due_of en i < due_of en j"
  fix j assume "j \<in> set (drop (length (takeWhile ?P xs)) xs)"
  then have j: "j \<in> set (dropWhile ?P xs)" by (simp add: dropWhile_eq_drop)
  then obtain y ys where y: "dropWhile ?P xs = y # ys" by (cases "dropWhile ?P xs") auto
  have "sorted (map (due_of en) (dropWhile ?P xs))"
    using assms by (simp add: dropWhile_eq_drop drop_map [symmetric] sorted_wrt_drop)
  moreover have "due_of en i < due_of en y" using hd_dropWhile [of ?P xs] y by simp
  ultimately show "due_of en i < due_of en j" using j y by auto
qed

text \<open>The engine sleeps exactly until the first timer is due.\<close>

lemma sleep_until_first:
  assumes "en_timers en \<noteq> []" and "en_ids en (hd (en_timers en)) \<noteq> None"
    and "due_of en (hd (en_timers en)) < 2 ^ 63" and "0 \<le> stamp_tick now"
  shows "\<exists>d. next_wake_up_time now en = Some d \<and>
     span_delta d = (if due_of en (hd (en_timers en)) \<le> stamp_tick now then 0 else due_of en (hd (en_timers en)) - stamp_tick now)"
proof -
  obtain f fs where f: "en_timers en = f # fs" using assms(1) by (cases "en_timers en") auto
  obtain u where u: "en_ids en f = Some u" using assms(2) f by auto
  have "to_i64 (due_of en f - stamp_tick now) = due_of en f - stamp_tick now" if "stamp_tick now < due_of en f"
    using that assms(3,4) f by (intro to_i64_id) auto
  then show ?thesis
    using f u by (auto simp: next_wake_up_time_def stamp_le_def due_of_def seconds_def mk_span_def to_i64_def stamp_diff_def)
qed

lemma wait_of_span:
  assumes "0 \<le> span_delta d"
  shows "span_delta d < 1000 * 2 ^ 31 \<Longrightarrow> wait_milliseconds d = span_delta d div 1000"
    and "1000 * 2 ^ 31 \<le> span_delta d \<Longrightarrow> span_delta d < 2000 * 2 ^ 31 \<Longrightarrow> wait_milliseconds d < 0"
proof -
  have t: "total_milliseconds d = span_delta d div 1000"
    using assms by (simp add: total_milliseconds_def signed_divide_int_def sgn_if)
  show "wait_milliseconds d = span_delta d div 1000" if "span_delta d < 1000 * 2 ^ 31"
    unfolding wait_milliseconds_def t using assms that by (intro to_i32_id) auto
  show "wait_milliseconds d < 0" if "1000 * 2 ^ 31 \<le> span_delta d" "span_delta d < 2000 * 2 ^ 31"
  proof -
    have "2 ^ 31 \<le> span_delta d div 1000" "span_delta d div 1000 < 2 ^ 32" using that by auto
    moreover from this have "(span_delta d div 1000 - 2 ^ 31 + 2 ^ 32) mod 2 ^ 32 = span_delta d div 1000 - 2 ^ 31"
      unfolding mod_add_self2 by (intro mod_pos_pos_trivial) auto
    ultimately show ?thesis unfolding wait_milliseconds_def t to_i32_def by (simp add: algebra_simps)
  qed
qed

text \<open>
  C12. Scheduling from the loop keeps the timers in order of their due times, a timer behind those due at the same time;
  and the engine sleeps for exactly the time until the first timer is due, not at all when one is, and a second when there
  is none. The wait it asks of the system is that time in whole milliseconds, so it ends less than a millisecond
  early and never late, as long as the number fits an \<open>int\<close>. For a first timer due in 25 to 49 days it does not
  fit: the wait is negative, which the system takes for a wait without an end.
\<close>

theorem timer_order_and_sleep:
  assumes "en_ids en i = Some t" and "sorted (map (due_of en) (en_timers en))"
  shows "\<exists>en'. timer_schedule True i en = Some en' \<and> sorted (map (due_of en') (en_timers en')) \<and>
     mset (en_timers en') = add_mset i (mset (en_timers en)) \<and>
     (\<exists>k. en_timers en' = take k (en_timers en) @ [i] @ drop k (en_timers en) \<and>
        (\<forall>j\<in>set (drop k (en_timers en)). due_of en i < due_of en j)) \<and>
     (en_timers en = [] \<longrightarrow> next_wake_up_time now en = Some (seconds 1) \<and> wait_milliseconds (seconds 1) = 1000) \<and>
     (en_timers en \<noteq> [] \<and> en_ids en (hd (en_timers en)) \<noteq> None \<and>
        (\<forall>j\<in>set (en_timers en). due_of en j < 2 ^ 63) \<and> 0 \<le> stamp_tick now \<longrightarrow>
        (\<exists>d. next_wake_up_time now en = Some d \<and>
           span_delta d = (if due_of en (hd (en_timers en)) \<le> stamp_tick now then 0
                           else due_of en (hd (en_timers en)) - stamp_tick now) \<and>
           (\<forall>j\<in>set (en_timers en). stamp_tick now < due_of en j \<longrightarrow> stamp_tick now + span_delta d \<le> due_of en j) \<and>
           (span_delta d < 1000 * 2 ^ 31 \<longrightarrow> wait_milliseconds d = span_delta d div 1000) \<and>
           (1000 * 2 ^ 31 \<le> span_delta d \<and> span_delta d < 2000 * 2 ^ 31 \<longrightarrow> wait_milliseconds d < 0)))"
proof -
  let ?en1 = "en\<lparr>en_ids := (en_ids en)(i \<mapsto> t\<lparr>t_ref := t_ref t + 1\<rparr>)\<rparr>"
  let ?P = "\<lambda>j. \<not> due_of en i < due_of en j"
  have due: "due_of ?en1 = due_of en" using assms(1) by (auto simp: due_of_def fun_eq_iff)
  have s: "timer_schedule True i en = Some (timer_insert i ?en1)"
    using assms(1) by (simp add: timer_schedule_def id_add_ref_def upd_id_def)
  have due': "due_of (timer_insert i ?en1) = due_of en"
    using due by (simp add: timer_insert_def due_of_def fun_eq_iff)
  have sorted: "sorted (map (due_of (timer_insert i ?en1)) (en_timers (timer_insert i ?en1)))"
    using timer_insert_sorted [of ?en1 i] assms(2) by (simp add: due due')
  have k: "en_timers (timer_insert i ?en1) = take (length (takeWhile ?P (en_timers en))) (en_timers en) @ [i] @
      drop (length (takeWhile ?P (en_timers en))) (en_timers en)"
    by (simp add: timer_insert_def due takeWhile_eq_take [symmetric] dropWhile_eq_drop [symmetric])
  have ms: "mset (en_timers (timer_insert i ?en1)) = add_mset i (mset (en_timers en))"
    using timer_insert_set [of i ?en1] by simp
  have at: "\<exists>k. en_timers (timer_insert i ?en1) = take k (en_timers en) @ [i] @ drop k (en_timers en) \<and>
      (\<forall>j\<in>set (drop k (en_timers en)). due_of en i < due_of en j)"
    using k behind_insertion [OF assms(2)] by blast
  have none: "en_timers en = [] \<longrightarrow> next_wake_up_time now en = Some (seconds 1) \<and> wait_milliseconds (seconds 1) = 1000"
    by (simp add: next_wake_up_time_def wait_milliseconds_def seconds_def mk_span_def to_i64_def to_i32_def total_milliseconds_def
        signed_divide_int_def)
  have sleep: "\<exists>d. next_wake_up_time now en = Some d \<and>
      span_delta d = (if due_of en (hd (en_timers en)) \<le> stamp_tick now then 0 else due_of en (hd (en_timers en)) - stamp_tick now) \<and>
      (\<forall>j\<in>set (en_timers en). stamp_tick now < due_of en j \<longrightarrow> stamp_tick now + span_delta d \<le> due_of en j) \<and>
      (span_delta d < 1000 * 2 ^ 31 \<longrightarrow> wait_milliseconds d = span_delta d div 1000) \<and>
      (1000 * 2 ^ 31 \<le> span_delta d \<and> span_delta d < 2000 * 2 ^ 31 \<longrightarrow> wait_milliseconds d < 0)"
    if a: "en_timers en \<noteq> []" "en_ids en (hd (en_timers en)) \<noteq> None" "\<forall>j\<in>set (en_timers en). due_of en j < 2 ^ 63"
      "0 \<le> stamp_tick now"
  proof -
    obtain d where d: "next_wake_up_time now en = Some d" "span_delta d =
        (if due_of en (hd (en_timers en)) \<le> stamp_tick now then 0 else due_of en (hd (en_timers en)) - stamp_tick now)"
      using sleep_until_first [OF a(1,2) _ a(4)] a(1,3) by auto
    have "\<forall>j\<in>set (en_timers en). due_of en (hd (en_timers en)) \<le> due_of en j" using assms(2) a(1) by (cases "en_timers en") auto
    moreover have "0 \<le> span_delta d" using d(2) by simp
    ultimately show ?thesis using d wait_of_span [of d] by (intro exI [of _ d]) auto
  qed
  show ?thesis
    by (intro exI [of _ "timer_insert i ?en1"] conjI s sorted ms at none impI) (use sleep in blast)
qed

theorem timer_order_and_sleep_witness:
  "(\<exists>en'. timer_schedule True 1 demo_engine = Some en' \<and> sorted (map (due_of en') (en_timers en'))) \<and>
   (\<exists>d. next_wake_up_time (mk_stamp 40) demo_engine = Some d \<and> span_delta d = 60 \<and> wait_milliseconds d = 0)"
proof -
  have i: "en_ids demo_engine 1 = Some \<lparr>t_ref = 1, t_due = mk_stamp 200, t_repeat = span_ctor\<rparr>"
    "en_timers demo_engine = [0, 1]" "en_ids demo_engine 0 \<noteq> None" "due_of demo_engine 0 = 100" "due_of demo_engine 1 = 200"
    "stamp_tick (mk_stamp 40) = 40"
    by (simp_all add: demo_engine_def engine_ctor_def due_of_def mk_stamp_def to_i64_def)
  have "sorted (map (due_of demo_engine) (en_timers demo_engine))" using demo_engine_ok by (simp add: timers_ok_def)
  from timer_order_and_sleep [OF i(1) this, of "mk_stamp 40"] i show ?thesis by auto
qed

text \<open>
  C13. When \<open>engine::run\<close> returns, nothing is left to do. Sockets, functions and timers may have been used from any thread
  before, and every callback may have turned to all of them: every operation handed to the multiplexer has been
  completed exactly once, no function is queued (those of the timers go through the same queue), no descriptor and no timer
  is left, and every time a timer was put into the list its callback was called exactly once. And while a descriptor,
  a queued function or a scheduled timer is left, it does not return.
\<close>

theorem engine_run_returns_done:
  assumes "loop_reach cl ep en" and "polite_client cl"
    and "\<forall>(before, evs, now)\<in>set rounds. \<forall>d st. events_live (evs d st) st"
    and "engine_run cl rounds ep en = Some (ended, ep', en')"
  shows "(ended \<longrightarrow> log_ops (ep_log ep') = mset (ep_submitted ep') \<and> ep_queue ep' = [] \<and> dom (ep_descs ep') = {} \<and>
       en_timers en' = [] \<and> mset (map fst (en_log en')) = mset (en_sched en')) \<and>
     (\<not> ended \<longrightarrow> dom (ep_descs ep') \<noteq> {} \<or> ep_queue ep' \<noteq> [] \<or> en_timers en' \<noteq> [])"
proof -
  have i: "loop_inv True [] ep' en'" "ended \<longrightarrow> ep_ref ep' = 0 \<and> en_timers en' = []"
    using engine_run_inv [OF assms(4,2) loop_reach_inv [OF assms(1,2)] assms(3)] by auto
  have inv: "ep_inv False [] [] {#} ep'" and f: "fired_once en'" using i(1) by (simp_all add: loop_inv_def)
  have r: "\<exists>en. loop_inv True [] ep' en" using i(1) by blast
  have count: "ep_ref ep' = int (card (dom (ep_descs ep')) + length (ep_queue ep'))" by (rule erun.refs_law [OF r])
  show ?thesis
  proof (intro conjI impI)
    assume ended
    then have z: "ep_ref ep' = 0" "en_timers en' = []" using i(2) by simp_all
    show "log_ops (ep_log ep') = mset (ep_submitted ep')" "ep_queue ep' = []" "dom (ep_descs ep') = {}"
      using erun.idle_done [OF r z(1)] ep_invD(1) [OF inv] by simp_all
    show "en_timers en' = []" "mset (map fst (en_log en')) = mset (en_sched en')" using z(2) f by (simp_all add: fired_once_def)
  next
    assume "\<not> ended"
    then have "engine_run cl rounds ep en = Some (False, ep', en')" using assms(4) by simp
    then have "\<not> (ep_ref ep' = 0 \<and> en_timers en' = [])" by (rule engine_run_goes_on)
    then show "dom (ep_descs ep') \<noteq> {} \<or> ep_queue ep' \<noteq> [] \<or> en_timers en' \<noteq> []" using count by auto
  qed
qed

text \<open>
  An application with a socket, a write to it, and a timer started from outside the loop. The write's completion closes
  the socket; the timer's callback queues a function. Three turns: the write and the scheduling of the timer run, the timer
  is due, and its function runs.
\<close>

definition demo_client :: client where
  "demo_client = \<lparr>cl_callback = (\<lambda>i ec en. []), cl_timers = (\<lambda>evs en. []), cl_before = (\<lambda>u en st. []),
     cl_after = (\<lambda>u en st. case u of Mux_Event (Completed op) \<Rightarrow> [Req_Close 7] | Mux_Event (Called k) \<Rightarrow> [] | Fired i \<Rightarrow> [Req_Execute 3])\<rparr>"

lemma polite_demo_client: "polite_client demo_client"
proof -
  have "requests_ok epoll_rx (map Req_Execute ks @ rs) st" if "rs = [] \<or> rs = [Req_Close 7] \<or> rs = [Req_Execute 7]" for ks rs st
    using that by (induction ks arbitrary: st) auto
  then show ?thesis by (auto simp: polite_client_def demo_client_def split: user_event.split event.split)
qed

definition demo_timer :: engine where
  "demo_timer = the (timer_do_outside (Timer_Fire 0) (the (timer_do_outside (Timer_Due 0 (mk_stamp 2000)) (the (timer_do_outside Timer_New engine_ctor)))))"

definition demo_loop :: epoll where
  "demo_loop = the (do_requests epoll_rx [Req_Execute 0] demo_write)"

definition demo_turns :: "turn list" where
  "demo_turns = map (\<lambda>now. (mk_stamp now, (\<lambda>w st. [(None, EPOLLIN)]), mk_stamp now)) [1000, 3000, 4000]"

lemma demo_loop_reach: "loop_reach demo_client demo_loop demo_timer"
proof -
  let ?w = "Req_Write 7 (operation_write_base 1 [buffer_of 100 4])"
  let ?a = "the (timer_do_outside Timer_New engine_ctor)"
  let ?b = "the (timer_do_outside (Timer_Due 0 (mk_stamp 2000)) ?a)"
  have o: "loop_reach demo_client demo_open engine_ctor"
    using Loop_Request [OF Loop_Start, of "Req_Open 7"] demo_open_eq by simp
  have w: "loop_reach demo_client demo_write engine_ctor"
    using Loop_Request [OF o, of ?w] demo_write_eq by (simp add: demo_eval)
  have a: "timer_do_outside Timer_New (engine_ctor\<lparr>en_out := []\<rparr>) = Some ?a" "en_out ?a = []"
    by (simp_all add: timer_ctor_def engine_ctor_def)
  have b: "timer_do_outside (Timer_Due 0 (mk_stamp 2000)) (?a\<lparr>en_out := []\<rparr>) = Some ?b" "en_out ?b = []"
    by (simp_all add: timer_ctor_def engine_ctor_def timer_due_time_def upd_id_def)
  have c: "timer_do_outside (Timer_Fire 0) (?b\<lparr>en_out := []\<rparr>) = Some demo_timer" "en_out demo_timer = [0]"
    by (simp_all add: demo_timer_def timer_ctor_def engine_ctor_def timer_due_time_def upd_id_def timer_fire_def timer_schedule_def
        id_add_ref_def engine_execute_def)
  have "loop_reach demo_client demo_write ?a" by (rule Loop_Timer [OF w a(1)]) (use a(2) in simp)
  then have "loop_reach demo_client demo_write ?b" by (rule Loop_Timer [OF _ b(1)]) (use b(2) in simp)
  then show ?thesis by (rule Loop_Timer [OF _ c(1)]) (simp add: c(2) demo_loop_def do_request_def)
qed

lemma demo_run_value:
  "case engine_run demo_client demo_turns demo_loop demo_timer of
     None \<Rightarrow> False
   | Some (ended, ep, en) \<Rightarrow> ended \<and> ep_submitted ep = [1] \<and> en_sched en = [0] \<and> length (ep_log ep) = 3"
  by code_simp

theorem engine_run_returns_done_witness:
  "\<exists>ep en. engine_run demo_client demo_turns demo_loop demo_timer = Some (True, ep, en) \<and>
     log_ops (ep_log ep) = {#1#} \<and> map fst (en_log en) = [0] \<and> dom (ep_descs ep) = {}"
proof -
  obtain ep en where r: "engine_run demo_client demo_turns demo_loop demo_timer = Some (True, ep, en)"
    "ep_submitted ep = [1]" "en_sched en = [0]"
    using demo_run_value by (auto split: option.splits)
  have "\<forall>(before, evs, now)\<in>set demo_turns. \<forall>d st. events_live (evs d st) st"
    by (auto simp: demo_turns_def events_live_def)
  note d = engine_run_returns_done [OF demo_loop_reach polite_demo_client this r(1), THEN conjunct1, rule_format, OF TrueI]
  have "mset (map fst (en_log en)) = {#0#}" using d r(3) by simp
  then have "map fst (en_log en) = [0]" by (simp only: mset_single_iff)
  then show ?thesis using d r by auto
qed

end
