(* ===== verification/Socket.thy ===== *)
theory Socket
  imports Engine
begin

text \<open>
  The socket classes: \<open>src/io/ip/tcp/socket.cpp\<close>, \<open>src/io/ip/udp/socket.cpp\<close>, \<open>src/io/ip/raw.cpp\<close> and
  \<open>src/io/ip/tcp/acceptor.cpp\<close>. A socket is a pointer to the engine and a descriptor; it owns the one
  reference to the descriptor that \<open>close\<close> gives back. A socket variable is a number; \<open>sk_engine\<close> says whose
  engine pointer is not null, the descriptors are the \<open>ep_socks\<close> of the multiplexer. Their read, write, accept and
  connect templates are the requests of the theory \<open>Reactor\<close>.
\<close>

section \<open>The classes\<close>

record sockets =
  sk_engine :: "nat \<Rightarrow> bool"
  sk_mux :: epoll

definition set_desc :: "nat \<Rightarrow> nat option \<Rightarrow> sockets \<Rightarrow> sockets" where
  "set_desc s d sk = sk\<lparr>sk_mux := (sk_mux sk)\<lparr>ep_socks := (ep_socks (sk_mux sk))(s := d)\<rparr>\<rparr>"

definition set_engine :: "nat \<Rightarrow> bool \<Rightarrow> sockets \<Rightarrow> sockets" where
  "set_engine s b sk = sk\<lparr>sk_engine := (sk_engine sk)(s := b)\<rparr>"

definition socket_descriptor :: "nat \<Rightarrow> sockets \<Rightarrow> nat option" where
  "socket_descriptor s sk = ep_socks (sk_mux sk) s"

text \<open>\<open>socket( engine& )\<close>, for a new variable.\<close>

definition socket_ctor :: "nat \<Rightarrow> sockets \<Rightarrow> sockets" where
  "socket_ctor s sk = set_desc s None (set_engine s True sk)"

definition socket_move_ctor :: "nat \<Rightarrow> nat \<Rightarrow> sockets \<Rightarrow> sockets" where
  "socket_move_ctor s rhs sk =
     (let sk = set_engine s (sk_engine sk rhs) sk;
          sk = set_desc s (socket_descriptor rhs sk) sk;
          sk = set_engine rhs False sk
      in set_desc rhs None sk)"

definition socket_move_assign :: "nat \<Rightarrow> nat \<Rightarrow> sockets \<Rightarrow> sockets" where
  "socket_move_assign s rhs sk =
     (let sk = set_engine s (sk_engine sk rhs) sk;
          sk = set_desc s (socket_descriptor rhs sk) sk;
          sk = set_engine rhs False sk
      in set_desc rhs None sk)"

text \<open>The destructor is empty: the variable is gone, and with it what it held.\<close>

definition socket_dtor :: "nat \<Rightarrow> sockets \<Rightarrow> sockets" where
  "socket_dtor s sk = set_desc s None (set_engine s False sk)"

definition socket_engine :: "nat \<Rightarrow> sockets \<Rightarrow> epoll option" where
  "socket_engine s sk = (if sk_engine sk s then Some (sk_mux sk) else None)"

definition socket_close :: "nat \<Rightarrow> sockets \<Rightarrow> sockets option" where
  "socket_close s sk = map_option (\<lambda>mux. sk\<lparr>sk_mux := unbind s mux\<rparr>) (socket_engine s sk)"

definition raw_open :: "nat \<Rightarrow> sockets \<Rightarrow> (bool \<times> sockets) option" where
  "raw_open s sk = Option.bind (socket_engine s sk) (\<lambda>mux.
     map_option (\<lambda>(r, mux). (r, sk\<lparr>sk_mux := mux\<rparr>)) (mux_open epoll_rx s mux))"

definition udp_bind :: "nat \<Rightarrow> sockets \<Rightarrow> (bool \<times> sockets) option" where
  "udp_bind s sk = Option.bind (socket_engine s sk) (\<lambda>mux.
     map_option (\<lambda>(r, mux). (r, sk\<lparr>sk_mux := mux\<rparr>)) (mux_bind_address epoll_rx s mux))"

text \<open>The synchronous transfers drop the error; on a null descriptor the multiplexer dereferences it.\<close>

definition udp_socket_read :: "nat \<Rightarrow> sockets \<Rightarrow> (int \<times> sockets) option" where
  "udp_socket_read s sk = Option.bind (socket_engine s sk) (\<lambda>mux.
     Option.bind (ep_socks mux s) (\<lambda>d.
     map_option (\<lambda>(r, e, mux). (r, sk\<lparr>sk_mux := mux\<rparr>)) (mux_recvfrom d error_success mux)))"

definition udp_socket_write :: "nat \<Rightarrow> sockets \<Rightarrow> (int \<times> sockets) option" where
  "udp_socket_write s sk = Option.bind (socket_engine s sk) (\<lambda>mux.
     Option.bind (ep_socks mux s) (\<lambda>d.
     map_option (\<lambda>(r, e, mux). (r, sk\<lparr>sk_mux := mux\<rparr>)) (mux_sendto d error_success mux)))"

text \<open>\<open>tcp::acceptor\<close>, which holds its engine by reference; its synchronous \<open>accept\<close> does nothing.\<close>

record 'a tcp_acceptor =
  ta_address :: 'a
  ta_socket :: nat

definition tcp_acceptor_listen :: "'a tcp_acceptor \<Rightarrow> 'a \<Rightarrow> epoll \<Rightarrow> (bool \<times> 'a tcp_acceptor \<times> epoll) option" where
  "tcp_acceptor_listen ac addr mux =
     (let ac = ac\<lparr>ta_address := addr\<rparr>
      in map_option (\<lambda>(r, mux). (r, ac, mux)) (mux_listen epoll_rx (ta_socket ac) mux))"

definition tcp_acceptor_close :: "'a tcp_acceptor \<Rightarrow> epoll \<Rightarrow> epoll" where
  "tcp_acceptor_close ac mux = unbind (ta_socket ac) mux"

definition tcp_acceptor_accept :: "'a tcp_acceptor \<Rightarrow> nat \<Rightarrow> epoll \<Rightarrow> bool \<times> epoll" where
  "tcp_acceptor_accept ac fd mux = (False, mux)"

section \<open>Moving\<close>

lemma move_sock:
  assumes i: "ep_inv awake hs ts M st" and s: "ep_socks st dst = None" and n: "src \<noteq> dst"
  shows "ep_inv awake hs ts M (st\<lparr>ep_socks := (ep_socks st)(dst := ep_socks st src, src := None)\<rparr>)"
proof (cases "ep_socks st src")
  case None
  then have "(ep_socks st)(dst := ep_socks st src, src := None) = ep_socks st" using s by auto
  then show ?thesis using i by simp
next
  case (Some d)
  let ?st = "st\<lparr>ep_socks := (ep_socks st)(src := None)\<rparr>"
  have "d \<notin> ran (ep_socks ?st)" using ep_invD(5) [OF i] Some by (auto simp: ran_def inj_on_def dom_def)
  from give_sock [OF take_sock [OF i Some] this, of dst] show ?thesis
    using Some n by (simp add: fun_upd_twist)
qed

lemma ran_move:
  assumes "socks dst = None" and "src \<noteq> dst"
  shows "ran (socks(dst := socks src, src := None)) = ran socks"
proof
  show "ran socks \<subseteq> ran (socks(dst := socks src, src := None))"
  proof
    fix d
    assume "d \<in> ran socks"
    then obtain a where "socks a = Some d" by (auto simp: ran_def)
    then have "(socks(dst := socks src, src := None)) (if a = src then dst else a) = Some d" using assms by auto
    then show "d \<in> ran (socks(dst := socks src, src := None))" by (rule ranI)
  qed
qed (auto simp: ran_def split: if_splits)

lemma sk_mux_move:
  "src \<noteq> dst \<Longrightarrow> sk_mux (socket_move_assign dst src sk) =
     (sk_mux sk)\<lparr>ep_socks := (ep_socks (sk_mux sk))(dst := ep_socks (sk_mux sk) src, src := None)\<rparr>"
  "src \<noteq> dst \<Longrightarrow> sk_mux (socket_move_ctor dst src sk) =
     (sk_mux sk)\<lparr>ep_socks := (ep_socks (sk_mux sk))(dst := ep_socks (sk_mux sk) src, src := None)\<rparr>"
  "sk_mux (socket_dtor s sk) = (sk_mux sk)\<lparr>ep_socks := (ep_socks (sk_mux sk))(s := None)\<rparr>"
  by (simp_all add: socket_move_assign_def socket_move_ctor_def socket_dtor_def set_desc_def set_engine_def
      socket_descriptor_def Let_def)

text \<open>Whatever overwrites the variable of an open socket leaves a reference that nobody holds.\<close>

lemma dropped_hand:
  assumes i: "ep_inv awake hs ts M (sk_mux sk)" and s: "ep_socks (sk_mux sk) s = Some d"
    and k: "sk' = socket_dtor s sk \<or> (\<exists>src. src \<noteq> s \<and> sk' = socket_move_assign s src sk)"
  shows "ep_inv awake (d # hs) ts M (sk_mux sk')"
proof -
  let ?st = "(sk_mux sk)\<lparr>ep_socks := (ep_socks (sk_mux sk))(s := None)\<rparr>"
  have i1: "ep_inv awake (d # hs) ts M ?st" by (rule take_sock [OF i s])
  from k show ?thesis
  proof
    assume "sk' = socket_dtor s sk"
    then show ?thesis using i1 by (simp add: sk_mux_move)
  next
    assume "\<exists>src. src \<noteq> s \<and> sk' = socket_move_assign s src sk"
    then obtain src where src: "src \<noteq> s" "sk' = socket_move_assign s src sk" by blast
    show ?thesis using move_sock [OF i1, of s src] src by (simp add: sk_mux_move)
  qed
qed

section \<open>Properties\<close>

text \<open>
  C15. Moving a socket into a variable that holds none hands the descriptor over: the new variable has it, the
  old one is null, the count of its owners is as before and the invariant of the multiplexer is kept; closing the
  old variable dereferences its null engine.
\<close>

theorem socket_move_transfers:
  assumes "ep_inv False [] [] {#} (sk_mux sk)" and "ep_socks (sk_mux sk) dst = None" and "src \<noteq> dst"
    and "sk' = socket_move_ctor dst src sk \<or> sk' = socket_move_assign dst src sk"
  shows "socket_descriptor dst sk' = socket_descriptor src sk \<and> socket_descriptor src sk' = None \<and>
     socket_engine dst sk' = map_option (\<lambda>_. sk_mux sk') (socket_engine src sk) \<and> socket_close src sk' = None \<and>
     ep_inv False [] [] {#} (sk_mux sk') \<and>
     owners [] (ep_queue (sk_mux sk')) (ep_socks (sk_mux sk')) d = owners [] (ep_queue (sk_mux sk)) (ep_socks (sk_mux sk)) d"
proof -
  have m: "sk_mux sk' = (sk_mux sk)\<lparr>ep_socks := (ep_socks (sk_mux sk))(dst := ep_socks (sk_mux sk) src, src := None)\<rparr>"
    using assms(3,4) by (auto simp: sk_mux_move)
  have e: "sk_engine sk' = (sk_engine sk)(dst := sk_engine sk src, src := False)"
    using assms(4) by (auto simp: socket_move_assign_def socket_move_ctor_def set_desc_def set_engine_def Let_def)
  have "ran ((ep_socks (sk_mux sk))(dst := ep_socks (sk_mux sk) src, src := None)) = ran (ep_socks (sk_mux sk))"
    by (rule ran_move [where socks = "ep_socks (sk_mux sk)", OF assms(2,3)])
  then show ?thesis
    using m e move_sock [OF assms(1-3)] assms(3)
    by (simp add: socket_descriptor_def socket_engine_def socket_close_def owners_def)
qed

definition demo_sockets :: sockets where
  "demo_sockets = \<lparr>sk_engine = (\<lambda>s. s = 7), sk_mux = demo_open\<rparr>"

lemma demo_open_reach: "ep_reach quiet demo_open"
  by (rule Reach_Request [OF Reach_Start _ demo_open_eq]) simp

lemma demo_open_socks: "ep_socks demo_open 7 = Some 0" "ep_socks demo_open 8 = None"
  by (simp_all add: demo_eval)

theorem socket_move_transfers_witness:
  "socket_descriptor 8 (socket_move_ctor 8 7 demo_sockets) = Some 0 \<and> socket_close 7 (socket_move_ctor 8 7 demo_sockets) = None"
  using socket_move_transfers [of demo_sockets 8 7 "socket_move_ctor 8 7 demo_sockets"] reach_inv [OF demo_open_reach polite_quiet]
    demo_open_socks
  by (simp add: demo_sockets_def socket_descriptor_def)

text \<open>
  C14. A socket must be closed before its variable is destroyed or assigned to: its destructor and the move
  assignment do not release the descriptor, and whatever requests and rounds follow, it stays allocated and
  counted, so \<open>engine::run\<close> never returns.
\<close>

theorem unclosed_socket_keeps_engine:
  assumes "polite epoll_rx h" and "ep_reach h (sk_mux sk)" and "socket_descriptor s sk = Some d"
    and "sk' = socket_dtor s sk \<or> (\<exists>src. src \<noteq> s \<and> sk' = socket_move_assign s src sk)"
    and "mux_steps epoll_rx h (sk_mux sk') st"
  shows "d \<in> dom (ep_descs st) \<and> 0 < ep_ref st \<and>
     (\<forall>cl rounds en st' en'. polite_client cl \<and> (\<forall>(before, evs, now)\<in>set rounds. \<forall>d st. events_live (evs d st) st) \<longrightarrow>
        engine_run cl rounds st en \<noteq> Some (True, st', en'))"
proof -
  have i: "ep_inv False [d] [] {#} (sk_mux sk')"
    using dropped_hand [OF reach_inv [OF assms(2,1)] _ assms(4)] assms(3) by (simp add: socket_descriptor_def)
  have live: "d \<in> dom (ep_descs x) \<and> 0 < ep_ref x" if j: "ep_inv False [d] [] {#} x" for x
  proof -
    have "d \<in> dom (ep_descs x)" using ep_inv_live [OF j] by auto
    then have "0 < card (dom (ep_descs x))" using ep_invD(1) [OF j] by (auto simp: card_gt_0_iff)
    then show ?thesis using \<open>d \<in> dom (ep_descs x)\<close> ep_invD(6) [OF j] by simp
  qed
  have st: "ep_inv False [d] [] {#} st" by (rule erx.mux_steps_inv [OF assms(5,1) i])
  have "engine_run cl rounds st en \<noteq> Some (True, st', en')"
    if c: "polite_client cl" and r: "\<forall>(before, evs, now)\<in>set rounds. \<forall>d st. events_live (evs d st) st"
    for cl rounds en st' en'
  proof
    assume "engine_run cl rounds st en = Some (True, st', en')"
    from engine_run_mux [OF this c st r] have "ep_inv False [d] [] {#} st'" "ep_ref st' = 0" by auto
    then show False using live [of st'] by simp
  qed
  then show ?thesis using live [OF st] by blast
qed

theorem unclosed_socket_keeps_engine_witness:
  "0 < ep_ref (sk_mux (socket_dtor 7 demo_sockets))"
  using unclosed_socket_keeps_engine [OF polite_quiet _ _ _ Step_None, of demo_sockets 7 0 "socket_dtor 7 demo_sockets"]
    demo_open_reach demo_open_socks
  by (simp add: demo_sockets_def socket_descriptor_def)

end
