(* ===== verification/Address.thy ===== *)
theory Address
  imports Tcode_Prelude Time_Util
begin

text \<open>
  Socket addresses (\<open>src/io/ip/address.cpp\<close>, \<open>src/io/uds/address.cpp\<close>) as the bytes the system calls
  get, and the waits of \<open>src/io/ip/simple_select.cpp\<close>. The layouts are those of Linux: the family in
  the first two bytes, then the port in network order; an IPv4 address at offset 4, an IPv6 address at
  offset 8, the path of a Unix address at offset 2. Members a constructor does not set keep whatever was
  in the memory, the argument \<open>g\<close>. The functions of the resolver are arguments: \<open>pton\<close> reads an address in
  text form, \<open>nameinfo\<close> writes the one of a \<open>sockaddr\<close>, \<open>resolve\<close> is \<open>getaddrinfo\<close>.
\<close>

section \<open>Layout\<close>

definition AF_UNIX :: nat where "AF_UNIX = 1"
definition AF_INET :: nat where "AF_INET = 2"
definition AF_INET6 :: nat where "AF_INET6 = 10"

definition sizeof_sockaddr_in :: nat where "sizeof_sockaddr_in = 16"
definition sizeof_sockaddr_in6 :: nat where "sizeof_sockaddr_in6 = 28"
definition sizeof_sockaddr_storage :: nat where "sizeof_sockaddr_storage = 128"
definition sizeof_sun_path :: nat where "sizeof_sun_path = 108"

lemmas sizes = sizeof_sockaddr_in_def sizeof_sockaddr_in6_def sizeof_sockaddr_storage_def sizeof_sun_path_def
lemmas families = AF_UNIX_def AF_INET_def AF_INET6_def

text \<open>\<open>htons\<close> and \<open>ntohs\<close>, on the bytes in memory.\<close>

definition htons :: "nat \<Rightarrow> byte list" where
  "htons p = [word_of_nat (p div 256 mod 256), word_of_nat (p mod 256)]"

definition ntohs :: "byte list \<Rightarrow> nat" where
  "ntohs bs = 256 * unat (bs ! 0) + unat (bs ! 1)"

lemma ntohs_htons: "p < 2 ^ 16 \<Longrightarrow> ntohs (htons p) = p"
proof -
  assume "p < 2 ^ 16"
  then have "p div 256 < 256" by (simp add: less_mult_imp_div_less)
  then show ?thesis by (simp add: ntohs_def htons_def unat_byte_mod unat_of_nat)
qed

record address =
  a_storage :: "byte list"
  a_len :: nat

text \<open>The \<open>sockaddr_in\<close> the constructors fill in.\<close>

definition sockaddr_in :: "byte list \<Rightarrow> nat \<Rightarrow> byte list" where
  "sockaddr_in ip port = le_bytes 2 AF_INET @ htons port @ ip @ replicate 8 0"

section \<open>Constructors\<close>

definition address_ctor :: "byte list \<Rightarrow> address" where
  "address_ctor g = \<lparr>a_storage = g, a_len = sizeof_sockaddr_storage\<rparr>"

definition address_any :: "int \<Rightarrow> byte list \<Rightarrow> address" where
  "address_any port g =
     \<lparr>a_storage = put_at 0 (sockaddr_in (replicate 4 0) (to_u16 port)) g, a_len = sizeof_sockaddr_in\<rparr>"

text \<open>
  \<open>address( struct sockaddr*, int )\<close>: \<open>src\<close> is the memory behind the pointer. The length is not checked; a
  copy beyond the storage or the source is \<^const>\<open>None\<close>.
\<close>

definition address_native :: "byte list \<Rightarrow> int \<Rightarrow> byte list \<Rightarrow> address option" where
  "address_native src len g =
     (let n = to_u32 len
      in if n \<le> sizeof_sockaddr_storage \<and> n \<le> length src
         then Some \<lparr>a_storage = put_at 0 (take n src) g, a_len = n\<rparr>
         else None)"

text \<open>The result of \<open>inet_pton\<close> is not looked at; on failure the address stays zero.\<close>

definition address_text :: "(string \<Rightarrow> byte list option) \<Rightarrow> string \<Rightarrow> nat \<Rightarrow> byte list \<Rightarrow> address" where
  "address_text pton ip port g =
     (let addr = (case pton ip of None \<Rightarrow> replicate 4 0 | Some b \<Rightarrow> b)
      in \<lparr>a_storage = put_at 0 (sockaddr_in addr port) g, a_len = sizeof_sockaddr_in\<rparr>)"

text \<open>
  \<open>detail::inet_pton\<close>: the first address the resolver finds. \<open>resolve\<close> gets the family, the name and the
  port (in the source as decimal text) and answers with an error or with a list of \<open>sockaddr\<close>.
\<close>

definition detail_inet_pton ::
  "(nat \<Rightarrow> string \<Rightarrow> int \<Rightarrow> byte list list option) \<Rightarrow> nat \<Rightarrow> string \<Rightarrow> int \<Rightarrow> address \<Rightarrow> (bool \<times> address) option" where
  "detail_inet_pton resolve af addr port out =
     (case resolve af addr port of
        None \<Rightarrow> Some (False, out)
      | Some [] \<Rightarrow> Some (False, out)
      | Some (res # _) \<Rightarrow> map_option (\<lambda>a. (True, a)) (address_native res (int (length res)) (a_storage out)))"

definition address_dns ::
  "(nat \<Rightarrow> string \<Rightarrow> int \<Rightarrow> byte list list option) \<Rightarrow> nat \<Rightarrow> string \<Rightarrow> nat \<Rightarrow> byte list \<Rightarrow> address option" where
  "address_dns resolve af domain port g = map_option snd (detail_inet_pton resolve af domain (int port) (address_ctor g))"

fun native_addresses :: "byte list list \<Rightarrow> byte list \<Rightarrow> address list option" where
  "native_addresses [] g = Some []"
| "native_addresses (res # rest) g =
     Option.bind (address_native res (int (length res)) g) (\<lambda>a.
     map_option ((#) a) (native_addresses rest g))"

definition from_dns ::
  "(nat \<Rightarrow> string \<Rightarrow> int \<Rightarrow> byte list list option) \<Rightarrow> nat \<Rightarrow> string \<Rightarrow> nat \<Rightarrow> byte list \<Rightarrow> address list option" where
  "from_dns resolve af domain port g =
     (case resolve af domain (int port) of
        None \<Rightarrow> Some []
      | Some rs \<Rightarrow> native_addresses rs g)"

section \<open>Accessors\<close>

definition address_family :: "address \<Rightarrow> nat" where
  "address_family a = le_val (seg 0 2 (a_storage a))"

definition address_port :: "address \<Rightarrow> nat" where
  "address_port a = ntohs (seg 2 2 (a_storage a))"

text \<open>\<open>detail::inet_ntop\<close>: \<open>src\<close> is the memory behind the pointer, \<open>storage\<close> the local variable as it was.\<close>

definition detail_inet_ntop ::
  "(byte list \<Rightarrow> string option) \<Rightarrow> byte list \<Rightarrow> nat \<Rightarrow> byte list \<Rightarrow> string \<Rightarrow> string option" where
  "detail_inet_ntop nameinfo storage af src dst =
     (let answer = (\<lambda>s. case nameinfo s of None \<Rightarrow> dst | Some text \<Rightarrow> text)
      in if af = AF_INET
         then if length src < 4 then None
              else Some (answer (take sizeof_sockaddr_in (put_at 4 (take 4 src) (put_at 0 (le_bytes 2 AF_INET) storage))))
         else if af = AF_INET6
         then if length src < 16 then None
              else Some (answer (take sizeof_sockaddr_in6 (put_at 8 (take 16 src) (put_at 0 (le_bytes 2 AF_INET6) storage))))
         else Some dst)"

definition address_ip :: "(byte list \<Rightarrow> string option) \<Rightarrow> byte list \<Rightarrow> address \<Rightarrow> string option" where
  "address_ip nameinfo storage a =
     detail_inet_ntop nameinfo storage (address_family a) (drop 4 (a_storage a)) []"

section \<open>Lemmas\<close>

lemma length_htons [simp]: "length (htons p) = 2"
  by (simp add: htons_def)

lemma length_sockaddr_in [simp]: "length ip = 4 \<Longrightarrow> length (sockaddr_in ip port) = 16"
  by (simp add: sockaddr_in_def)

lemma take_put_at: "length ys = n \<Longrightarrow> take n (put_at 0 ys xs) = ys"
  by (simp add: put_at_def)

lemma seg_put_prefix: "i + n \<le> length ys \<Longrightarrow> seg i n (put_at 0 ys xs) = seg i n ys"
  by (simp add: seg_def put_at_def)

lemma sockaddr_in_parts:
  assumes "length ip = 4"
  shows "seg 0 2 (sockaddr_in ip port) = le_bytes 2 AF_INET" and "seg 2 2 (sockaddr_in ip port) = htons port"
    and "seg 4 4 (sockaddr_in ip port) = ip"
  using assms by (simp_all add: sockaddr_in_def seg_def)

lemma in_address:
  assumes "a_storage a = put_at 0 (sockaddr_in ip port) g" and "length ip = 4" and "port < 2 ^ 16"
  shows "address_family a = AF_INET" and "address_port a = port" and "seg 4 4 (a_storage a) = ip"
proof -
  have "seg 0 2 (a_storage a) = le_bytes 2 AF_INET" "seg 2 2 (a_storage a) = htons port" "seg 4 4 (a_storage a) = ip"
    using assms(1,2) by (simp_all add: seg_put_prefix sockaddr_in_parts del: seg_0_take)
  then show "address_family a = AF_INET" "address_port a = port" "seg 4 4 (a_storage a) = ip"
    using assms(3) by (simp_all add: address_family_def address_port_def ntohs_htons le_val_le_bytes families del: seg_0_take)
qed

lemma ntop_inet:
  assumes "\<And>s. length s = 16 \<Longrightarrow> take 2 s = le_bytes 2 AF_INET \<Longrightarrow> nameinfo s = Some (shown (seg 4 4 s))"
    and "4 \<le> length src" and "length storage = 128"
  shows "detail_inet_ntop nameinfo storage AF_INET src dst = Some (shown (take 4 src))"
proof -
  let ?s = "put_at 4 (take 4 src) (put_at 0 (le_bytes 2 AF_INET) storage)"
  have l: "length (take 16 ?s) = 16" using assms(2,3) by (simp add: put_at_def)
  have "take 2 (take 16 ?s) = le_bytes 2 AF_INET" using assms(3) by (simp add: put_at_def)
  moreover have "seg 4 4 (take 16 ?s) = take 4 src" using assms(2,3) by (simp add: put_at_def seg_def)
  ultimately show ?thesis
    using assms(1) [OF l] assms(2) by (simp add: detail_inet_ntop_def sizes)
qed

text \<open>An address that could not be read is the one that binds every interface, with the same port.\<close>

lemma bad_text_is_any:
  "pton ip = None \<Longrightarrow> port < 2 ^ 16 \<Longrightarrow> address_text pton ip port g = address_any (int port) g"
  by (simp add: address_text_def address_any_def to_u16_def)

text \<open>
  For an IPv6 address \<open>ip\<close> hands over the bytes at the offset of an IPv4 address: the flow information and
  the first twelve bytes of the address.
\<close>

lemma ip_of_inet6_reads_flowinfo:
  assumes "a_storage a = le_bytes 2 AF_INET6 @ htons port @ flow @ addr @ rest"
    and "length flow = 4" and "length addr = 16" and "length storage = 128"
  shows "address_ip nameinfo storage a =
     Some (case nameinfo (take 28 (put_at 8 (flow @ take 12 addr) (put_at 0 (le_bytes 2 AF_INET6) storage))) of
             None \<Rightarrow> [] | Some text \<Rightarrow> text)"
proof -
  have f: "address_family a = AF_INET6"
    using assms(1) by (simp add: address_family_def le_val_le_bytes families)
  have d: "drop 4 (a_storage a) = flow @ addr @ rest" using assms(1) by simp
  have "take 16 (flow @ addr @ rest) = flow @ take 12 addr" using assms(2,3) by simp
  then show ?thesis
    using assms(2,3) by (simp add: address_ip_def f d detail_inet_ntop_def sizes families)
qed

lemma address_native_ok:
  "length src \<le> 128 \<Longrightarrow> address_native src (int (length src)) g = Some \<lparr>a_storage = put_at 0 src g, a_len = length src\<rparr>"
  by (simp add: address_native_def to_u32_def sizes)

lemma native_addresses_ok:
  "\<forall>r\<in>set rs. length r \<le> 128 \<Longrightarrow>
     native_addresses rs g = Some (map (\<lambda>r. \<lparr>a_storage = put_at 0 r g, a_len = length r\<rparr>) rs)"
  by (induction rs) (simp_all add: address_native_ok)

lemma from_dns_in_order:
  assumes "resolve af domain (int port) = Some rs" and "\<forall>r\<in>set rs. length r \<le> 128"
  shows "\<exists>as. from_dns resolve af domain port g = Some as \<and> map (\<lambda>a. take (a_len a) (a_storage a)) as = rs"
  using assms by (auto simp: from_dns_def native_addresses_ok comp_def take_put_at)

lemma dns_failure_keeps_memory:
  "resolve af domain (int port) = None \<Longrightarrow> address_dns resolve af domain port g = Some \<lparr>a_storage = g, a_len = 128\<rparr>"
  by (simp add: address_dns_def detail_inet_pton_def address_ctor_def sizes)

lemma long_sockaddr_overflows: "0 \<le> len \<Longrightarrow> len < 2 ^ 31 \<Longrightarrow> 128 < len \<Longrightarrow> address_native src len g = None"
  by (simp add: address_native_def to_u32_def sizes Let_def nat_le_iff)

section \<open>Unix addresses\<close>

record uds_address =
  u_storage :: "byte list"
  u_len :: nat

definition uds_ctor :: "byte list \<Rightarrow> uds_address" where
  "uds_ctor g = \<lparr>u_storage = put_at 0 (le_bytes 2 AF_UNIX) g, u_len = 2 + sizeof_sun_path\<rparr>"

definition uds_native :: "byte list \<Rightarrow> uds_address" where
  "uds_native addr = \<lparr>u_storage = addr, u_len = 2 + sizeof_sun_path\<rparr>"

definition uds_copy :: "uds_address \<Rightarrow> byte list \<Rightarrow> uds_address" where
  "uds_copy a g = \<lparr>u_storage = put_at 0 (take (u_len a) (u_storage a)) g, u_len = u_len a\<rparr>"

text \<open>\<open>strcpy\<close> writes the characters and the terminator, wherever the array ends.\<close>

definition uds_from_file :: "byte list \<Rightarrow> byte list \<Rightarrow> uds_address option" where
  "uds_from_file file g =
     (if length file + 1 \<le> sizeof_sun_path
      then Some \<lparr>u_storage = put_at 2 (file @ [0]) (put_at 0 (le_bytes 2 AF_UNIX) g), u_len = 2 + sizeof_sun_path\<rparr>
      else None)"

definition uds_file :: "uds_address \<Rightarrow> byte list option" where
  "uds_file a =
     (let path = seg 2 sizeof_sun_path (u_storage a)
      in if 0 \<in> set path then Some (takeWhile (\<lambda>c. c \<noteq> 0) path) else None)"

lemma uds_path:
  assumes "length path + 1 \<le> sizeof_sun_path" and "length g = 110"
  shows "seg 2 sizeof_sun_path (put_at 2 (path @ [0]) (put_at 0 (le_bytes 2 AF_UNIX) g)) = path @ [0] @ drop (3 + length path) g"
  using assms by (simp add: put_at_def seg_def sizes) (simp add: numeral_eq_Suc)

lemma c_string_read: "0 \<notin> set path \<Longrightarrow> takeWhile (\<lambda>c. c \<noteq> 0) (path @ 0 # rest) = path"
  by (induction path) auto

section \<open>Waiting for one socket\<close>

text \<open>
  \<open>selector::wait_for_read\<close> and \<open>wait_for_write\<close>, which differ in the set they watch. \<open>%\<close> and \<open>*\<close> have the same
  precedence, so the microseconds are \<open>(t % 1000) * 1000\<close>. The results of \<open>select\<close> come from a script with
  \<open>errno\<close>; after its end the call would go on waiting. \<open>isset\<close> is the final \<open>FD_ISSET\<close>.
\<close>

definition wait_timeval :: "timespan \<Rightarrow> int \<times> int" where
  "wait_timeval t = (to_i32 (total_seconds t), total_microseconds t smod 1000 * 1000)"

fun select_loop :: "(int \<times> int) list \<Rightarrow> bool option" where
  "select_loop [] = None"
| "select_loop ((ret, errno) # rest) =
     (if ret > 0 then Some True
      else if ret = - 1 \<and> errno = EINTR then select_loop rest
      else Some False)"

definition wait_for_read :: "int \<Rightarrow> (int \<times> int) list \<Rightarrow> bool \<Rightarrow> bool option" where
  "wait_for_read fd script isset =
     (if fd = - 1 then Some False else map_option (\<lambda>ready. ready \<and> isset) (select_loop script))"

definition wait_for_write :: "int \<Rightarrow> (int \<times> int) list \<Rightarrow> bool \<Rightarrow> bool option" where
  "wait_for_write fd script isset =
     (if fd = - 1 then Some False else map_option (\<lambda>ready. ready \<and> isset) (select_loop script))"

lemma milli_exact_iff: "d div 1000000 * 1000000 + d mod 1000 * 1000 = d \<longleftrightarrow> 1000000 dvd d" for d :: int
proof -
  have d: "d = d div 1000000 * 1000000 + d mod 1000000" by simp
  have k: "d mod 1000 = d mod 1000000 mod 1000" by (simp add: mod_mod_cancel)
  have "d mod 1000 * 1000 = d mod 1000000 \<longleftrightarrow> d mod 1000000 = 0"
  proof
    assume "d mod 1000 * 1000 = d mod 1000000"
    then have "d mod 1000 = 0" using k by (metis mod_mult_self2_is_0)
    then show "d mod 1000000 = 0" using \<open>d mod 1000 * 1000 = d mod 1000000\<close> by simp
  qed (simp add: k)
  moreover have "d div 1000000 * 1000000 + d mod 1000 * 1000 = d \<longleftrightarrow> d mod 1000 * 1000 = d mod 1000000"
    using d by linarith
  ultimately show ?thesis by (simp add: dvd_eq_mod_eq_0)
qed

lemma select_loop_skips: "select_loop (replicate n (- 1, EINTR) @ (ret, errno) # rest) =
    (if ret = - 1 \<and> errno = EINTR then select_loop rest else Some (ret > 0))"
  by (induction n) auto

section \<open>Properties\<close>

text \<open>
  C23. An address made from a text and a port reports that port, the family of IPv4 and, through a
  resolver whose functions are inverse to each other, the text it was made from; so does the address that
  is made from its own \<open>sockaddr\<close>, which is how it comes back from the system.
\<close>

theorem address_round_trip:
  assumes "pton ip = Some b" and "length b = 4" and "port < 2 ^ 16"
    and "length g = 128" and "length g' = 128" and "length storage = 128"
    and "\<And>s. length s = 16 \<Longrightarrow> take 2 s = le_bytes 2 AF_INET \<Longrightarrow> nameinfo s = Some (shown (seg 4 4 s))"
    and "shown b = ip"
  shows "\<exists>a'. address_native (a_storage (address_text pton ip port g)) (int (a_len (address_text pton ip port g))) g' = Some a' \<and>
     (\<forall>a \<in> {address_text pton ip port g, a'}. address_port a = port \<and> address_family a = AF_INET \<and> a_len a = 16 \<and>
        address_ip nameinfo storage a = Some ip)"
proof -
  let ?a = "address_text pton ip port g"
  have s: "a_storage ?a = put_at 0 (sockaddr_in b port) g" and l: "a_len ?a = 16"
    using assms(1) by (simp_all add: address_text_def sizes)
  let ?a' = "\<lparr>a_storage = put_at 0 (sockaddr_in b port) g', a_len = 16\<rparr>"
  have len: "length (a_storage ?a) = 128" using s assms(2,4) by (simp add: length_put_at)
  have "address_native (a_storage ?a) (int (a_len ?a)) g' = Some ?a'"
    using s l len assms(2) by (simp add: address_native_def to_u32_def sizes take_put_at)
  moreover have ip: "address_ip nameinfo storage a = Some ip"
    if "a_storage a = put_at 0 (sockaddr_in b port) h" "length h = 128" for a h
  proof -
    note f = in_address [OF that(1) assms(2,3)]
    have l: "4 \<le> length (drop 4 (a_storage a))" using that assms(2) by (simp add: length_put_at)
    have "detail_inet_ntop nameinfo storage AF_INET (drop 4 (a_storage a)) [] = Some (shown (take 4 (drop 4 (a_storage a))))"
      by (rule ntop_inet [where nameinfo = nameinfo and shown = shown, OF assms(7) l assms(6)])
    then show ?thesis using f(1,3) assms(8) by (simp add: address_ip_def seg_def)
  qed
  ultimately show ?thesis
    using in_address [OF s assms(2,3)] in_address [of ?a', OF _ assms(2,3)] ip [OF s assms(4)] ip [of ?a', OF _ assms(5)] l
    by auto
qed

text \<open>A resolver for one address, to test the hypotheses on.\<close>

definition demo_pton :: "string \<Rightarrow> byte list option" where
  "demo_pton ip = (if ip = ''127.0.0.1'' then Some [127, 0, 0, 1] else None)"

definition demo_show4 :: "byte list \<Rightarrow> string" where
  "demo_show4 b = (if b = [127, 0, 0, 1] then ''127.0.0.1'' else ''other'')"

definition demo_nameinfo :: "byte list \<Rightarrow> string option" where
  "demo_nameinfo s = Some (demo_show4 (seg 4 4 s))"

theorem address_round_trip_witness:
  "address_port (address_text demo_pton ''127.0.0.1'' 8080 (replicate 128 7)) = 8080 \<and>
   address_ip demo_nameinfo (replicate 128 9) (address_text demo_pton ''127.0.0.1'' 8080 (replicate 128 7)) = Some ''127.0.0.1''"
  using address_round_trip [of demo_pton "''127.0.0.1''" "[127, 0, 0, 1]" 8080 "replicate 128 7" "replicate 128 0"
      "replicate 128 9" demo_nameinfo demo_show4]
  by (auto simp: demo_pton_def demo_show4_def demo_nameinfo_def)

text \<open>
  The path of a Unix address is read back as it was given, if it has room with its terminator; a longer one
  is written beyond the array.
\<close>

theorem uds_path_round_trip:
  assumes "0 \<notin> set path" and "length g = 110"
  shows "if length path < 108 then Option.bind (uds_from_file path g) uds_file = Some path else uds_from_file path g = None"
proof (cases "length path < 108")
  case True
  then have "uds_file \<lparr>u_storage = put_at 2 (path @ [0]) (put_at 0 (le_bytes 2 AF_UNIX) g), u_len = 2 + sizeof_sun_path\<rparr> = Some path"
    using assms uds_path [of path g] by (simp add: uds_file_def sizes c_string_read Let_def)
  then show ?thesis using True by (simp add: uds_from_file_def sizes)
qed (simp add: uds_from_file_def sizes)

theorem uds_path_round_trip_witness:
  "Option.bind (uds_from_file [47, 116] (replicate 110 5)) uds_file = Some [47, 116]"
  using uds_path_round_trip [of "[47, 116]" "replicate 110 5"] by simp

text \<open>
  The time limit the selector hands to \<open>select\<close> is the one it was asked for exactly if that is a whole
  number of seconds; a wait of fewer milliseconds than a second is no wait at all.
\<close>

theorem selector_wait_exact_iff:
  assumes "0 \<le> span_delta t" and "span_delta t < 2 ^ 31 * 10 ^ 6"
  shows "(fst (wait_timeval t) * 10 ^ 6 + snd (wait_timeval t) = span_delta t \<longleftrightarrow> 10 ^ 6 dvd span_delta t) \<and>
     (span_delta t < 10 ^ 6 \<longrightarrow> 1000 dvd span_delta t \<longrightarrow> wait_timeval t = (0, 0))"
proof -
  let ?d = "span_delta t"
  have "?d < 2147483648 * 1000000" using assms(2) by simp
  then have "?d div 1000000 < 2147483648" by presburger
  then have "?d div 1000000 < 2 ^ 31" by simp
  then have w: "wait_timeval t = (?d div 1000000, ?d mod 1000 * 1000)"
    using assms(1) by (simp add: wait_timeval_def total_seconds_def total_microseconds_def to_i32_id
        sdiv_nonneg smod_nonneg pos_imp_zdiv_nonneg_iff)
  moreover have "?d div 1000000 * 1000000 + ?d mod 1000 * 1000 = ?d \<longleftrightarrow> 1000000 dvd ?d"
    by (rule milli_exact_iff)
  moreover have "wait_timeval t = (0, 0)" if "?d < 1000000" "1000 dvd ?d"
    using that assms(1) w by simp
  ultimately show ?thesis using w by simp
qed

theorem selector_wait_exact_iff_witness:
  "wait_timeval (mk_span 500000) = (0, 0)"
  using selector_wait_exact_iff [of "mk_span 500000"] by (simp add: mk_span_def to_i64_def)

end
