(* ===== verification/Hangul.thy ===== *)
theory Hangul
  imports Tcode_Prelude
begin

text \<open>
  The Hangul helpers of \<open>src/string.cpp\<close>: which characters are precomposed syllables, and the three letters of
  a syllable. They are compiled on Windows only, where \<open>wchar_t\<close> is an unsigned 16 bit integer. The tables are
  string literals, so each has a terminating zero behind its letters.
\<close>

definition ChoSungTable :: "int list" where
  "ChoSungTable =
     [0x3131, 0x3132, 0x3134, 0x3137, 0x3138, 0x3139, 0x3141, 0x3142, 0x3143, 0x3145, 0x3146, 0x3147, 0x3148,
      0x3149, 0x314A, 0x314B, 0x314C, 0x314D, 0x314E] @ [0]"

definition JungSungTable :: "int list" where
  "JungSungTable =
     [0x314F, 0x3150, 0x3151, 0x3152, 0x3153, 0x3154, 0x3155, 0x3156, 0x3157, 0x3158, 0x3159, 0x315A, 0x315B,
      0x315C, 0x315D, 0x315E, 0x315F, 0x3160, 0x3161, 0x3162, 0x3163] @ [0]"

definition JongSungTable :: "int list" where
  "JongSungTable =
     [0x3131, 0x3132, 0x3133, 0x3134, 0x3135, 0x3136, 0x3137, 0x3139, 0x313A, 0x313B, 0x313C, 0x313D, 0x313E,
      0x313F, 0x3140, 0x3141, 0x3142, 0x3144, 0x3145, 0x3146, 0x3147, 0x3148, 0x314A, 0x314B, 0x314C, 0x314D, 0x314E] @ [0]"

definition HangulUnicodeStart :: int where "HangulUnicodeStart = 0xAC00"
definition HangulUnicodeEnd :: int where "HangulUnicodeEnd = 0xD79F"

definition is_hangul :: "int \<Rightarrow> bool" where
  "is_hangul ch = (if ch \<ge> HangulUnicodeStart \<and> ch \<le> HangulUnicodeEnd then True else False)"

record hangul =
  cho_sung :: int
  jung_sung :: int
  jong_sung :: int

text \<open>An index outside the array is \<^const>\<open>None\<close>.\<close>

definition table_at :: "int list \<Rightarrow> int \<Rightarrow> int option" where
  "table_at table i = (if 0 \<le> i \<and> i < int (length table) then Some (table ! nat i) else None)"

definition extract_hangul :: "int \<Rightarrow> hangul option" where
  "extract_hangul ch =
     (let unicodeIndex = ch - HangulUnicodeStart;
          jongsungIndex = unicodeIndex smod 28; unicodeIndex = unicodeIndex sdiv 28;
          jungsungIndex = unicodeIndex smod 21; unicodeIndex = unicodeIndex sdiv 21;
          chosungIndex = unicodeIndex
      in Option.bind (table_at ChoSungTable chosungIndex) (\<lambda>cho.
         Option.bind (table_at JungSungTable jungsungIndex) (\<lambda>jung.
         Option.bind (table_at JongSungTable jongsungIndex) (\<lambda>jong.
         Some \<lparr>cho_sung = cho, jung_sung = jung, jong_sung = jong\<rparr>))))"

section \<open>Lemmas\<close>

lemma table_lengths: "length ChoSungTable = 20" "length JungSungTable = 22" "length JongSungTable = 28"
  by (simp_all add: ChoSungTable_def JungSungTable_def JongSungTable_def)

lemma tables_distinct: "distinct ChoSungTable" "distinct JungSungTable" "distinct JongSungTable"
  by (simp_all add: ChoSungTable_def JungSungTable_def JongSungTable_def)

text \<open>The code of a syllable with given numbers of its letters.\<close>

definition syllable :: "nat \<Rightarrow> nat \<Rightarrow> nat \<Rightarrow> int" where
  "syllable l v f = 0xAC00 + (int l * 21 + int v) * 28 + int f"

lemma syllable_cases:
  assumes "0xAC00 \<le> ch" and "ch \<le> 0xD7A3"
  obtains l v f where "ch = syllable l v f" and "l < 19" and "v < 21" and "f < 28"
proof
  let ?i = "ch - 0xAC00"
  show "nat (?i div 588) < 19" "nat (?i div 28 mod 21) < 21" "nat (?i mod 28) < 28"
    using assms by (simp_all add: nat_less_iff)
  have "?i div 588 = ?i div 28 div 21" using zdiv_zmult2_eq [of 21 ?i 28] by simp
  then show "ch = syllable (nat (?i div 588)) (nat (?i div 28 mod 21)) (nat (?i mod 28))"
    using assms by (simp add: syllable_def pos_imp_zdiv_nonneg_iff)
qed

lemma split_number:
  fixes x y n :: int
  assumes "0 \<le> x" and "0 \<le> y" and "y < n"
  shows "(x * n + y) smod n = y" and "(x * n + y) sdiv n = x"
  using assms by (simp_all add: smod_nonneg sdiv_nonneg)

lemma extract_syllable:
  assumes "l < 19" and "v < 21" and "f < 28"
  shows "extract_hangul (syllable l v f) =
     Some \<lparr>cho_sung = ChoSungTable ! l, jung_sung = JungSungTable ! v, jong_sung = JongSungTable ! f\<rparr>"
proof -
  let ?i = "(int l * 21 + int v) * 28 + int f"
  have s: "syllable l v f - HangulUnicodeStart = ?i" by (simp add: syllable_def HangulUnicodeStart_def)
  have d: "?i smod 28 = int f" "?i sdiv 28 = int l * 21 + int v"
    using assms(3) by (intro split_number; simp)+
  have e: "(int l * 21 + int v) smod 21 = int v" "(int l * 21 + int v) sdiv 21 = int l"
    using assms(2) by (intro split_number; simp)+
  show ?thesis
    unfolding extract_hangul_def Let_def s d e using assms by (simp add: table_at_def table_lengths)
qed

text \<open>
  The letters determine the syllable: on all 11172 precomposed syllables \<open>extract_hangul\<close> stays inside its
  tables and no two of them give the same letters. The first two letters are right; the third is not: the table has
  no entry for a missing final consonant, so every final is read one place too far, a syllable without a final
  gets one, and the last final is read as the terminator.
\<close>

theorem hangul_letters:
  assumes "l < 19" and "v < 21" and "f < 28"
  shows "\<exists>h. extract_hangul (syllable l v f) = Some h \<and> cho_sung h = ChoSungTable ! l \<and> jung_sung h = JungSungTable ! v \<and>
     jong_sung h \<noteq> (if f = 0 then 0 else JongSungTable ! (f - 1)) \<and>
     (\<forall>ch. 0xAC00 \<le> ch \<longrightarrow> ch \<le> 0xD7A3 \<longrightarrow> extract_hangul ch = Some h \<longrightarrow> ch = syllable l v f)"
proof -
  let ?h = "\<lparr>cho_sung = ChoSungTable ! l, jung_sung = JungSungTable ! v, jong_sung = JongSungTable ! f\<rparr>"
  have "JongSungTable ! 0 \<noteq> 0" by (simp add: JongSungTable_def)
  then have "JongSungTable ! f \<noteq> (if f = 0 then 0 else JongSungTable ! (f - 1))"
    using assms(3) tables_distinct(3) by (auto simp: nth_eq_iff_index_eq table_lengths)
  moreover have "ch = syllable l v f" if ch: "0xAC00 \<le> ch" "ch \<le> 0xD7A3" "extract_hangul ch = Some ?h" for ch
  proof -
    obtain l' v' f' where s: "ch = syllable l' v' f'" "l' < 19" "v' < 21" "f' < 28"
      by (rule syllable_cases [OF ch(1,2)])
    have "ChoSungTable ! l' = ChoSungTable ! l" "JungSungTable ! v' = JungSungTable ! v" "JongSungTable ! f' = JongSungTable ! f"
      using ch(3) s extract_syllable [OF s(2-4)] by simp_all
    then have "l' = l" "v' = v" "f' = f"
      using s(2-4) assms tables_distinct by (simp_all add: nth_eq_iff_index_eq table_lengths)
    then show ?thesis using s(1) by simp
  qed
  ultimately show ?thesis using extract_syllable [OF assms] by (intro exI [of _ ?h]) auto
qed

theorem hangul_letters_witness:
  "\<exists>h. extract_hangul (syllable 0 0 0) = Some h \<and> jong_sung h \<noteq> 0"
  using hangul_letters [of 0 0 0] by auto

lemma is_hangul_misses_last: "is_hangul ch \<longleftrightarrow> 0xAC00 \<le> ch \<and> ch \<le> 0xD7A3 - 4"
  by (simp add: is_hangul_def HangulUnicodeStart_def HangulUnicodeEnd_def)

end
