(* ===== verification/Pipeline.thy ===== *)
theory Pipeline
  imports Tcode_Prelude
begin

text \<open>
  The filter chain of \<open>src/io/ip/tcp/pipeline/pipeline.cpp\<close> and \<open>filter.cpp\<close>: filters are nodes of
  a store with the pointers \<open>_inbound\<close> and \<open>_outbound\<close>, the pipeline holds the entry and a flag.
  \<^const>\<open>None\<close> is the access to a deleted filter. A chain that represents a list of filters is a
  doubly linked segment; the edits are shown to edit that list.
\<close>

section \<open>The program\<close>

record filter =
  f_pipeline :: bool
  f_inbound :: "nat option"
  f_outbound :: "nat option"

record pipeline =
  pl_filters :: "nat \<Rightarrow> filter option"
  pl_inbound :: "nat option"
  pl_flag :: int

definition filter_ctor :: filter where
  "filter_ctor = \<lparr>f_pipeline = False, f_inbound = None, f_outbound = None\<rparr>"

definition pipeline_ctor :: "(nat \<Rightarrow> filter option) \<Rightarrow> pipeline" where
  "pipeline_ctor heap = \<lparr>pl_filters = heap, pl_inbound = None, pl_flag = 0\<rparr>"

definition upd_filter :: "nat \<Rightarrow> (filter \<Rightarrow> filter) \<Rightarrow> pipeline \<Rightarrow> pipeline option" where
  "upd_filter f g pl =
     (case pl_filters pl f of
        None \<Rightarrow> None
      | Some x \<Rightarrow> Some (pl\<lparr>pl_filters := (pl_filters pl)(f \<mapsto> g x)\<rparr>))"

definition filter_inbound :: "nat \<Rightarrow> pipeline \<Rightarrow> nat option option" where
  "filter_inbound f pl = map_option f_inbound (pl_filters pl f)"

definition filter_outbound :: "nat \<Rightarrow> pipeline \<Rightarrow> nat option option" where
  "filter_outbound f pl = map_option f_outbound (pl_filters pl f)"

definition set_inbound :: "nat option \<Rightarrow> nat \<Rightarrow> pipeline \<Rightarrow> pipeline option" where
  "set_inbound v f = upd_filter f (\<lambda>x. x\<lparr>f_inbound := v\<rparr>)"

definition set_outbound :: "nat option \<Rightarrow> nat \<Rightarrow> pipeline \<Rightarrow> pipeline option" where
  "set_outbound v f = upd_filter f (\<lambda>x. x\<lparr>f_outbound := v\<rparr>)"

definition set_pipeline :: "nat \<Rightarrow> pipeline \<Rightarrow> pipeline option" where
  "set_pipeline f = upd_filter f (\<lambda>x. x\<lparr>f_pipeline := True\<rparr>)"

text \<open>The walk to the last filter need not end on a cyclic chain.\<close>

partial_function (option) last_filter :: "pipeline \<Rightarrow> nat \<Rightarrow> nat option" where
  [code]: "last_filter pl f =
     (case filter_inbound f pl of
        None \<Rightarrow> None
      | Some None \<Rightarrow> Some f
      | Some (Some g) \<Rightarrow> last_filter pl g)"

definition pipeline_add :: "nat \<Rightarrow> pipeline \<Rightarrow> pipeline option" where
  "pipeline_add pfilter pl =
     Option.bind (set_pipeline pfilter pl) (\<lambda>pl.
     case pl_inbound pl of
       None \<Rightarrow> Some (pl\<lparr>pl_inbound := Some pfilter\<rparr>)
     | Some head \<Rightarrow>
         Option.bind (last_filter pl head) (\<lambda>last.
         Option.bind (set_inbound (Some pfilter) last pl) (\<lambda>pl.
         Option.bind (set_inbound None pfilter pl) (\<lambda>pl.
         set_outbound (Some last) pfilter pl))))"

definition pipeline_add_inbound :: "nat option \<Rightarrow> nat option \<Rightarrow> pipeline \<Rightarrow> pipeline option" where
  "pipeline_add_inbound base pfilter pl =
     (case (base, pfilter) of
        (Some base, Some pfilter) \<Rightarrow>
          Option.bind (set_pipeline pfilter pl) (\<lambda>pl.
          Option.bind (filter_inbound base pl) (\<lambda>next.
          Option.bind (set_inbound next pfilter pl) (\<lambda>pl.
          Option.bind (set_outbound (Some base) pfilter pl) (\<lambda>pl.
          Option.bind (set_inbound (Some pfilter) base pl) (\<lambda>pl.
          Option.bind (filter_inbound pfilter pl) (\<lambda>next.
          case next of
            None \<Rightarrow> Some pl
          | Some g \<Rightarrow> set_outbound (Some pfilter) g pl))))))
      | _ \<Rightarrow> Some pl)"

definition pipeline_add_outbound :: "nat option \<Rightarrow> nat option \<Rightarrow> pipeline \<Rightarrow> pipeline option" where
  "pipeline_add_outbound base pfilter pl =
     (case (base, pfilter) of
        (Some base, Some pfilter) \<Rightarrow>
          Option.bind (set_pipeline pfilter pl) (\<lambda>pl.
          Option.bind (set_inbound (Some base) pfilter pl) (\<lambda>pl.
          Option.bind (filter_outbound base pl) (\<lambda>prev.
          Option.bind (set_outbound prev pfilter pl) (\<lambda>pl.
          Option.bind (set_outbound (Some pfilter) base pl) (\<lambda>pl.
          Option.bind (filter_outbound pfilter pl) (\<lambda>prev.
          case prev of
            None \<Rightarrow> Some pl
          | Some g \<Rightarrow> set_inbound (Some pfilter) g pl))))))
      | _ \<Rightarrow> Some pl)"

definition pipeline_remove :: "nat option \<Rightarrow> pipeline \<Rightarrow> pipeline option" where
  "pipeline_remove pfilter pl =
     (case pfilter of
        None \<Rightarrow> Some pl
      | Some f \<Rightarrow>
          Option.bind (filter_inbound f pl) (\<lambda>inb.
          Option.bind (filter_outbound f pl) (\<lambda>out.
          Option.bind (case inb of None \<Rightarrow> Some pl | Some g \<Rightarrow> set_outbound out g pl) (\<lambda>pl.
          Option.bind (case out of None \<Rightarrow> Some pl | Some g \<Rightarrow> set_inbound inb g pl) (\<lambda>pl.
          Some (if pl_inbound pl = Some f then pl\<lparr>pl_inbound := out\<rparr> else pl))))))"

text \<open>\<open>in_pipeline_holder\<close>: its constructor sets the flag, its destructor toggles it.\<close>

definition FLAG_IN_PIPELINE :: int where
  "FLAG_IN_PIPELINE = 1"

definition holder_enter :: "pipeline \<Rightarrow> pipeline" where
  "holder_enter pl = pl\<lparr>pl_flag := pl_flag pl OR FLAG_IN_PIPELINE\<rparr>"

definition holder_leave :: "pipeline \<Rightarrow> pipeline" where
  "holder_leave pl = pl\<lparr>pl_flag := pl_flag pl XOR FLAG_IN_PIPELINE\<rparr>"

definition in_pipeline :: "bool \<Rightarrow> pipeline \<Rightarrow> bool" where
  "in_pipeline in_run_loop pl \<longleftrightarrow> in_run_loop \<and> pl_flag pl AND FLAG_IN_PIPELINE \<noteq> 0"

text \<open>\<open>fire_filter_on_end_reference\<close>: each filter deletes itself after its successor was read.\<close>

partial_function (option) end_loop :: "nat option \<Rightarrow> pipeline \<Rightarrow> pipeline option" where
  [code]: "end_loop pinbound_filter pl =
     (case pinbound_filter of
        None \<Rightarrow> Some pl
      | Some f \<Rightarrow>
          (case filter_inbound f pl of
             None \<Rightarrow> None
           | Some next \<Rightarrow> end_loop next (pl\<lparr>pl_filters := (pl_filters pl)(f := None)\<rparr>)))"

definition fire_filter_on_end_reference :: "pipeline \<Rightarrow> pipeline option" where
  "fire_filter_on_end_reference pl = map_option holder_leave (end_loop (pl_inbound pl) (holder_enter pl))"

section \<open>Linked segments\<close>

fun first_of :: "'a list \<Rightarrow> 'a option \<Rightarrow> 'a option" where
  "first_of [] z = z"
| "first_of (x # xs) z = Some x"

fun last_of :: "'a list \<Rightarrow> 'a option \<Rightarrow> 'a option" where
  "last_of [] z = z"
| "last_of (x # xs) z = last_of xs (Some x)"

fun lseg :: "pipeline \<Rightarrow> nat option \<Rightarrow> nat list \<Rightarrow> nat option \<Rightarrow> bool" where
  "lseg pl out [] nxt \<longleftrightarrow> True"
| "lseg pl out (f # fs) nxt \<longleftrightarrow>
     pl_filters pl f = Some \<lparr>f_pipeline = True, f_inbound = first_of fs nxt, f_outbound = out\<rparr> \<and>
     lseg pl (Some f) fs nxt"

definition chain :: "pipeline \<Rightarrow> nat list \<Rightarrow> bool" where
  "chain pl fs \<longleftrightarrow> distinct fs \<and> pl_inbound pl = first_of fs None \<and> lseg pl None fs None"

lemma first_of_append [simp]: "first_of (xs @ ys) z = first_of xs (first_of ys z)"
  by (cases xs) auto

lemma last_of_append [simp]: "last_of (xs @ ys) z = last_of ys (last_of xs z)"
  by (induction xs arbitrary: z) auto

lemma lseg_append: "lseg pl out (xs @ ys) nxt \<longleftrightarrow> lseg pl out xs (first_of ys nxt) \<and> lseg pl (last_of xs out) ys nxt"
  by (induction xs arbitrary: out) auto

lemma lseg_frame:
  "(\<And>f. f \<in> set fs \<Longrightarrow> pl_filters pl' f = pl_filters pl f) \<Longrightarrow> lseg pl' out fs nxt = lseg pl out fs nxt"
  by (induction fs arbitrary: out) auto

lemma last_of_cases: "last_of xs z = (if xs = [] then z else Some (last xs))"
  by (induction xs arbitrary: z) auto

lemma first_of_cases: "first_of xs z = (if xs = [] then z else Some (hd xs))"
  by (cases xs) auto

lemma last_filter_lseg:
  "lseg pl out fs None \<Longrightarrow> fs \<noteq> [] \<Longrightarrow> last_filter pl (hd fs) = Some (last fs)"
proof (induction fs arbitrary: out)
  case (Cons f fs)
  then show ?case
    by (cases fs) (auto simp: last_filter.simps [of pl f] filter_inbound_def)
qed simp

lemmas filter_ops = upd_filter_def filter_inbound_def filter_outbound_def set_inbound_def set_outbound_def
  set_pipeline_def

text \<open>The neighbours of a filter in a chain.\<close>

lemma chain_at:
  assumes "chain pl (xs @ f # ys)"
  shows "pl_filters pl f = Some \<lparr>f_pipeline = True, f_inbound = first_of ys None, f_outbound = last_of xs None\<rparr>"
    "lseg pl None xs (Some f)" "lseg pl (Some f) ys None" "f \<notin> set xs" "f \<notin> set ys" "set xs \<inter> set ys = {}"
    "distinct xs" "distinct ys" "pl_inbound pl = first_of xs (Some f)"
  using assms by (auto simp: chain_def lseg_append)

text \<open>Relinking the end of a segment, and its beginning.\<close>

lemma lseg_relink_last:
  assumes "lseg pl out xs nxt" and "distinct xs" and "xs \<noteq> []"
    and "pl_filters pl (last xs) = Some x"
    and "pl_filters pl' (last xs) = Some (x\<lparr>f_inbound := nxt'\<rparr>)"
    and "\<And>f. f \<in> set xs \<Longrightarrow> f \<noteq> last xs \<Longrightarrow> pl_filters pl' f = pl_filters pl f"
  shows "lseg pl' out xs nxt'"
proof -
  obtain ys y where xs: "xs = ys @ [y]" using assms(3) by (metis append_butlast_last_id)
  then have "y \<notin> set ys" using assms(2) by auto
  then have "lseg pl' out ys (Some y) = lseg pl out ys (Some y)" using assms(6) xs by (intro lseg_frame) auto
  then show ?thesis using assms(1,4,5) xs by (auto simp: lseg_append)
qed

lemma lseg_relink_first:
  assumes "lseg pl out xs nxt" and "distinct xs" and "xs \<noteq> []"
    and "pl_filters pl (hd xs) = Some x"
    and "pl_filters pl' (hd xs) = Some (x\<lparr>f_outbound := out'\<rparr>)"
    and "\<And>f. f \<in> set xs \<Longrightarrow> f \<noteq> hd xs \<Longrightarrow> pl_filters pl' f = pl_filters pl f"
  shows "lseg pl' out' xs nxt"
proof -
  obtain y ys where xs: "xs = y # ys" using assms(3) by (cases xs) auto
  then have "lseg pl' (Some y) ys nxt = lseg pl (Some y) ys nxt" using assms(2,6) by (intro lseg_frame) auto
  then show ?thesis using assms(1,4,5) xs by auto
qed

definition linked_heap :: "pipeline \<Rightarrow> nat list \<Rightarrow> nat option \<Rightarrow> nat option \<Rightarrow> nat list \<Rightarrow> pipeline \<Rightarrow> bool" where
  "linked_heap pl xs nxt out ys pl' \<longleftrightarrow>
     (\<forall>g \<in> set xs \<union> set ys. \<forall>x. pl_filters pl g = Some x \<longrightarrow> pl_filters pl' g =
        Some (if xs \<noteq> [] \<and> g = last xs then x\<lparr>f_inbound := nxt\<rparr>
              else if ys \<noteq> [] \<and> g = hd ys then x\<lparr>f_outbound := out\<rparr> else x))"

lemma lseg_dom: "lseg pl out xs nxt \<Longrightarrow> f \<in> set xs \<Longrightarrow> \<exists>x. pl_filters pl f = Some x"
  by (induction xs arbitrary: out) auto

lemma lseg_relink:
  assumes "lseg pl None xs n0" and "lseg pl o0 ys None" and "distinct (xs @ ys)" and "linked_heap pl xs nxt out ys pl'"
  shows "lseg pl' None xs nxt" and "lseg pl' out ys None"
proof -
  have heap: "pl_filters pl' g = Some (if xs \<noteq> [] \<and> g = last xs then x\<lparr>f_inbound := nxt\<rparr>
        else if ys \<noteq> [] \<and> g = hd ys then x\<lparr>f_outbound := out\<rparr> else x)"
    if "g \<in> set xs \<union> set ys" "pl_filters pl g = Some x" for g x
    using assms(4) that by (auto simp: linked_heap_def)
  show "lseg pl' None xs nxt"
  proof (cases "xs = []")
    case False
    then have l: "last xs \<in> set xs" by simp
    then obtain x where x: "pl_filters pl (last xs) = Some x" using lseg_dom [OF assms(1)] by blast
    show ?thesis
    proof (rule lseg_relink_last [OF assms(1) _ False x])
      show "pl_filters pl' (last xs) = Some (x\<lparr>f_inbound := nxt\<rparr>)" using heap [OF _ x] l False by simp
      fix f assume f: "f \<in> set xs" "f \<noteq> last xs"
      moreover have "ys \<noteq> [] \<Longrightarrow> f \<noteq> hd ys" using f(1) assms(3) by (cases ys) auto
      ultimately show "pl_filters pl' f = pl_filters pl f" using heap lseg_dom [OF assms(1) f(1)] by auto
    qed (use assms(3) in simp)
  qed simp
  show "lseg pl' out ys None"
  proof (cases "ys = []")
    case False
    then have h: "hd ys \<in> set ys" by simp
    then obtain y where y: "pl_filters pl (hd ys) = Some y" using lseg_dom [OF assms(2)] by blast
    have apart: "g \<in> set ys \<Longrightarrow> xs \<noteq> [] \<Longrightarrow> g \<noteq> last xs" for g using assms(3) by (auto dest: last_in_set)
    show ?thesis
    proof (rule lseg_relink_first [OF assms(2) _ False y])
      show "pl_filters pl' (hd ys) = Some (y\<lparr>f_outbound := out\<rparr>)" using heap [OF _ y] h False apart by auto
      fix f assume f: "f \<in> set ys" "f \<noteq> hd ys"
      then obtain x where "pl_filters pl f = Some x" using lseg_dom [OF assms(2) f(1)] by blast
      then show "pl_filters pl' f = pl_filters pl f" using heap [of f x] f apart [OF f(1)] by auto
    qed (use assms(3) in simp)
  qed simp
qed

lemma lseg_insert:
  assumes "lseg pl None (xs @ ys) None" and "distinct (xs @ f # ys)" and "linked_heap pl xs (Some f) (Some f) ys pl'"
    and "pl_filters pl' f = Some \<lparr>f_pipeline = True, f_inbound = first_of ys None, f_outbound = last_of xs None\<rparr>"
  shows "lseg pl' None (xs @ f # ys) None"
  using assms lseg_relink [of pl xs "first_of ys None" "last_of xs None" ys "Some f" "Some f" pl']
  by (auto simp: lseg_append)

lemma lseg_delete:
  assumes "chain pl (xs @ f # ys)" and "linked_heap pl xs (first_of ys None) (last_of xs None) ys pl'"
  shows "lseg pl' None (xs @ ys) None"
  using assms(2) chain_at [OF assms(1)]
    lseg_relink [of pl xs "Some f" "Some f" ys "first_of ys None" "last_of xs None" pl']
  by (auto simp: lseg_append)

section \<open>The edits\<close>

abbreviation fresh_filter :: "pipeline \<Rightarrow> nat \<Rightarrow> bool" where
  "fresh_filter pl f \<equiv> pl_filters pl f = Some filter_ctor"

lemma add_chain:
  assumes "chain pl fs" and "f \<notin> set fs" and "fresh_filter pl f"
  shows "\<exists>pl'. pipeline_add f pl = Some pl' \<and> chain pl' (fs @ [f]) \<and> pl_flag pl' = pl_flag pl"
proof (cases "fs = []")
  case True
  then show ?thesis using assms by (auto simp: pipeline_add_def filter_ops chain_def filter_ctor_def)
next
  case False
  let ?a = "\<lparr>f_pipeline = True, f_inbound = None, f_outbound = None\<rparr>"
  let ?pl1 = "pl\<lparr>pl_filters := (pl_filters pl)(f \<mapsto> ?a)\<rparr>"
  have l: "last fs \<in> set fs" "last fs \<noteq> f" using False assms(2) by auto
  have seg: "lseg pl None fs None" "distinct fs" "pl_inbound pl = Some (hd fs)"
    using assms(1) False by (auto simp: chain_def first_of_cases)
  have seg1: "lseg ?pl1 None fs None" using seg(1) assms(2) by (subst lseg_frame) auto
  obtain x where x: "pl_filters pl (last fs) = Some x" using lseg_dom [OF seg(1) l(1)] by blast
  let ?pl' = "pl\<lparr>pl_filters := (pl_filters pl)(f \<mapsto> ?a, last fs \<mapsto> x\<lparr>f_inbound := Some f\<rparr>, f \<mapsto> ?a\<lparr>f_outbound := Some (last fs)\<rparr>)\<rparr>"
  have "pipeline_add f pl = Some ?pl'"
    using assms(3) seg(3) last_filter_lseg [OF seg1 False] x l(2)
    by (simp add: pipeline_add_def filter_ops filter_ctor_def fun_upd_twist)
  moreover have "lseg ?pl' None (fs @ f # []) None"
  proof (rule lseg_insert)
    show "linked_heap pl fs (Some f) (Some f) [] ?pl'" using assms(2) x l False by (auto simp: linked_heap_def)
    show "pl_filters ?pl' f = Some \<lparr>f_pipeline = True, f_inbound = first_of [] None, f_outbound = last_of fs None\<rparr>"
      using False by (simp add: last_of_cases)
  qed (use seg assms(2) in auto)
  ultimately show ?thesis using seg(2,3) assms(2) False by (simp add: chain_def first_of_cases)
qed

lemma add_inbound_chain:
  assumes "chain pl (xs @ b # ys)" and "f \<notin> set (xs @ b # ys)" and "fresh_filter pl f"
  shows "\<exists>pl'. pipeline_add_inbound (Some b) (Some f) pl = Some pl' \<and> chain pl' (xs @ b # f # ys) \<and> pl_flag pl' = pl_flag pl"
proof -
  note c = chain_at [OF assms(1)]
  let ?b = "\<lparr>f_pipeline = True, f_inbound = Some f, f_outbound = last_of xs None\<rparr>"
  let ?f = "\<lparr>f_pipeline = True, f_inbound = first_of ys None, f_outbound = Some b\<rparr>"
  have nb: "b \<noteq> f" using assms(2) by auto
  define h where "h = (pl_filters pl)(f \<mapsto> ?f, b \<mapsto> ?b)"
  define h' where "h' = (case ys of [] \<Rightarrow> h | g # _ \<Rightarrow> h(g := map_option (\<lambda>x. x\<lparr>f_outbound := Some f\<rparr>) (pl_filters pl g)))"
  let ?pl' = "pl\<lparr>pl_filters := h'\<rparr>"
  have "pipeline_add_inbound (Some b) (Some f) pl = Some ?pl'"
    using assms(2,3) c(1,3,5) nb
    by (cases ys) (auto simp: pipeline_add_inbound_def filter_ops filter_ctor_def h_def h'_def fun_upd_twist)
  moreover have "lseg ?pl' None ((xs @ [b]) @ f # ys) None"
  proof (rule lseg_insert)
    show "linked_heap pl (xs @ [b]) (Some f) (Some f) ys ?pl'"
      using assms(2) c nb by (cases ys) (auto simp: linked_heap_def h_def h'_def)
    show "pl_filters ?pl' f = Some \<lparr>f_pipeline = True, f_inbound = first_of ys None, f_outbound = last_of (xs @ [b]) None\<rparr>"
      using assms(2) nb by (cases ys) (auto simp: h_def h'_def)
  qed (use assms(1,2) in \<open>auto simp: chain_def\<close>)
  ultimately show ?thesis using assms(1,2) by (simp add: chain_def)
qed

lemma add_outbound_heap:
  assumes "chain pl (xs @ b # ys)" and "f \<notin> set (xs @ b # ys)" and "fresh_filter pl f"
  shows "\<exists>pl'. pipeline_add_outbound (Some b) (Some f) pl = Some pl' \<and> lseg pl' None (xs @ f # b # ys) None \<and>
    pl_inbound pl' = pl_inbound pl \<and> pl_flag pl' = pl_flag pl"
proof -
  note c = chain_at [OF assms(1)]
  let ?b = "\<lparr>f_pipeline = True, f_inbound = first_of ys None, f_outbound = Some f\<rparr>"
  let ?f = "\<lparr>f_pipeline = True, f_inbound = Some b, f_outbound = last_of xs None\<rparr>"
  have nb: "b \<noteq> f" using assms(2) by auto
  define h where "h = (pl_filters pl)(f \<mapsto> ?f, b \<mapsto> ?b)"
  define h' where "h' = (if xs = [] then h else h(last xs := map_option (\<lambda>x. x\<lparr>f_inbound := Some f\<rparr>) (pl_filters pl (last xs))))"
  let ?pl' = "pl\<lparr>pl_filters := h'\<rparr>"
  have lx: "last xs \<noteq> b" "last xs \<noteq> f" "\<exists>x. pl_filters pl (last xs) = Some x" if "xs \<noteq> []"
    using that c(2,4) assms(2) lseg_dom [OF c(2), of "last xs"] by (auto dest: last_in_set)
  have "pipeline_add_outbound (Some b) (Some f) pl = Some ?pl'"
    using assms(3) c(1) nb lx
    by (cases "xs = []") (auto simp: pipeline_add_outbound_def filter_ops filter_ctor_def h_def h'_def fun_upd_twist last_of_cases)
  moreover have "lseg ?pl' None (xs @ f # b # ys) None"
  proof (rule lseg_insert)
    show "linked_heap pl xs (Some f) (Some f) (b # ys) ?pl'"
      using assms(2) c lx nb by (cases "xs = []") (auto simp: linked_heap_def h_def h'_def)
    show "pl_filters ?pl' f = Some \<lparr>f_pipeline = True, f_inbound = first_of (b # ys) None, f_outbound = last_of xs None\<rparr>"
      using lx nb by (cases "xs = []") (auto simp: h_def h'_def)
  qed (use assms(1,2) in \<open>auto simp: chain_def\<close>)
  ultimately show ?thesis by auto
qed

lemma remove_heap:
  assumes "chain pl (xs @ f # ys)"
  shows "\<exists>pl'. pipeline_remove (Some f) pl = Some pl' \<and> lseg pl' None (xs @ ys) None \<and>
    pl_inbound pl' = (if xs = [] then None else pl_inbound pl) \<and> pl_flag pl' = pl_flag pl"
proof -
  note c = chain_at [OF assms]
  have lx: "last xs \<noteq> f" "last xs \<notin> set ys" "\<exists>x. pl_filters pl (last xs) = Some x" if "xs \<noteq> []"
    using that c(4,6) lseg_dom [OF c(2), of "last xs"] by (auto dest: last_in_set)
  have hy: "hd ys \<noteq> f" "hd ys \<notin> set xs" "\<exists>x. pl_filters pl (hd ys) = Some x" if "ys \<noteq> []"
    using that c(5,6) lseg_dom [OF c(3), of "hd ys"] by (auto dest: hd_in_set)
  define h where "h = (if ys = [] then pl_filters pl
    else (pl_filters pl)(hd ys := map_option (\<lambda>x. x\<lparr>f_outbound := last_of xs None\<rparr>) (pl_filters pl (hd ys))))"
  define h' where "h' = (if xs = [] then h else h(last xs := map_option (\<lambda>x. x\<lparr>f_inbound := first_of ys None\<rparr>) (pl_filters pl (last xs))))"
  let ?pl' = "pl\<lparr>pl_filters := h', pl_inbound := (if xs = [] then None else pl_inbound pl)\<rparr>"
  have neq: "xs \<noteq> [] \<Longrightarrow> ys \<noteq> [] \<Longrightarrow> last xs \<noteq> hd ys" using lx(2) by auto
  have head: "pl_inbound pl = Some f \<longleftrightarrow> xs = []" using c(4,9) by (cases xs) auto
  have "pipeline_remove (Some f) pl = Some ?pl'"
    using c(1) lx hy neq head
    by (cases "xs = []"; cases "ys = []")
      (auto simp: pipeline_remove_def filter_ops h_def h'_def first_of_cases last_of_cases)
  moreover have "lseg ?pl' None (xs @ ys) None"
  proof (rule lseg_delete [OF assms])
    show "linked_heap pl xs (first_of ys None) (last_of xs None) ys ?pl'"
      using lx hy neq c(6) by (cases "xs = []"; cases "ys = []") (auto simp: linked_heap_def h_def h'_def)
  qed
  ultimately show ?thesis by auto
qed

text \<open>
  C24: the edits of the filter chain edit the list it represents. \<open>add\<close> appends a new filter,
  \<open>add_inbound\<close> puts it behind its base, \<open>add_outbound\<close> before its base unless that is the entry, and
  \<open>remove\<close> takes a filter out unless it is the entry; the links in both directions stay consistent.
\<close>

theorem chain_edits_correct:
  assumes "chain pl (xs @ b # ys)" and "f \<notin> set (xs @ b # ys)" and "pl_filters pl f = Some filter_ctor"
  shows "(\<exists>pl'. pipeline_add f pl = Some pl' \<and> chain pl' (xs @ b # ys @ [f])) \<and>
    (\<exists>pl'. pipeline_add_inbound (Some b) (Some f) pl = Some pl' \<and> chain pl' (xs @ b # f # ys)) \<and>
    (xs \<noteq> [] \<longrightarrow> (\<exists>pl'. pipeline_add_outbound (Some b) (Some f) pl = Some pl' \<and> chain pl' (xs @ f # b # ys)) \<and>
      (\<exists>pl'. pipeline_remove (Some b) pl = Some pl' \<and> chain pl' (xs @ ys)))"
proof -
  have d: "distinct (xs @ f # b # ys)" "pl_inbound pl = first_of xs (Some b)"
    using assms(1,2) by (auto simp: chain_def)
  have "\<exists>pl'. pipeline_add_outbound (Some b) (Some f) pl = Some pl' \<and> chain pl' (xs @ f # b # ys)"
    "\<exists>pl'. pipeline_remove (Some b) pl = Some pl' \<and> chain pl' (xs @ ys)" if "xs \<noteq> []"
    using that d add_outbound_heap [OF assms] remove_heap [OF assms(1)]
    by (auto simp: chain_def first_of_cases)
  then show ?thesis using add_chain [OF assms] add_inbound_chain [OF assms] by auto
qed

definition demo_pipeline :: pipeline where
  "demo_pipeline =
     \<lparr>pl_filters = (\<lambda>f. if f = 0 then Some \<lparr>f_pipeline = True, f_inbound = Some 1, f_outbound = None\<rparr>
                       else if f = 1 then Some \<lparr>f_pipeline = True, f_inbound = None, f_outbound = Some 0\<rparr>
                       else if f = 2 then Some filter_ctor else None),
      pl_inbound = Some 0, pl_flag = 0\<rparr>"

lemma demo_pipeline_chain: "chain demo_pipeline ([] @ 0 # [1])" "chain demo_pipeline ([0] @ 1 # [])"
  "pl_filters demo_pipeline 2 = Some filter_ctor"
  by (simp_all add: chain_def demo_pipeline_def)

theorem chain_edits_correct_witness:
  "(\<exists>pl'. pipeline_add 2 demo_pipeline = Some pl' \<and> chain pl' [0, 1, 2]) \<and>
   (\<exists>pl'. pipeline_remove (Some 1) demo_pipeline = Some pl' \<and> chain pl' [0])"
  using chain_edits_correct [OF demo_pipeline_chain(2) _ demo_pipeline_chain(3)] by simp

text \<open>
  C25: editing at the entry goes wrong. \<open>add_outbound\<close> at the first filter links the new one in front but
  leaves the entry where it was, so that the pipeline represents no chain any more; \<open>remove\<close> of the
  first filter leaves the pipeline without any filter, whatever followed it.
\<close>

theorem entry_edits_broken:
  assumes "chain pl (b # ys)" and "f \<notin> set (b # ys)" and "pl_filters pl f = Some filter_ctor"
  shows "(\<exists>pl'. pipeline_add_outbound (Some b) (Some f) pl = Some pl' \<and> pl_inbound pl' = Some b \<and>
      (\<forall>gs. \<not> chain pl' gs)) \<and>
    (\<exists>pl'. pipeline_remove (Some b) pl = Some pl' \<and> chain pl' [])"
proof -
  have c: "chain pl ([] @ b # ys)" "f \<notin> set ([] @ b # ys)" using assms(1,2) by simp_all
  obtain pl1 where pl1: "pipeline_add_outbound (Some b) (Some f) pl = Some pl1" "lseg pl1 None ([] @ f # b # ys) None"
    "pl_inbound pl1 = pl_inbound pl" using add_outbound_heap [OF c assms(3)] by blast
  moreover have "pl_inbound pl = Some b" using assms(1) by (simp add: chain_def)
  moreover have "\<not> chain pl1 gs" for gs
    using pl1(2,3) calculation(4) by (cases gs) (auto simp: chain_def)
  ultimately show ?thesis using remove_heap [OF c(1)] by (auto simp: chain_def)
qed

theorem entry_edits_broken_witness:
  "\<exists>pl'. pipeline_remove (Some 0) demo_pipeline = Some pl' \<and> chain pl' []"
  using entry_edits_broken [of demo_pipeline 0 "[1]" 2] demo_pipeline_chain by simp

end
