(* ===== verification/Channel.thy ===== *)
theory Channel
  imports Pipeline Tcode_Error
begin

text \<open>
  The channel of \<open>src/io/ip/tcp/pipeline/channel.cpp\<close> with the event functions of \<open>pipeline.cpp\<close> and
  \<open>filter.cpp\<close>. A byte buffer is represented by its contents. The state holds the pipeline, the atomic
  flag (two bits and the count of references), the write buffers, what was handed to the engine, and the
  reads and writes under way at the socket.

  A member function is a definition that returns the calls its body makes next, in their order; the
  calls under way form a stack, and \<open>run_calls\<close> executes it. What the filters of an application do
  when they are called is a parameter. \<^const>\<open>None\<close> is the access to a deleted object, and a
  filter that releases a reference it does not hold.
\<close>

section \<open>State\<close>

type_synonym bytes = "byte list"
type_synonym addr = nat

datatype event =
    On_Open addr
  | On_Close
  | On_Read bytes
  | On_Write int bool
  | On_Error error_code
  | Do_Write bytes

datatype action =
    Fire event
  | Write_Channel bytes
  | Close error_code
  | Add_Ref
  | Release

type_synonym behaviour = "nat \<Rightarrow> event \<Rightarrow> action list"

datatype call =
    Fire_Head event
  | Filter_Event nat event
  | Filter_Does nat action
  | Fire_At "nat option" event
  | Leave
  | Read
  | Clear_Buffer
  | Channel_Write bytes
  | Write_Remains
  | Channel_Close error_code
  | Channel_Release

datatype task =
    Task_Open addr
  | Task_Close error_code
  | Task_End
  | Task_Write bytes
  | Task_Fire "nat option" event

record channel =
  ch_pipeline :: pipeline
  ch_flag :: int
  ch_fd :: bool
  ch_write_buffers :: "bytes list"
  ch_buffer :: bytes
  ch_tasks :: "task list"
  ch_reading :: nat
  ch_writing :: "bytes list list"
  ch_held :: nat
  ch_fired :: "event list"
  ch_seen :: "(nat \<times> event) list"
  ch_deleted :: bool

text \<open>
  \<open>ch_fired\<close> records the events the channel gave to the pipeline, \<open>ch_seen\<close> those that reached filters,
  \<open>ch_held\<close> the references filters hold.
\<close>

section \<open>The flag\<close>

definition error_flag :: int where
  "error_flag = 0x10000000"

definition close_flag :: int where
  "close_flag = 0x20000000"

text \<open>The loops around \<open>compare_exchange_strong\<close> are one atomic step.\<close>

definition reset_if_val_contains_bit :: "int \<Rightarrow> int \<Rightarrow> bool \<times> int" where
  "reset_if_val_contains_bit val b = (if val AND b \<noteq> b then (False, val) else (True, val XOR b))"

definition check_if_val_contains_bit :: "int \<Rightarrow> int \<Rightarrow> bool" where
  "check_if_val_contains_bit val b \<longleftrightarrow> val AND b = b"

definition channel_ctor :: "pipeline \<Rightarrow> channel" where
  "channel_ctor pl =
     \<lparr>ch_pipeline = pl, ch_flag = error_flag OR close_flag, ch_fd = True, ch_write_buffers = [], ch_buffer = [],
      ch_tasks = [], ch_reading = 0, ch_writing = [], ch_held = 0, ch_fired = [], ch_seen = [], ch_deleted = False\<rparr>"

definition execute_task :: "task \<Rightarrow> channel \<Rightarrow> channel" where
  "execute_task t ch = ch\<lparr>ch_tasks := ch_tasks ch @ [t]\<rparr>"

definition channel_add_ref :: "channel \<Rightarrow> channel" where
  "channel_add_ref ch = ch\<lparr>ch_flag := ch_flag ch + 1\<rparr>"

definition channel_release :: "channel \<Rightarrow> int \<times> channel" where
  "channel_release ch =
     (let val = ch_flag ch - 1; ch = ch\<lparr>ch_flag := val\<rparr>
      in (val, if val = 0 then execute_task Task_End ch else ch))"

definition channel_close :: "error_code \<Rightarrow> channel \<Rightarrow> channel" where
  "channel_close ec ch =
     (let (was, v) = reset_if_val_contains_bit (ch_flag ch) close_flag; ch = ch\<lparr>ch_flag := v\<rparr>
      in if was then execute_task (Task_Close ec) ch else ch)"

definition channel_close_default :: "channel \<Rightarrow> channel" where
  "channel_close_default ch = channel_close error_aborted ch"

section \<open>Reading and writing\<close>

definition channel_read :: "channel \<Rightarrow> channel" where
  "channel_read ch =
     (if \<not> check_if_val_contains_bit (ch_flag ch) close_flag then ch
      else (channel_add_ref ch)\<lparr>ch_reading := ch_reading ch + 1\<rparr>)"

text \<open>
  The vector of buffers is constructed with \<open>n\<close> empty elements before the \<open>n\<close> buffers are appended.
\<close>

definition write_remains :: "channel \<Rightarrow> channel" where
  "write_remains ch =
     (if \<not> check_if_val_contains_bit (ch_flag ch) close_flag then ch
      else let bufs = ch_write_buffers ch; n = length bufs
           in (channel_add_ref ch)\<lparr>ch_writing := ch_writing ch @
                [if n = 1 then bufs else replicate n [] @ bufs]\<rparr>)"

definition do_write :: "bool \<Rightarrow> bytes \<Rightarrow> channel \<Rightarrow> channel" where
  "do_write in_run_loop buf ch =
     (if \<not> check_if_val_contains_bit (ch_flag ch) close_flag then ch
      else if in_run_loop
      then let needwrite = (ch_write_buffers ch = []);
               ch = ch\<lparr>ch_write_buffers := ch_write_buffers ch @ [buf]\<rparr>
           in if \<not> needwrite then ch else write_remains ch
      else execute_task (Task_Write buf) (channel_add_ref ch))"

text \<open>The loop over the write buffers in \<open>handle_write\<close>: \<open>rd_ptr\<close> moves by what it can.\<close>

fun consume :: "int \<Rightarrow> bytes list \<Rightarrow> bytes list" where
  "consume nbytes [] = []"
| "consume nbytes (b # bs) =
     (if 0 < nbytes then drop (nat nbytes) b # consume (nbytes - min nbytes (int (length b))) bs else b # bs)"

definition handle_write :: "error_code \<Rightarrow> int \<Rightarrow> channel \<Rightarrow> call list \<times> channel" where
  "handle_write ec nbytes ch =
     (if \<not> check_if_val_contains_bit (ch_flag ch) close_flag then ([], ch)
      else if has_error ec then ([], channel_close ec ch)
      else let bufs = List.filter (\<lambda>b. b \<noteq> []) (consume nbytes (ch_write_buffers ch)); flush = (bufs = [])
           in (Fire_Head (On_Write nbytes flush) # (if flush then [] else [Write_Remains]),
               ch\<lparr>ch_write_buffers := bufs\<rparr>))"

definition handle_read :: "error_code \<Rightarrow> bytes \<Rightarrow> channel \<Rightarrow> call list \<times> channel" where
  "handle_read ec input ch =
     (if \<not> check_if_val_contains_bit (ch_flag ch) close_flag then ([], ch)
      else if has_error ec then ([], channel_close ec ch)
      else let buf = ch_buffer ch @ input
           in ([Fire_Head (On_Read buf), Clear_Buffer, Read], ch\<lparr>ch_buffer := buf\<rparr>))"

section \<open>Events in the pipeline\<close>

text \<open>
  The entry functions \<open>fire_filter_on_open(addr)\<close> and its siblings share one shape: the flag is set
  while the first filter is called.
\<close>

definition fire_head :: "event \<Rightarrow> channel \<Rightarrow> call list \<times> channel" where
  "fire_head evt ch =
     (case pl_inbound (ch_pipeline ch) of None \<Rightarrow> [Leave] | Some f \<Rightarrow> [Filter_Event f evt, Leave],
      ch\<lparr>ch_pipeline := holder_enter (ch_pipeline ch), ch_fired := ch_fired ch @ [evt]\<rparr>)"

definition leave :: "channel \<Rightarrow> channel" where
  "leave ch = ch\<lparr>ch_pipeline := holder_leave (ch_pipeline ch)\<rparr>"

text \<open>
  \<open>fire_filter_on_open(pfilter, addr)\<close> and its siblings: a direct call inside the pipeline, a task
  that holds a reference otherwise. Only a write goes on to the channel without a filter.
\<close>

fun is_write :: "event \<Rightarrow> bool" where
  "is_write (Do_Write buf) = True"
| "is_write _ = False"

fun write_data :: "event \<Rightarrow> bytes" where
  "write_data (Do_Write buf) = buf"
| "write_data _ = []"

definition fire_at :: "bool \<Rightarrow> nat option \<Rightarrow> event \<Rightarrow> channel \<Rightarrow> call list \<times> channel" where
  "fire_at in_run_loop pfilter evt ch =
     (if pfilter = None \<and> \<not> is_write evt then ([], ch)
      else if in_pipeline in_run_loop (ch_pipeline ch)
      then (case pfilter of Some f \<Rightarrow> [Filter_Event f evt] | None \<Rightarrow> [Channel_Write (write_data evt)], ch)
      else ([], execute_task (Task_Fire pfilter evt) (channel_add_ref ch)))"

text \<open>The members \<open>filter::fire_filter_on_*\<close> and \<open>fire_filter_do_write\<close>.\<close>

definition filter_fire :: "nat \<Rightarrow> event \<Rightarrow> channel \<Rightarrow> (call list \<times> channel) option" where
  "filter_fire f evt ch =
     (case pl_filters (ch_pipeline ch) f of
        None \<Rightarrow> None
      | Some x \<Rightarrow> Some (if is_write evt then ([Fire_At (f_outbound x) evt], ch)
                       else (if f_inbound x = None then [] else [Fire_At (f_inbound x) evt], ch)))"

text \<open>The virtual members of the class \<open>filter\<close> itself pass the event on.\<close>

definition filter_default :: behaviour where
  "filter_default f evt = [Fire evt]"

fun filter_does :: "nat \<Rightarrow> action \<Rightarrow> channel \<Rightarrow> (call list \<times> channel) option" where
  "filter_does f (Fire evt) ch = filter_fire f evt ch"
| "filter_does f (Write_Channel buf) ch = Some ([Channel_Write buf], ch)"
| "filter_does f (Close ec) ch = Some ([Channel_Close ec], ch)"
| "filter_does f Add_Ref ch = Some ([], (channel_add_ref ch)\<lparr>ch_held := ch_held ch + 1\<rparr>)"
| "filter_does f Release ch =
     (if ch_held ch = 0 then None else Some ([Channel_Release], ch\<lparr>ch_held := ch_held ch - 1\<rparr>))"

definition filter_event :: "behaviour \<Rightarrow> nat \<Rightarrow> event \<Rightarrow> channel \<Rightarrow> (call list \<times> channel) option" where
  "filter_event h f evt ch =
     (if pl_filters (ch_pipeline ch) f = None then None
      else Some (map (Filter_Does f) (h f evt), ch\<lparr>ch_seen := ch_seen ch @ [(f, evt)]\<rparr>))"

section \<open>Execution\<close>

fun call_step :: "behaviour \<Rightarrow> bool \<Rightarrow> call \<Rightarrow> channel \<Rightarrow> (call list \<times> channel) option" where
  "call_step h lp (Fire_Head evt) ch = Some (fire_head evt ch)"
| "call_step h lp (Filter_Event f evt) ch = filter_event h f evt ch"
| "call_step h lp (Filter_Does f a) ch = filter_does f a ch"
| "call_step h lp (Fire_At pf evt) ch = Some (fire_at lp pf evt ch)"
| "call_step h lp Leave ch = Some ([], leave ch)"
| "call_step h lp Read ch = Some ([], channel_read ch)"
| "call_step h lp Clear_Buffer ch = Some ([], ch\<lparr>ch_buffer := []\<rparr>)"
| "call_step h lp (Channel_Write buf) ch = Some ([], do_write lp buf ch)"
| "call_step h lp Write_Remains ch = Some ([], write_remains ch)"
| "call_step h lp (Channel_Close ec) ch = Some ([], channel_close ec ch)"
| "call_step h lp Channel_Release ch = Some ([], snd (channel_release ch))"

text \<open>
  With \<open>2 ^ 28 - 1\<close> references one more would carry into the flag bits; such a state is out of the model.
\<close>

definition room :: "channel \<Rightarrow> bool" where
  "room ch \<longleftrightarrow> ch_flag ch mod 2 ^ 28 < 2 ^ 28 - 1"

partial_function (option) run_calls :: "behaviour \<Rightarrow> bool \<Rightarrow> call list \<Rightarrow> channel \<Rightarrow> channel option" where
  [code]: "run_calls h lp cs ch =
     (case cs of
        [] \<Rightarrow> Some ch
      | c # cs \<Rightarrow>
          if ch_deleted ch \<or> \<not> room ch then None
          else Option.bind (call_step h lp c ch) (\<lambda>(new, ch). run_calls h lp (new @ cs) ch))"

definition fire_on_open :: "bool \<Rightarrow> addr \<Rightarrow> channel \<Rightarrow> call list \<times> channel" where
  "fire_on_open in_run_loop a ch =
     (let ch = channel_add_ref ch
      in if in_run_loop then ([Fire_Head (On_Open a), Read], ch) else ([], execute_task (Task_Open a) ch))"

definition fire_on_close :: "error_code \<Rightarrow> channel \<Rightarrow> call list \<times> channel" where
  "fire_on_close ec ch =
     (let ch = ch\<lparr>ch_fd := False\<rparr>;
          (was, v) = reset_if_val_contains_bit (ch_flag ch) error_flag
      in ((if was then [Fire_Head (On_Error ec)] else []) @ [Fire_Head On_Close, Channel_Release], ch\<lparr>ch_flag := v\<rparr>))"

definition fire_on_end_reference :: "channel \<Rightarrow> channel option" where
  "fire_on_end_reference ch =
     map_option (\<lambda>pl. ch\<lparr>ch_pipeline := pl, ch_fd := False, ch_deleted := True\<rparr>)
       (fire_filter_on_end_reference (ch_pipeline ch))"

text \<open>The function objects handed to the engine, run by its loop.\<close>

fun task_run :: "task \<Rightarrow> channel \<Rightarrow> (call list \<times> channel) option" where
  "task_run (Task_Open a) ch = Some (fire_on_open True a ch)"
| "task_run (Task_Close ec) ch = Some (fire_on_close ec ch)"
| "task_run Task_End ch = map_option (\<lambda>ch. ([], ch)) (fire_on_end_reference ch)"
| "task_run (Task_Write buf) ch = Some ([Channel_Write buf, Channel_Release], ch)"
| "task_run (Task_Fire pf evt) ch =
     Some (case pf of
             Some f \<Rightarrow> [Filter_Event f evt, Channel_Release, Leave]
           | None \<Rightarrow> [Channel_Write (write_data evt), Channel_Release, Leave],
           ch\<lparr>ch_pipeline := holder_enter (ch_pipeline ch)\<rparr>)"

text \<open>What the loop does next: a task, or the completion of a read or a write.\<close>

definition loop_task :: "behaviour \<Rightarrow> channel \<Rightarrow> channel option" where
  "loop_task h ch =
     (case ch_tasks ch of
        [] \<Rightarrow> Some ch
      | t # ts \<Rightarrow>
          if ch_deleted ch then None
          else Option.bind (task_run t (ch\<lparr>ch_tasks := ts\<rparr>)) (\<lambda>(cs, ch). run_calls h True cs ch))"

definition loop_read :: "behaviour \<Rightarrow> error_code \<Rightarrow> bytes \<Rightarrow> channel \<Rightarrow> channel option" where
  "loop_read h ec input ch =
     (if ch_deleted ch then None
      else let (cs, ch) = handle_read ec input (ch\<lparr>ch_reading := ch_reading ch - 1\<rparr>)
           in run_calls h True (cs @ [Channel_Release]) ch)"

definition loop_write :: "behaviour \<Rightarrow> error_code \<Rightarrow> int \<Rightarrow> channel \<Rightarrow> channel option" where
  "loop_write h ec nbytes ch =
     (if ch_deleted ch then None
      else let (cs, ch) = handle_write ec nbytes (ch\<lparr>ch_writing := tl (ch_writing ch)\<rparr>)
           in run_calls h True (cs @ [Channel_Release]) ch)"

definition open_channel :: "behaviour \<Rightarrow> addr \<Rightarrow> pipeline \<Rightarrow> channel option" where
  "open_channel h a pl =
     (let (cs, ch) = fire_on_open True a (channel_ctor pl) in run_calls h True cs ch)"

text \<open>A call from another thread, on a reference a filter holds: nothing but the flag and the queue is touched.\<close>

fun outside_call :: "action \<Rightarrow> nat \<Rightarrow> channel \<Rightarrow> channel" where
  "outside_call (Fire evt) f ch = snd (fire_at False (Some f) evt ch)"
| "outside_call (Write_Channel buf) f ch = do_write False buf ch"
| "outside_call (Close ec) f ch = channel_close ec ch"
| "outside_call Add_Ref f ch = (channel_add_ref ch)\<lparr>ch_held := ch_held ch + 1\<rparr>"
| "outside_call Release f ch = snd (channel_release (ch\<lparr>ch_held := ch_held ch - 1\<rparr>))"

section \<open>The flag and the references\<close>

definition flag_val :: "bool \<Rightarrow> bool \<Rightarrow> nat \<Rightarrow> int" where
  "flag_val e c n = (if e then 2 ^ 28 else 0) + (if c then 2 ^ 29 else 0) + int n"

lemma and_power_eq: "(v AND 2 ^ k = 2 ^ k) = bit v k" for v :: int
proof
  assume "v AND 2 ^ k = 2 ^ k"
  then have "bit (v AND 2 ^ k) k" by (simp add: bit_exp_iff)
  then show "bit v k" by (simp add: bit_and_iff)
next
  assume "bit v k"
  then show "v AND 2 ^ k = 2 ^ k" by (intro bit_eqI) (auto simp: bit_and_iff bit_exp_iff)
qed

lemma xor_power_eq: "bit v k \<Longrightarrow> v XOR 2 ^ k = v - 2 ^ k" for v :: int
  by (metis flip_bit_eq_if flip_bit_eq_xor unset_bit_eq push_bit_of_1 of_bool_eq(2) mult_1)

lemma flag_bits:
  assumes "n < 2 ^ 28"
  shows "bit (flag_val e c n) 28 = e" "bit (flag_val e c n) 29 = c" "flag_val e c n mod 2 ^ 28 = int n"
proof -
  have n: "int n < 2 ^ 28" using assms by (metis of_nat_less_iff of_nat_numeral of_nat_power)
  have 1: "flag_val e c n div 2 ^ 28 = (if e then 1 else 0) + (if c then 2 else 0)"
    using n by (auto simp: flag_val_def)
  have 2: "flag_val e c n div 2 ^ 29 = (if c then 1 else 0)"
    using n by (auto simp: flag_val_def)
  show "bit (flag_val e c n) 28 = e" "bit (flag_val e c n) 29 = c"
    unfolding bit_iff_odd 1 2 by auto
  have "flag_val e c n = int n + 2 ^ 28 * ((if e then 1 else 0) + (if c then 2 else 0))"
    by (simp add: flag_val_def)
  then show "flag_val e c n mod 2 ^ 28 = int n" using n by (simp only: mod_mult_self2) simp
qed

lemma flags_are_powers: "error_flag = 2 ^ 28" "close_flag = 2 ^ 29"
  by (simp_all add: error_flag_def close_flag_def)

lemma reset_power:
  "reset_if_val_contains_bit v (2 ^ k) = (if bit v k then (True, v - 2 ^ k) else (False, v))"
  unfolding reset_if_val_contains_bit_def using and_power_eq [of v k] xor_power_eq [of v k] by simp

lemma flag_ops:
  assumes "n < 2 ^ 28"
  shows "check_if_val_contains_bit (flag_val e c n) close_flag = c"
    "reset_if_val_contains_bit (flag_val e c n) close_flag = (c, flag_val e False n)"
    "reset_if_val_contains_bit (flag_val e c n) error_flag = (e, flag_val False c n)"
  unfolding check_if_val_contains_bit_def flags_are_powers reset_power and_power_eq flag_bits [OF assms]
  by (simp_all add: flag_val_def)

lemma flag_val_add: "flag_val e c n + 1 = flag_val e c (Suc n)"
  by (simp add: flag_val_def)

lemma flag_val_sub: "0 < n \<Longrightarrow> flag_val e c n - 1 = flag_val e c (n - 1)"
  by (simp add: flag_val_def of_nat_diff)

lemma flag_val_0: "flag_val e c n = 0 \<longleftrightarrow> \<not> e \<and> \<not> c \<and> n = 0"
  by (auto simp: flag_val_def)

text \<open>Who owns a reference: an open channel, its reads and writes, the tasks, the filters.\<close>

fun ref_task :: "task \<Rightarrow> bool" where
  "ref_task (Task_Close ec) = True"
| "ref_task (Task_Write buf) = True"
| "ref_task (Task_Fire pf evt) = True"
| "ref_task _ = False"

fun close_task :: "task \<Rightarrow> bool" where
  "close_task (Task_Close ec) = True"
| "close_task _ = False"

definition owners :: "bool \<Rightarrow> channel \<Rightarrow> nat" where
  "owners c ch = (if c then 1 else 0) + length (List.filter ref_task (ch_tasks ch)) + ch_reading ch +
     length (ch_writing ch) + ch_held ch"

abbreviation closers :: "channel \<Rightarrow> nat" where
  "closers ch \<equiv> length (List.filter close_task (ch_tasks ch))"

abbreviation releases :: "call list \<Rightarrow> nat" where
  "releases cs \<equiv> count_list cs Channel_Release"

definition tail_ok :: "call list \<Rightarrow> bool" where
  "tail_ok cs \<longleftrightarrow> cs = [] \<or> cs = [Leave] \<or> (\<exists>pre. cs = pre @ [Channel_Release] \<or> cs = pre @ [Channel_Release, Leave])"

definition refs_ok :: "call list \<Rightarrow> bool \<Rightarrow> bool \<Rightarrow> channel \<Rightarrow> bool" where
  "refs_ok cs e c ch \<longleftrightarrow>
     ch_flag ch = flag_val e c (owners c ch + releases cs) \<and> owners c ch + releases cs < 2 ^ 28 \<and>
     closers ch = (if e \<and> \<not> c then 1 else 0) \<and> (c \<longrightarrow> e) \<and>
     count_list (ch_tasks ch) Task_End = (if ch_flag ch = 0 then 1 else 0) \<and>
     (\<forall>a. Task_Open a \<notin> set (ch_tasks ch)) \<and> (e \<or> tail_ok cs) \<and> \<not> ch_deleted ch"

lemma tail_step:
  assumes "tail_ok (x # rest)" and "x = Channel_Release \<or> x = Leave \<Longrightarrow> new = []"
  shows "tail_ok (new @ rest)"
proof -
  consider "x = Leave" "rest = []" | pre where "x # rest = pre @ [Channel_Release]"
    | pre where "x # rest = pre @ [Channel_Release, Leave]"
    using assms(1) by (auto simp: tail_ok_def)
  then show ?thesis
  proof cases
    case 1
    then show ?thesis using assms(2) by (simp add: tail_ok_def)
  next
    case 2
    then show ?thesis using assms(2) by (cases pre) (auto simp: tail_ok_def)
  next
    case 3
    then show ?thesis using assms(2) by (cases pre) (auto simp: tail_ok_def)
  qed
qed

lemma tail_releases: "tail_ok (x # rest) \<Longrightarrow> x \<noteq> Leave \<Longrightarrow> 0 < releases (x # rest)"
  by (auto simp: tail_ok_def Cons_eq_append_conv)

lemma tail_last_release: "tail_ok (Channel_Release # rest) \<Longrightarrow> releases rest = 0 \<Longrightarrow> rest = [] \<or> rest = [Leave]"
  by (auto simp: tail_ok_def Cons_eq_append_conv)

lemma refs_positive:
  assumes "refs_ok (x # rest) e c ch" and "x \<noteq> Leave"
  shows "0 < owners c ch + releases (x # rest)"
proof (cases e)
  case True
  then have "c \<or> closers ch = 1" using assms(1) by (auto simp: refs_ok_def)
  moreover have "closers ch \<le> length (List.filter ref_task (ch_tasks ch))"
  proof -
    have "length (List.filter close_task ts) \<le> length (List.filter ref_task ts)" for ts
    proof (induction ts)
      case (Cons t ts)
      then show ?case by (cases t) auto
    qed simp
    then show ?thesis .
  qed
  ultimately show ?thesis by (auto simp: owners_def)
next
  case False
  then show ?thesis using assms tail_releases [of x rest] by (auto simp: refs_ok_def)
qed


section \<open>One call\<close>

lemma refs_move:
  assumes inv: "refs_ok (x # rest) e c ch" and room: "room ch"
    and flag: "ch_flag ch' = ch_flag ch + int k" and k: "k \<le> 1" "k = 1 \<Longrightarrow> x \<noteq> Leave"
    and own: "owners c ch' + releases new = owners c ch + k"
    and x: "x \<noteq> Channel_Release" "x = Leave \<Longrightarrow> new = []"
    and tasks: "closers ch' = closers ch" "count_list (ch_tasks ch') Task_End = count_list (ch_tasks ch) Task_End"
      "\<forall>a. Task_Open a \<notin> set (ch_tasks ch')" and del: "ch_deleted ch' = ch_deleted ch"
  shows "refs_ok (new @ rest) e c ch'"
proof -
  let ?n = "owners c ch + releases rest"
  have rel: "releases (x # rest) = releases rest" using x(1) by simp
  have f: "ch_flag ch = flag_val e c ?n" "?n < 2 ^ 28" using inv rel by (simp_all add: refs_ok_def)
  have "int ?n < 2 ^ 28 - 1" using room f flag_bits(3) [OF f(2), of e c] by (simp add: room_def)
  then have lt: "?n + k < 2 ^ 28" using k(1) by simp
  have f': "ch_flag ch' = flag_val e c (?n + k)" using f(1) flag by (simp add: flag_val_def)
  have "0 < ?n" if "k = 1" using refs_positive [OF inv k(2)] that rel by simp
  moreover have "k = 0 \<or> k = 1" using k(1) by auto
  ultimately have z: "(ch_flag ch' = 0) = (ch_flag ch = 0)" using f(1) f' by (elim disjE) (auto simp: flag_val_0)
  have "e \<or> tail_ok (new @ rest)"
    using inv x tail_step [of x rest new] by (auto simp: refs_ok_def)
  moreover have n: "owners c ch' + releases (new @ rest) = ?n + k" using own by simp
  moreover have "closers ch' = (if e \<and> \<not> c then 1 else 0)" "c \<longrightarrow> e" "\<not> ch_deleted ch'"
    "count_list (ch_tasks ch') Task_End = (if ch_flag ch' = 0 then 1 else 0)"
    using inv tasks del z by (simp_all add: refs_ok_def)
  ultimately show ?thesis using f' lt tasks(3) unfolding refs_ok_def n by blast
qed

lemma refs_close:
  assumes inv: "refs_ok (Channel_Close ec # rest) e c ch"
  shows "\<exists>c'. refs_ok rest e c' (channel_close ec ch)"
proof -
  let ?n = "owners c ch + releases rest"
  have f: "ch_flag ch = flag_val e c ?n" "?n < 2 ^ 28" using inv by (simp_all add: refs_ok_def)
  have tail: "e \<or> tail_ok rest" using inv tail_step [of "Channel_Close ec" rest "[]"] by (auto simp: refs_ok_def)
  show ?thesis
  proof (cases c)
    case True
    then have e: e using inv by (simp add: refs_ok_def)
    have r: "reset_if_val_contains_bit (ch_flag ch) close_flag = (True, flag_val e False ?n)"
      using flag_ops(2) [OF f(2), of e c] f(1) True by simp
    have own: "owners False (channel_close ec ch) = owners c ch"
      using r True by (simp add: channel_close_def execute_task_def owners_def)
    have "refs_ok rest e False (channel_close ec ch)"
      using inv f r own e True unfolding refs_ok_def
      by (auto simp: channel_close_def execute_task_def flag_val_0 flag_val_def)
    then show ?thesis by blast
  next
    case False
    have r: "reset_if_val_contains_bit (ch_flag ch) close_flag = (False, ch_flag ch)"
      using flag_ops(2) [OF f(2), of e c] f(1) False by simp
    have "channel_close ec ch = ch" using r by (simp add: channel_close_def)
    then have "refs_ok rest e c (channel_close ec ch)" using inv tail by (simp add: refs_ok_def)
    then show ?thesis by blast
  qed
qed

lemma refs_release:
  assumes inv: "refs_ok (Channel_Release # rest) e c ch"
  shows "refs_ok rest e c (snd (channel_release ch))"
proof -
  let ?n = "owners c ch + releases rest"
  let ?ch = "snd (channel_release ch)"
  have f: "ch_flag ch = flag_val e c (Suc ?n)" "Suc ?n < 2 ^ 28" using inv by (simp_all add: refs_ok_def)
  then have f': "ch_flag ch - 1 = flag_val e c ?n" and nz: "ch_flag ch \<noteq> 0"
    by (simp_all add: flag_val_def flag_val_0)
  have own: "owners c ?ch = owners c ch"
    by (simp add: channel_release_def Let_def execute_task_def owners_def)
  have fl: "ch_flag ?ch = flag_val e c ?n" using f' by (simp add: channel_release_def Let_def execute_task_def)
  have "e \<or> tail_ok rest" using inv tail_step [of Channel_Release rest "[]"] by (auto simp: refs_ok_def)
  moreover have "count_list (ch_tasks ?ch) Task_End = (if ch_flag ?ch = 0 then 1 else 0)"
    using inv nz f' fl by (simp add: channel_release_def Let_def execute_task_def refs_ok_def)
  moreover have "closers ?ch = closers ch" "\<forall>a. Task_Open a \<notin> set (ch_tasks ?ch)" "ch_deleted ?ch = ch_deleted ch"
    using inv by (auto simp: channel_release_def Let_def execute_task_def refs_ok_def)
  ultimately show ?thesis using inv fl own f(2) by (simp add: refs_ok_def)
qed

fun heads :: "call list \<Rightarrow> event list" where
  "heads [] = []"
| "heads (Fire_Head evt # cs) = evt # heads cs"
| "heads (_ # cs) = heads cs"

lemma heads_append [simp]: "heads (xs @ ys) = heads xs @ heads ys"
  by (induction xs rule: heads.induct) auto

lemma heads_does [simp]: "heads (map (Filter_Does f) as) = []"
  by (induction as) auto

lemma count_does [simp]:
  "count_list (map (Filter_Does f) as) Channel_Release = 0" "count_list (map (Filter_Does f) as) Read = 0"
  "count_list (map (Filter_Does f) as) Write_Remains = 0"
  by (induction as) auto

fun io_event :: "event \<Rightarrow> bool" where
  "io_event (On_Read buf) = True"
| "io_event (On_Write n flush) = True"
| "io_event _ = False"

text \<open>The events the channel gives to its pipeline, before and after it was closed.\<close>

definition story :: "bool \<Rightarrow> event list \<Rightarrow> bool" where
  "story open_yet evs \<longleftrightarrow> (\<exists>a io. (\<forall>x\<in>set io. io_event x) \<and>
     (if open_yet then evs = On_Open a # io else \<exists>ec. evs = On_Open a # io @ [On_Error ec, On_Close]))"

definition io_ok :: "call list \<Rightarrow> channel \<Rightarrow> bool" where
  "io_ok cs ch \<longleftrightarrow> ch_reading ch + count_list cs Read \<le> 1 \<and>
     length (ch_writing ch) + count_list cs Write_Remains \<le> 1 \<and>
     (length (ch_writing ch) + count_list cs Write_Remains = 1 \<longrightarrow> ch_write_buffers ch \<noteq> [])"

definition ch_inv :: "call list \<Rightarrow> channel \<Rightarrow> bool" where
  "ch_inv cs ch \<longleftrightarrow> (\<exists>e c. refs_ok cs e c ch \<and> story e (ch_fired ch @ heads cs)) \<and> io_ok cs ch"

lemma ch_invE:
  assumes "ch_inv cs ch"
  obtains e c where "refs_ok cs e c ch" "story e (ch_fired ch @ heads cs)" "io_ok cs ch"
  using assms by (auto simp: ch_inv_def)

lemma ch_invI: "refs_ok cs e c ch \<Longrightarrow> story e (ch_fired ch @ heads cs) \<Longrightarrow> io_ok cs ch \<Longrightarrow> ch_inv cs ch"
  by (auto simp: ch_inv_def)

lemma refs_check: "refs_ok cs e c ch \<Longrightarrow> check_if_val_contains_bit (ch_flag ch) close_flag = c"
  by (simp add: refs_ok_def flag_ops)

lemma refs_tasks: "refs_ok cs e c ch \<Longrightarrow> Task_Open a \<notin> set (ch_tasks ch)"
  by (simp add: refs_ok_def)

text \<open>A step that starts no read and no write at the socket and gives no event to the pipeline.\<close>

lemma quiet_step:
  assumes "refs_ok (x # rest) e c ch" and "refs_ok (new @ rest) e c' ch'" and "story e (ch_fired ch @ heads (x # rest))"
    and "io_ok (x # rest) ch" and "heads [x] = []" "heads new = []" and "x \<noteq> Read" "x \<noteq> Write_Remains"
    and "count_list new Read = 0" "count_list new Write_Remains = 0"
    and "ch_fired ch' = ch_fired ch" "ch_reading ch' = ch_reading ch" "ch_writing ch' = ch_writing ch"
      "ch_write_buffers ch' = ch_write_buffers ch"
  shows "ch_inv (new @ rest) ch'"
proof (rule ch_invI [OF assms(2)])
  show "story e (ch_fired ch' @ heads (new @ rest))"
    using assms(3,5,6,11) heads_append [of "[x]" rest] by simp
  show "io_ok (new @ rest) ch'" using assms(4,7-10,12-14) by (simp add: io_ok_def)
qed

lemma step_fire_head:
  assumes "ch_inv (Fire_Head evt # rest) ch" and "room ch" and "fire_head evt ch = (new, ch')"
  shows "ch_inv (new @ rest) ch'"
proof (rule ch_invE [OF assms(1)])
  fix e c assume inv: "refs_ok (Fire_Head evt # rest) e c ch" "story e (ch_fired ch @ heads (Fire_Head evt # rest))"
    "io_ok (Fire_Head evt # rest) ch"
  have new: "releases new = 0" "heads new = []" "count_list new Read = 0" "count_list new Write_Remains = 0"
    using assms(3) by (auto simp: fire_head_def split: option.splits)
  have ch': "ch' = ch\<lparr>ch_pipeline := holder_enter (ch_pipeline ch), ch_fired := ch_fired ch @ [evt]\<rparr>"
    using assms(3) by (simp add: fire_head_def)
  show ?thesis
  proof (rule ch_invI)
    show "refs_ok (new @ rest) e c ch'"
      by (rule refs_move [OF inv(1) assms(2), where k = 0])
        (use refs_tasks [OF inv(1)] new in \<open>simp_all add: ch' owners_def\<close>)
    show "story e (ch_fired ch' @ heads (new @ rest))" using inv(2) new by (simp add: ch')
    show "io_ok (new @ rest) ch'" using inv(3) new by (simp add: ch' io_ok_def)
  qed
qed

lemma step_filter_event:
  assumes "ch_inv (Filter_Event f evt # rest) ch" and "room ch" and "filter_event h f evt ch = Some (new, ch')"
  shows "ch_inv (new @ rest) ch'"
proof (rule ch_invE [OF assms(1)])
  fix e c assume inv: "refs_ok (Filter_Event f evt # rest) e c ch" "story e (ch_fired ch @ heads (Filter_Event f evt # rest))"
    "io_ok (Filter_Event f evt # rest) ch"
  have new: "new = map (Filter_Does f) (h f evt)" "ch' = ch\<lparr>ch_seen := ch_seen ch @ [(f, evt)]\<rparr>"
    using assms(3) by (auto simp: filter_event_def split: if_splits)
  have "refs_ok (new @ rest) e c ch'"
    by (rule refs_move [OF inv(1) assms(2), where k = 0])
      (use refs_tasks [OF inv(1)] in \<open>simp_all add: new owners_def\<close>)
  then show ?thesis by (rule quiet_step [OF inv(1) _ inv(2,3)]) (simp_all add: new)
qed

lemma step_filter_does:
  assumes "ch_inv (Filter_Does f a # rest) ch" and "room ch" and "filter_does f a ch = Some (new, ch')"
  shows "ch_inv (new @ rest) ch'"
proof (rule ch_invE [OF assms(1)])
  fix e c assume inv: "refs_ok (Filter_Does f a # rest) e c ch" "story e (ch_fired ch @ heads (Filter_Does f a # rest))"
    "io_ok (Filter_Does f a # rest) ch"
  note quiet = quiet_step [OF inv(1) _ inv(2,3)]
  show ?thesis
  proof (cases "a = Add_Ref \<or> a = Release")
    case False
    then have new: "ch' = ch" "releases new = 0" "heads new = []" "count_list new Read = 0" "count_list new Write_Remains = 0"
      using assms(3) by (cases a; auto simp: filter_fire_def split: option.splits if_splits)+
    have "refs_ok (new @ rest) e c ch'"
      by (rule refs_move [OF inv(1) assms(2), where k = 0]) (use refs_tasks [OF inv(1)] new in simp_all)
    then show ?thesis by (rule quiet) (simp_all add: new)
  next
    case True
    then show ?thesis
    proof
      assume "a = Add_Ref"
      then have new: "new = []" "ch' = (channel_add_ref ch)\<lparr>ch_held := ch_held ch + 1\<rparr>" using assms(3) by simp_all
      have "refs_ok (new @ rest) e c ch'"
        by (rule refs_move [OF inv(1) assms(2), where k = 1])
          (use refs_tasks [OF inv(1)] in \<open>simp_all add: new channel_add_ref_def owners_def\<close>)
      then show ?thesis by (rule quiet) (simp_all add: new channel_add_ref_def)
    next
      assume "a = Release"
      then have new: "new = [Channel_Release]" "ch' = ch\<lparr>ch_held := ch_held ch - 1\<rparr>" "0 < ch_held ch"
        using assms(3) by (auto split: if_splits)
      have "refs_ok (new @ rest) e c ch'"
        by (rule refs_move [OF inv(1) assms(2), where k = 0])
          (use refs_tasks [OF inv(1)] new(3) in \<open>simp_all add: new(1,2) owners_def\<close>)
      then show ?thesis by (rule quiet) (simp_all add: new(1,2))
    qed
  qed
qed

lemma step_fire_at:
  assumes "ch_inv (Fire_At pf evt # rest) ch" and "room ch" and "fire_at lp pf evt ch = (new, ch')"
  shows "ch_inv (new @ rest) ch'"
proof (rule ch_invE [OF assms(1)])
  fix e c assume inv: "refs_ok (Fire_At pf evt # rest) e c ch" "story e (ch_fired ch @ heads (Fire_At pf evt # rest))"
    "io_ok (Fire_At pf evt # rest) ch"
  note quiet = quiet_step [OF inv(1) _ inv(2,3)]
  have new: "releases new = 0" "heads new = []" "count_list new Read = 0" "count_list new Write_Remains = 0"
    using assms(3) by (auto simp: fire_at_def split: if_splits option.splits)
  consider "ch' = ch" | "ch' = execute_task (Task_Fire pf evt) (channel_add_ref ch)"
    using assms(3) by (auto simp: fire_at_def split: if_splits)
  then show ?thesis
  proof cases
    case 1
    then have "refs_ok (new @ rest) e c ch'"
      by (intro refs_move [OF inv(1) assms(2), where k = 0]) (use refs_tasks [OF inv(1)] new in simp_all)
    then show ?thesis by (rule quiet) (simp_all add: new 1)
  next
    case 2
    then have "refs_ok (new @ rest) e c ch'"
      by (intro refs_move [OF inv(1) assms(2), where k = 1])
        (use refs_tasks [OF inv(1)] new in \<open>simp_all add: execute_task_def channel_add_ref_def owners_def\<close>)
    then show ?thesis by (rule quiet) (simp_all add: new 2 execute_task_def channel_add_ref_def)
  qed
qed

text \<open>Starting a read or a write takes a reference for it.\<close>

lemma step_read:
  assumes "ch_inv (Read # rest) ch" and "room ch"
  shows "ch_inv rest (channel_read ch)"
proof (rule ch_invE [OF assms(1)])
  fix e c assume inv: "refs_ok (Read # rest) e c ch" "story e (ch_fired ch @ heads (Read # rest))" "io_ok (Read # rest) ch"
  have ch: "channel_read ch = (if c then (channel_add_ref ch)\<lparr>ch_reading := ch_reading ch + 1\<rparr> else ch)"
    by (simp add: channel_read_def refs_check [OF inv(1)])
  have "refs_ok ([] @ rest) e c (channel_read ch)"
    by (rule refs_move [OF inv(1) assms(2), where k = "if c then 1 else 0"])
      (use refs_tasks [OF inv(1)] in \<open>auto simp: ch channel_add_ref_def owners_def\<close>)
  then show ?thesis using inv(2,3) by (intro ch_invI) (auto simp: ch io_ok_def channel_add_ref_def)
qed

lemma refs_write_remains:
  assumes "refs_ok (x # rest) e c ch" and "room ch" and "x \<noteq> Leave" "x \<noteq> Channel_Release"
  shows "refs_ok rest e c (write_remains ch)"
  using refs_move [OF assms(1,2), where k = "if c then 1 else 0" and new = "[]" and ch' = "write_remains ch"]
    refs_tasks [OF assms(1)] assms(3,4)
  by (auto simp: write_remains_def refs_check [OF assms(1)] channel_add_ref_def owners_def Let_def)

lemma step_write_remains:
  assumes "ch_inv (Write_Remains # rest) ch" and "room ch"
  shows "ch_inv rest (write_remains ch)"
proof (rule ch_invE [OF assms(1)])
  fix e c assume inv: "refs_ok (Write_Remains # rest) e c ch" "story e (ch_fired ch @ heads (Write_Remains # rest))"
    "io_ok (Write_Remains # rest) ch"
  have "refs_ok rest e c (write_remains ch)" by (rule refs_write_remains [OF inv(1) assms(2)]) simp_all
  then show ?thesis using inv(2,3)
    by (intro ch_invI) (auto simp: write_remains_def io_ok_def channel_add_ref_def Let_def)
qed

lemma refs_ok_buffers: "refs_ok cs e c (ch\<lparr>ch_write_buffers := b\<rparr>) = refs_ok cs e c ch"
  by (simp add: refs_ok_def owners_def)

lemma refs_ok_buffer: "refs_ok cs e c (ch\<lparr>ch_buffer := b\<rparr>) = refs_ok cs e c ch"
  by (simp add: refs_ok_def owners_def)

lemma room_buffers: "room (ch\<lparr>ch_write_buffers := b\<rparr>) = room ch"
  by (simp add: room_def)

lemma step_channel_write:
  assumes "ch_inv (Channel_Write buf # rest) ch" and "room ch"
  shows "ch_inv rest (do_write True buf ch)"
proof (rule ch_invE [OF assms(1)])
  fix e c assume inv: "refs_ok (Channel_Write buf # rest) e c ch"
    "story e (ch_fired ch @ heads (Channel_Write buf # rest))" "io_ok (Channel_Write buf # rest) ch"
  let ?ch = "ch\<lparr>ch_write_buffers := ch_write_buffers ch @ [buf]\<rparr>"
  have w: "refs_ok rest e c (write_remains ?ch)"
    by (rule refs_write_remains [of "Channel_Write buf"]) (use inv(1) assms(2) in \<open>simp_all add: refs_ok_buffers room_buffers\<close>)
  have s: "refs_ok ([] @ rest) e c ch"
    by (rule refs_move [OF inv(1) assms(2), where k = 0]) (use refs_tasks [OF inv(1)] in simp_all)
  show ?thesis
  proof (cases "c \<and> ch_write_buffers ch = []")
    case True
    then have eq: "do_write True buf ch = write_remains ?ch" by (simp add: do_write_def refs_check [OF inv(1)])
    have "length (ch_writing ch) + count_list rest Write_Remains \<le> 1"
      "length (ch_writing ch) + count_list rest Write_Remains \<noteq> 1" using inv(3) True by (simp_all add: io_ok_def)
    then have "length (ch_writing ch) = 0" "count_list rest Write_Remains = 0" by linarith+
    then have "io_ok rest (write_remains ?ch)"
      using inv(3) True by (auto simp: io_ok_def write_remains_def channel_add_ref_def Let_def)
    then show ?thesis using w inv(2) unfolding eq
      by (intro ch_invI) (auto simp: write_remains_def channel_add_ref_def Let_def)
  next
    case False
    then have "do_write True buf ch = (if c then ?ch else ch)" by (simp add: do_write_def refs_check [OF inv(1)])
    then show ?thesis using s inv(2,3) by (intro ch_invI) (auto simp: io_ok_def refs_ok_buffers)
  qed
qed

lemma channel_close_same [simp]:
  "ch_fired (channel_close ec ch) = ch_fired ch" "ch_reading (channel_close ec ch) = ch_reading ch"
  "ch_writing (channel_close ec ch) = ch_writing ch" "ch_write_buffers (channel_close ec ch) = ch_write_buffers ch"
  "ch_held (channel_close ec ch) = ch_held ch"
  by (simp_all add: channel_close_def execute_task_def Let_def case_prod_unfold)

lemma call_step_inv:
  assumes "ch_inv (x # rest) ch" and "room ch" and "call_step h True x ch = Some (new, ch')"
  shows "ch_inv (new @ rest) ch'"
proof (cases x)
  case Leave
  show ?thesis
  proof (rule ch_invE [OF assms(1)])
    fix e c assume inv: "refs_ok (x # rest) e c ch" "story e (ch_fired ch @ heads (x # rest))" "io_ok (x # rest) ch"
    have new: "new = []" "ch' = leave ch" using assms(3) Leave by simp_all
    have "refs_ok (new @ rest) e c ch'"
      by (rule refs_move [OF inv(1) assms(2), where k = 0])
        (use refs_tasks [OF inv(1)] Leave in \<open>simp_all add: new leave_def owners_def\<close>)
    then show ?thesis by (rule quiet_step [OF inv(1) _ inv(2,3)]) (simp_all add: new leave_def Leave)
  qed
next
  case Clear_Buffer
  show ?thesis
  proof (rule ch_invE [OF assms(1)])
    fix e c assume inv: "refs_ok (x # rest) e c ch" "story e (ch_fired ch @ heads (x # rest))" "io_ok (x # rest) ch"
    have new: "new = []" "ch' = ch\<lparr>ch_buffer := []\<rparr>" using assms(3) Clear_Buffer by simp_all
    have "refs_ok (new @ rest) e c ch'"
      by (rule refs_move [OF inv(1) assms(2), where k = 0])
        (use refs_tasks [OF inv(1)] Clear_Buffer in \<open>simp_all add: new owners_def\<close>)
    then show ?thesis by (rule quiet_step [OF inv(1) _ inv(2,3)]) (simp_all add: new Clear_Buffer)
  qed
next
  case (Channel_Close ec)
  show ?thesis
  proof (rule ch_invE [OF assms(1)])
    fix e c assume inv: "refs_ok (x # rest) e c ch" "story e (ch_fired ch @ heads (x # rest))" "io_ok (x # rest) ch"
    have new: "new = []" "ch' = channel_close ec ch" using assms(3) Channel_Close by simp_all
    obtain c' where "refs_ok (new @ rest) e c' ch'"
      using refs_close [of ec rest e c ch] inv(1) Channel_Close new by auto
    then show ?thesis by (rule quiet_step [OF inv(1) _ inv(2,3)])
      (simp_all add: new Channel_Close)
  qed
next
  case Channel_Release
  show ?thesis
  proof (rule ch_invE [OF assms(1)])
    fix e c assume inv: "refs_ok (x # rest) e c ch" "story e (ch_fired ch @ heads (x # rest))" "io_ok (x # rest) ch"
    have new: "new = []" "ch' = snd (channel_release ch)" using assms(3) Channel_Release by simp_all
    have "refs_ok (new @ rest) e c ch'" using refs_release [of rest e c ch] inv(1) Channel_Release new by simp
    then show ?thesis by (rule quiet_step [OF inv(1) _ inv(2,3)])
      (simp_all add: new Channel_Release channel_release_def execute_task_def Let_def)
  qed
qed (use assms step_fire_head step_filter_event step_filter_does step_fire_at step_read step_write_remains
    step_channel_write in \<open>auto\<close>)

lemma run_calls_inv:
  assumes "run_calls h lp cs ch = Some ch'" and "lp" and "ch_inv cs ch"
  shows "ch_inv [] ch'"
  using assms(2,3)
proof (induction rule: run_calls.raw_induct [OF _ assms(1)])
  case (1 run h lp cs ch ch')
  show ?case
  proof (cases cs)
    case Nil
    then show ?thesis using 1(2,4) by simp
  next
    case (Cons x rest)
    then have ok: "\<not> ch_deleted ch" "room ch" using 1(2) by (auto split: if_splits)
    then obtain new ch1 where st: "call_step h lp x ch = Some (new, ch1)" "run h lp (new @ rest) ch1 = Some ch'"
      using 1(2) Cons by (auto simp: bind_eq_Some_iff)
    have "ch_inv (new @ rest) ch1" using call_step_inv [of x rest ch h new ch1] 1(3,4) Cons ok st(1) by simp
    then show ?thesis using 1(1) [OF st(2)] 1(3) by simp
  qed
qed

section \<open>The loop and other threads\<close>

inductive ch_reach :: "behaviour \<Rightarrow> channel \<Rightarrow> bool" for h where
  opened: "open_channel h a pl = Some ch \<Longrightarrow> ch_reach h ch"
| task: "ch_reach h ch \<Longrightarrow> ch_tasks ch \<noteq> [] \<Longrightarrow> loop_task h ch = Some ch' \<Longrightarrow> ch_reach h ch'"
| read: "ch_reach h ch \<Longrightarrow> 0 < ch_reading ch \<Longrightarrow> loop_read h ec input ch = Some ch' \<Longrightarrow> ch_reach h ch'"
| written: "ch_reach h ch \<Longrightarrow> ch_writing ch \<noteq> [] \<Longrightarrow> loop_write h ec n ch = Some ch' \<Longrightarrow> ch_reach h ch'"
| outside: "ch_reach h ch \<Longrightarrow> 0 < ch_held ch \<Longrightarrow> room ch \<Longrightarrow> ch_reach h (outside_call a f ch)"

text \<open>After the end nothing is left that could touch the channel.\<close>

definition ended :: "channel \<Rightarrow> bool" where
  "ended ch \<longleftrightarrow> ch_deleted ch \<and> ch_tasks ch = [] \<and> ch_reading ch = 0 \<and> ch_writing ch = [] \<and> ch_held ch = 0 \<and>
     story False (ch_fired ch)"

lemma refs_tail: "refs_ok cs e c ch \<Longrightarrow> e \<or> tail_ok cs"
  by (simp add: refs_ok_def)

text \<open>Entering the loop with a list of calls: an owner became a pending release.\<close>

lemma refs_enter:
  assumes inv: "refs_ok [] e c ch" and "ch_flag ch' = ch_flag ch" and "owners c ch' + releases cs = owners c ch"
    and "closers ch' = closers ch" "count_list (ch_tasks ch') Task_End = count_list (ch_tasks ch) Task_End"
    and "set (ch_tasks ch') \<subseteq> set (ch_tasks ch)" "ch_deleted ch' = ch_deleted ch" and "tail_ok cs"
  shows "refs_ok cs e c ch'"
  using assms unfolding refs_ok_def by auto

lemma loop_read_inv:
  assumes "ch_inv [] ch" and "0 < ch_reading ch" and "loop_read h ec input ch = Some ch'"
  shows "ch_inv [] ch'"
proof (rule ch_invE [OF assms(1)])
  fix e c assume inv: "refs_ok [] e c ch" "story e (ch_fired ch @ heads [])" "io_ok [] ch"
  let ?ch = "ch\<lparr>ch_reading := ch_reading ch - 1\<rparr>"
  obtain cs ch1 where st: "handle_read ec input ?ch = (cs, ch1)" "run_calls h True (cs @ [Channel_Release]) ch1 = Some ch'"
    using assms(3) by (auto simp: loop_read_def Let_def split: if_splits prod.splits)
  have r: "refs_ok (cs @ [Channel_Release]) e c ?ch" if "releases cs = 0" for cs
    by (rule refs_enter [OF inv(1)]) (use assms(2) that in \<open>auto simp: owners_def tail_ok_def\<close>)
  have chk: "check_if_val_contains_bit (ch_flag ?ch) close_flag = c" using refs_check [OF inv(1)] by simp
  have "ch_inv (cs @ [Channel_Release]) ch1"
  proof (cases "c \<and> \<not> has_error ec")
    case True
    then have st1: "cs = [Fire_Head (On_Read (ch_buffer ch @ input)), Clear_Buffer, Read]"
      "ch1 = ?ch\<lparr>ch_buffer := ch_buffer ch @ input\<rparr>" using st(1) chk by (simp_all add: handle_read_def Let_def)
    have "e" using inv(1) True by (simp add: refs_ok_def)
    then have "story e (ch_fired ch @ [On_Read (ch_buffer ch @ input)])"
      using inv(2) by (auto simp: story_def intro!: exI [of _ "_ @ [On_Read (ch_buffer ch @ input)]"])
    then show ?thesis
      using r [of cs] inv(3) st1 assms(2) by (intro ch_invI [of _ e c]) (simp_all add: refs_ok_buffer io_ok_def)
  next
    case False
    then have st1: "cs = []" "ch1 = (if c then channel_close ec ?ch else ?ch)"
      using st(1) chk by (auto simp: handle_read_def)
    have io: "io_ok [Channel_Release] ch1" using inv(3) assms(2) st1(2) by (auto simp: io_ok_def)
    have "story e (ch_fired ch1 @ heads [Channel_Release])" using inv(2) st1(2) by simp
    moreover obtain c' where "refs_ok [Channel_Release] e c' ch1"
      using refs_close [of ec "[Channel_Release]" e c ?ch] r [of "[Channel_Close ec]"] r [of "[]"] st1(2)
      by (cases c) auto
    ultimately show ?thesis using io st1(1) by (auto intro: ch_invI)
  qed
  then show ?thesis using run_calls_inv [OF st(2)] by simp
qed

lemma loop_write_inv:
  assumes "ch_inv [] ch" and "ch_writing ch \<noteq> []" and "loop_write h ec n ch = Some ch'"
  shows "ch_inv [] ch'"
proof (rule ch_invE [OF assms(1)])
  fix e c assume inv: "refs_ok [] e c ch" "story e (ch_fired ch @ heads [])" "io_ok [] ch"
  let ?ch = "ch\<lparr>ch_writing := tl (ch_writing ch)\<rparr>"
  have w: "tl (ch_writing ch) = []" "length (ch_writing ch) = 1"
    using inv(3) assms(2) by (cases "ch_writing ch"; auto simp: io_ok_def)+
  obtain cs ch1 where st: "handle_write ec n ?ch = (cs, ch1)" "run_calls h True (cs @ [Channel_Release]) ch1 = Some ch'"
    using assms(3) by (auto simp: loop_write_def Let_def split: if_splits prod.splits)
  have r: "refs_ok (cs @ [Channel_Release]) e c ?ch" if "releases cs = 0" for cs
    by (rule refs_enter [OF inv(1)]) (use w that in \<open>auto simp: owners_def tail_ok_def\<close>)
  have chk: "check_if_val_contains_bit (ch_flag ?ch) close_flag = c" using refs_check [OF inv(1)] by simp
  have "ch_inv (cs @ [Channel_Release]) ch1"
  proof (cases "c \<and> \<not> has_error ec")
    case True
    let ?bufs = "List.filter (\<lambda>b. b \<noteq> []) (consume n (ch_write_buffers ch))"
    have st1: "cs = Fire_Head (On_Write n (?bufs = [])) # (if ?bufs = [] then [] else [Write_Remains])"
      "ch1 = ?ch\<lparr>ch_write_buffers := ?bufs\<rparr>" using st(1) chk True by (simp_all add: handle_write_def Let_def)
    have "e" using inv(1) True by (simp add: refs_ok_def)
    then have "story e (ch_fired ch @ [On_Write n (?bufs = [])])"
      using inv(2) by (auto simp: story_def intro!: exI [of _ "_ @ [On_Write n (?bufs = [])]"])
    then show ?thesis
      using r [of cs] inv(3) st1 w by (intro ch_invI [of _ e c]) (auto simp: refs_ok_buffers io_ok_def)
  next
    case False
    then have st1: "cs = []" "ch1 = (if c then channel_close ec ?ch else ?ch)"
      using st(1) chk by (auto simp: handle_write_def)
    have io: "io_ok [Channel_Release] ch1" using inv(3) w st1(2) by (auto simp: io_ok_def)
    have "story e (ch_fired ch1 @ heads [Channel_Release])" using inv(2) st1(2) by simp
    moreover obtain c' where "refs_ok [Channel_Release] e c' ch1"
      using refs_close [of ec "[Channel_Release]" e c ?ch] r [of "[Channel_Close ec]"] r [of "[]"] st1(2)
      by (cases c) auto
    ultimately show ?thesis using io st1(1) by (auto intro: ch_invI)
  qed
  then show ?thesis using run_calls_inv [OF st(2)] by simp
qed

lemma task_close_inv:
  assumes "ch_inv [] ch" and "ch_tasks ch = Task_Close ec # ts"
    and "fire_on_close ec (ch\<lparr>ch_tasks := ts\<rparr>) = (cs, ch1)"
  shows "ch_inv cs ch1"
proof (rule ch_invE [OF assms(1)])
  fix e c assume inv: "refs_ok [] e c ch" "story e (ch_fired ch @ heads [])" "io_ok [] ch"
  have ec: "e" "\<not> c" "List.filter close_task ts = []" using inv(1) assms(2) by (auto simp: refs_ok_def split: if_splits)
  let ?n = "owners c ch"
  have f: "ch_flag ch = flag_val e c ?n" "?n < 2 ^ 28" using inv(1) by (simp_all add: refs_ok_def)
  have r: "reset_if_val_contains_bit (ch_flag ch) error_flag = (True, flag_val False False ?n)"
    using flag_ops(3) [OF f(2), of e c] f(1) ec by simp
  have st: "cs = [Fire_Head (On_Error ec), Fire_Head On_Close, Channel_Release]"
    "ch1 = ch\<lparr>ch_tasks := ts, ch_fd := False, ch_flag := flag_val False False ?n\<rparr>"
    using assms(3) r by (auto simp: fire_on_close_def Let_def)
  have own: "?n = Suc (owners False ch1)" using assms(2) ec(2) by (simp add: st(2) owners_def)
  have "count_list ts Task_End = 0" using inv(1) assms(2) f(1) ec(1) by (simp add: refs_ok_def flag_val_0)
  moreover have "ch_flag ch1 = flag_val False False (owners False ch1 + releases cs)" "owners False ch1 + releases cs < 2 ^ 28"
    using own f(2) by (simp_all add: st)
  moreover have "0 < owners False ch" using own ec(2) by simp
  ultimately have "refs_ok cs False False ch1"
    using inv(1) ec assms(2) unfolding refs_ok_def by (auto simp: st flag_val_0 tail_ok_def)
  moreover have "story False (ch_fired ch1 @ heads cs)" using inv(2) ec(1) by (auto simp: story_def st)
  moreover have "io_ok cs ch1" using inv(3) by (simp add: st io_ok_def)
  ultimately show ?thesis by (rule ch_invI)
qed

lemma task_end_ends:
  assumes "ch_inv [] ch" and "ch_tasks ch = Task_End # ts"
    and "fire_on_end_reference (ch\<lparr>ch_tasks := ts\<rparr>) = Some ch'"
  shows "ended ch'"
proof (rule ch_invE [OF assms(1)])
  fix e c assume inv: "refs_ok [] e c ch" "story e (ch_fired ch @ heads [])" "io_ok [] ch"
  have z: "ch_flag ch = 0" "count_list ts Task_End = 0" using inv(1) assms(2) by (auto simp: refs_ok_def split: if_splits)
  then have o: "\<not> e" "owners c ch = 0" using inv(1) by (auto simp: refs_ok_def flag_val_0)
  have "ts = []"
  proof (rule ccontr)
    assume "ts \<noteq> []"
    then obtain t where t: "t \<in> set ts" by (cases ts) auto
    then have "\<not> ref_task t" using o(2) assms(2) by (auto simp: owners_def filter_empty_conv)
    moreover have "t \<noteq> Task_End" using z(2) t by (auto simp: count_list_0_iff)
    moreover have "\<forall>a. t \<noteq> Task_Open a" using inv(1) assms(2) t by (auto simp: refs_ok_def)
    ultimately show False by (cases t) auto
  qed
  then show ?thesis using assms(3) o inv(2) by (auto simp: fire_on_end_reference_def ended_def owners_def)
qed

lemma loop_task_inv:
  assumes "ch_inv [] ch" and "loop_task h ch = Some ch'"
  shows "ch_inv [] ch' \<or> ended ch'"
proof (cases "ch_tasks ch")
  case Nil
  then show ?thesis using assms by (simp add: loop_task_def)
next
  case (Cons t ts)
  obtain e c where inv: "refs_ok [] e c ch" "story e (ch_fired ch @ heads [])" "io_ok [] ch"
    using assms(1) by (rule ch_invE)
  obtain cs ch1 where st: "task_run t (ch\<lparr>ch_tasks := ts\<rparr>) = Some (cs, ch1)" "run_calls h True cs ch1 = Some ch'"
    using assms(2) Cons by (auto simp: loop_task_def bind_eq_Some_iff split: if_splits)
  have enter: "ch_inv cs ch1" if "ref_task t" "\<not> close_task t" "releases cs = 1" "heads cs = []" "tail_ok cs"
    "count_list cs Read = 0" "count_list cs Write_Remains = 0"
    "ch1 = ch\<lparr>ch_tasks := ts\<rparr> \<or> ch1 = ch\<lparr>ch_tasks := ts, ch_pipeline := holder_enter (ch_pipeline ch)\<rparr>"
  proof (rule ch_invI)
    have "t \<noteq> Task_End" using that(1) by auto
    then show "refs_ok cs e c ch1"
      by (intro refs_enter [OF inv(1)]) (use that Cons in \<open>auto simp: owners_def\<close>)
    show "story e (ch_fired ch1 @ heads cs)" "io_ok cs ch1" using inv(2,3) that by (auto simp: io_ok_def)
  qed
  show ?thesis
  proof (cases t)
    case (Task_Open a)
    then show ?thesis using inv(1) Cons by (auto simp: refs_ok_def)
  next
    case (Task_Close ec)
    then have "ch_inv cs ch1" using task_close_inv [OF assms(1), of ec ts cs ch1] Cons st(1) by simp
    then show ?thesis using run_calls_inv [OF st(2)] by simp
  next
    case Task_End
    then obtain ch2 where "fire_on_end_reference (ch\<lparr>ch_tasks := ts\<rparr>) = Some ch2" "cs = []" "ch1 = ch2"
      using st(1) by auto
    then show ?thesis
      using task_end_ends [OF assms(1), of ts ch2] Cons Task_End st(2) by (simp add: run_calls.simps)
  next
    case (Task_Write buf)
    then have "ch_inv cs ch1" using st(1) by (intro enter) (auto simp: tail_ok_def)
    then show ?thesis using run_calls_inv [OF st(2)] by simp
  next
    case (Task_Fire pf evt)
    then have "ch_inv cs ch1" using st(1) by (intro enter) (auto simp: tail_ok_def split: option.splits)
    then show ?thesis using run_calls_inv [OF st(2)] by simp
  qed
qed

lemma refs_grow:
  assumes inv: "refs_ok [] e c ch" and "0 < owners c ch" and room: "room ch"
    and "ch_flag ch' = ch_flag ch + 1" "owners c ch' = owners c ch + 1" "closers ch' = closers ch"
      "count_list (ch_tasks ch') Task_End = count_list (ch_tasks ch) Task_End"
      "\<forall>a. Task_Open a \<notin> set (ch_tasks ch')" "ch_deleted ch' = ch_deleted ch"
  shows "refs_ok [] e c ch'"
proof -
  have f: "ch_flag ch = flag_val e c (owners c ch)" "owners c ch < 2 ^ 28" using inv by (simp_all add: refs_ok_def)
  have "int (owners c ch) < 2 ^ 28 - 1" using room f flag_bits(3) [OF f(2), of e c] by (simp add: room_def)
  moreover have "ch_flag ch' = flag_val e c (owners c ch')" using f(1) assms(4,5) by (simp add: flag_val_def)
  ultimately show ?thesis
    using inv assms(2,5-9) f(1) unfolding refs_ok_def by (auto simp: flag_val_0)
qed

lemma outside_inv:
  assumes "ch_inv [] ch" and "0 < ch_held ch" and "room ch"
  shows "ch_inv [] (outside_call a f ch)"
proof (rule ch_invE [OF assms(1)])
  fix e c assume inv: "refs_ok [] e c ch" "story e (ch_fired ch @ heads [])" "io_ok [] ch"
  have own: "0 < owners c ch" using assms(2) by (simp add: owners_def)
  note grow = refs_grow [OF inv(1) own assms(3)]
  note tasks = refs_tasks [OF inv(1)]
  show ?thesis
  proof (cases a)
    case (Fire evt)
    have ch: "outside_call a f ch = execute_task (Task_Fire (Some f) evt) (channel_add_ref ch)"
      by (simp add: Fire fire_at_def in_pipeline_def)
    have "refs_ok [] e c (outside_call a f ch)"
      by (rule grow) (use tasks in \<open>simp_all add: ch execute_task_def channel_add_ref_def owners_def\<close>)
    then show ?thesis using inv(2,3)
      by (intro ch_invI) (simp_all add: ch execute_task_def channel_add_ref_def io_ok_def)
  next
    case (Write_Channel buf)
    have ch: "outside_call a f ch = (if c then execute_task (Task_Write buf) (channel_add_ref ch) else ch)"
      by (simp add: Write_Channel do_write_def refs_check [OF inv(1)])
    have "refs_ok [] e c (execute_task (Task_Write buf) (channel_add_ref ch))"
      by (rule grow) (use tasks in \<open>simp_all add: execute_task_def channel_add_ref_def owners_def\<close>)
    then show ?thesis using inv
      by (intro ch_invI [of _ e c]) (auto simp: ch execute_task_def channel_add_ref_def io_ok_def)
  next
    case (Close ec)
    have "\<exists>c'. refs_ok [] e c' (channel_close ec ch)"
    proof (cases e)
      case True
      then show ?thesis using inv(1) by (intro refs_close [of _ _ _ c]) (simp add: refs_ok_def)
    next
      case False
      then have "\<not> c" using inv(1) by (simp add: refs_ok_def)
      then have "channel_close ec ch = ch"
        using flag_ops(2) [of "owners c ch" e c] inv(1) by (simp add: channel_close_def refs_ok_def)
      then show ?thesis using inv(1) by auto
    qed
    then show ?thesis using inv(2,3) Close by (auto intro!: ch_invI simp: io_ok_def)
  next
    case Add_Ref
    have "refs_ok [] e c (outside_call a f ch)"
      by (rule grow) (use tasks in \<open>simp_all add: Add_Ref channel_add_ref_def owners_def\<close>)
    then show ?thesis using inv(2,3) by (intro ch_invI) (simp_all add: Add_Ref channel_add_ref_def io_ok_def)
  next
    case Release
    let ?ch = "ch\<lparr>ch_held := ch_held ch - 1\<rparr>"
    have "refs_ok [Channel_Release] e c ?ch"
      by (rule refs_enter [OF inv(1)]) (use assms(2) in \<open>auto simp: owners_def tail_ok_def\<close>)
    then have "refs_ok [] e c (outside_call a f ch)" using refs_release Release by simp
    then show ?thesis using inv(2,3)
      by (intro ch_invI) (simp_all add: Release channel_release_def execute_task_def Let_def io_ok_def)
  qed
qed

lemma open_inv: "open_channel h a pl = Some ch \<Longrightarrow> ch_inv [] ch"
proof -
  assume "open_channel h a pl = Some ch"
  then have run: "run_calls h True [Fire_Head (On_Open a), Read] (channel_add_ref (channel_ctor pl)) = Some ch"
    by (simp add: open_channel_def fire_on_open_def Let_def)
  have "error_flag OR close_flag = flag_val True True 0" by (simp add: error_flag_def close_flag_def flag_val_def)
  then have "refs_ok [Fire_Head (On_Open a), Read] True True (channel_add_ref (channel_ctor pl))"
    by (simp add: refs_ok_def channel_add_ref_def channel_ctor_def owners_def flag_val_add flag_val_0)
  then have "ch_inv [Fire_Head (On_Open a), Read] (channel_add_ref (channel_ctor pl))"
    by (rule ch_invI) (simp_all add: channel_add_ref_def channel_ctor_def story_def io_ok_def)
  then show ?thesis using run_calls_inv [OF run] by simp
qed

lemma ch_reach_inv: "ch_reach h ch \<Longrightarrow> ch_inv [] ch \<or> ended ch"
proof (induction rule: ch_reach.induct)
  case (opened a pl ch)
  then show ?case by (simp add: open_inv)
next
  case (task ch ch')
  then show ?case using loop_task_inv by (auto simp: ended_def)
next
  case (read ch ec input ch')
  then show ?case using loop_read_inv by (auto simp: ended_def)
next
  case (written ch ec n ch')
  then show ?case using loop_write_inv by (auto simp: ended_def)
next
  case (outside ch a f)
  then show ?case using outside_inv by (auto simp: ended_def)
qed

section \<open>Properties\<close>

text \<open>
  C9: in every state a channel can reach, with any filters and any order of tasks, completions and calls
  of other threads, its count is the number of owners: one for being open or for its queued closing, one
  for every read and write at the socket, every queued event or write, and every reference of a filter.
  The end is queued when, and only when, nobody owns it, as the only task; a deleted channel has no
  owner, no task and nothing under way, so that nothing uses it after the end.
\<close>

theorem channel_refcount_exact:
  assumes "ch_reach h ch"
  shows "(\<not> ch_deleted ch \<longrightarrow> (\<exists>e c. ch_flag ch = flag_val e c (owners c ch) \<and>
      (Task_End \<in> set (ch_tasks ch) \<longleftrightarrow> \<not> e \<and> owners c ch = 0))) \<and>
    (Task_End \<in> set (ch_tasks ch) \<or> ch_deleted ch \<longrightarrow>
      ch_reading ch = 0 \<and> ch_writing ch = [] \<and> ch_held ch = 0 \<and> (\<forall>t\<in>set (ch_tasks ch). t = Task_End)) \<and>
    (ch_deleted ch \<longrightarrow> ch_tasks ch = [])"
  using ch_reach_inv [OF assms]
proof
  assume "ch_inv [] ch"
  then obtain e c where r: "refs_ok [] e c ch" by (rule ch_invE)
  then have n: "ch_flag ch = flag_val e c (owners c ch)" "\<not> ch_deleted ch" "c \<longrightarrow> e"
    and cnt: "count_list (ch_tasks ch) Task_End = (if ch_flag ch = 0 then 1 else 0)"
    by (simp_all add: refs_ok_def)
  have "Task_End \<in> set (ch_tasks ch) \<longleftrightarrow> ch_flag ch = 0"
    using cnt count_list_0_iff [of "ch_tasks ch" Task_End] by (auto split: if_splits)
  then have iff: "Task_End \<in> set (ch_tasks ch) \<longleftrightarrow> \<not> e \<and> owners c ch = 0"
    using n(1,3) by (auto simp: flag_val_0)
  have "t = Task_End" if "owners c ch = 0" "t \<in> set (ch_tasks ch)" for t
  proof -
    have "\<not> ref_task t" using that by (auto simp: owners_def filter_empty_conv)
    then show ?thesis using r that(2) by (cases t) (auto simp: refs_ok_def)
  qed
  then show ?thesis using n(1,2) iff by (auto simp: owners_def)
qed (auto simp: ended_def)

text \<open>
  C10: the channel gives its pipeline one opening event first, then reads and writes only, and at last, once,
  an error and a closing event, after which it never gives another; at most one read and one write are
  under way at the socket at any time.
\<close>

theorem channel_event_order:
  assumes "ch_reach h ch"
  shows "(\<exists>a io. (\<forall>x\<in>set io. io_event x) \<and>
      (ch_fired ch = On_Open a # io \<or> (\<exists>ec. ch_fired ch = On_Open a # io @ [On_Error ec, On_Close]))) \<and>
    (ch_deleted ch \<longrightarrow> last (ch_fired ch) = On_Close) \<and> ch_reading ch \<le> 1 \<and> length (ch_writing ch) \<le> 1"
  using ch_reach_inv [OF assms]
proof
  assume "ch_inv [] ch"
  then obtain e c where i: "refs_ok [] e c ch" "story e (ch_fired ch @ heads [])" "io_ok [] ch" by (rule ch_invE)
  have "\<not> ch_deleted ch" using i(1) by (simp add: refs_ok_def)
  moreover have "\<exists>a io. (\<forall>x\<in>set io. io_event x) \<and>
      (ch_fired ch = On_Open a # io \<or> (\<exists>ec. ch_fired ch = On_Open a # io @ [On_Error ec, On_Close]))"
    using i(2) by (cases e) (auto simp: story_def)
  ultimately show ?thesis using i(3) by (auto simp: io_ok_def)
next
  assume "ended ch"
  then show ?thesis by (auto simp: ended_def story_def)
qed

section \<open>Delivery\<close>

lemma run_step:
  "\<not> ch_deleted ch \<Longrightarrow> room ch \<Longrightarrow> call_step h lp c ch = Some (new, ch') \<Longrightarrow>
   run_calls h lp (c # cs) ch = run_calls h lp (new @ cs) ch'"
  by (simp add: run_calls.simps [of h lp "c # cs"])

lemma run_Nil [simp]: "run_calls h lp [] ch = Some ch"
  by (simp add: run_calls.simps)

abbreviation saw :: "nat list \<Rightarrow> event \<Rightarrow> channel \<Rightarrow> channel" where
  "saw fs evt ch \<equiv> ch\<lparr>ch_seen := ch_seen ch @ map (\<lambda>f. (f, evt)) fs\<rparr>"

lemma room_same: "ch_flag ch' = ch_flag ch \<Longrightarrow> room ch' = room ch"
  by (simp add: room_def)

lemma filter_event_default:
  assumes "\<not> ch_deleted ch" "room ch" "pl_filters (ch_pipeline ch) f = Some x"
  shows "run_calls filter_default lp (Filter_Event f evt # cs) ch =
     run_calls filter_default lp (Filter_Does f (Fire evt) # cs) (saw [f] evt ch)"
  using run_step [of ch filter_default lp "Filter_Event f evt" "[Filter_Does f (Fire evt)]" "saw [f] evt ch" cs] assms
  by (simp add: filter_event_def filter_default_def)

lemma deliver_inbound:
  assumes "lseg (ch_pipeline ch) out (f # fs) None" "in_pipeline True (ch_pipeline ch)" "\<not> ch_deleted ch" "room ch"
    "\<not> is_write evt"
  shows "run_calls filter_default True (Filter_Event f evt # cs) ch =
     run_calls filter_default True cs (saw (f # fs) evt ch)"
  using assms
proof (induction fs arbitrary: f out ch)
  case Nil
  let ?ch = "saw [f] evt ch"
  have "run_calls filter_default True (Filter_Event f evt # cs) ch = run_calls filter_default True (Filter_Does f (Fire evt) # cs) ?ch"
    using Nil by (intro filter_event_default) auto
  also have "\<dots> = run_calls filter_default True ([] @ cs) ?ch"
    using Nil by (intro run_step) (simp_all add: room_def filter_fire_def)
  finally show ?case by simp
next
  case (Cons g fs)
  let ?ch = "saw [f] evt ch"
  have ok: "\<not> ch_deleted ?ch" "room ?ch" using Cons.prems by (simp_all add: room_def)
  have "run_calls filter_default True (Filter_Event f evt # cs) ch = run_calls filter_default True (Filter_Does f (Fire evt) # cs) ?ch"
    using Cons.prems by (intro filter_event_default) auto
  also have "\<dots> = run_calls filter_default True ([Fire_At (Some g) evt] @ cs) ?ch"
    using Cons.prems ok by (intro run_step) (simp_all add: filter_fire_def)
  also have "\<dots> = run_calls filter_default True ([Filter_Event g evt] @ cs) ?ch"
    unfolding append_Cons append_Nil
    using run_step [of ?ch filter_default True "Fire_At (Some g) evt" "[Filter_Event g evt]" ?ch cs] ok Cons.prems(2)
    by (simp add: fire_at_def)
  also have "\<dots> = run_calls filter_default True cs (saw (g # fs) evt ?ch)"
    using Cons.IH [of ?ch "Some f" g] Cons.prems ok by simp
  finally show ?case by simp
qed

lemma deliver_outbound:
  assumes "lseg (ch_pipeline ch) None (fs @ [f]) nxt" "in_pipeline True (ch_pipeline ch)" "\<not> ch_deleted ch" "room ch"
  shows "run_calls filter_default True (Filter_Event f (Do_Write buf) # cs) ch =
     run_calls filter_default True (Channel_Write buf # cs) (saw (rev (fs @ [f])) (Do_Write buf) ch)"
  using assms
proof (induction fs arbitrary: f nxt ch rule: rev_induct)
  case Nil
  let ?ch = "saw [f] (Do_Write buf) ch"
  have ok: "\<not> ch_deleted ?ch" "room ?ch" using Nil by (simp_all add: room_def)
  have "run_calls filter_default True (Filter_Event f (Do_Write buf) # cs) ch =
      run_calls filter_default True (Filter_Does f (Fire (Do_Write buf)) # cs) ?ch"
    using Nil by (intro filter_event_default) auto
  also have "\<dots> = run_calls filter_default True ([Fire_At None (Do_Write buf)] @ cs) ?ch"
    using Nil ok by (intro run_step) (simp_all add: filter_fire_def)
  also have "\<dots> = run_calls filter_default True ([Channel_Write buf] @ cs) ?ch"
    unfolding append_Cons append_Nil
    using run_step [of ?ch filter_default True "Fire_At None (Do_Write buf)" "[Channel_Write buf]" ?ch cs] ok Nil(2)
    by (simp add: fire_at_def)
  finally show ?case by simp
next
  case (snoc g fs)
  let ?ch = "saw [f] (Do_Write buf) ch"
  have ok: "\<not> ch_deleted ?ch" "room ?ch" using snoc.prems by (simp_all add: room_def)
  have seg: "lseg (ch_pipeline ch) None (fs @ [g]) (Some f)"
    "pl_filters (ch_pipeline ch) f = Some \<lparr>f_pipeline = True, f_inbound = nxt, f_outbound = Some g\<rparr>"
    using snoc.prems(1) lseg_append [of "ch_pipeline ch" None "fs @ [g]" "[f]" nxt] by simp_all
  have "run_calls filter_default True (Filter_Event f (Do_Write buf) # cs) ch =
      run_calls filter_default True (Filter_Does f (Fire (Do_Write buf)) # cs) ?ch"
    using snoc.prems seg(2) by (intro filter_event_default) auto
  also have "\<dots> = run_calls filter_default True ([Fire_At (Some g) (Do_Write buf)] @ cs) ?ch"
    using seg(2) ok by (intro run_step) (simp_all add: filter_fire_def)
  also have "\<dots> = run_calls filter_default True ([Filter_Event g (Do_Write buf)] @ cs) ?ch"
    unfolding append_Cons append_Nil
    using run_step [of ?ch filter_default True "Fire_At (Some g) (Do_Write buf)" "[Filter_Event g (Do_Write buf)]" ?ch cs]
      ok snoc.prems(2) by (simp add: fire_at_def)
  also have "\<dots> = run_calls filter_default True (Channel_Write buf # cs) (saw (rev (fs @ [g])) (Do_Write buf) ?ch)"
    using snoc.IH [of ?ch g "Some f"] seg(1) snoc.prems(2) ok by simp
  finally show ?case by simp
qed

lemma holder_flag: "pl_flag pl = 0 \<Longrightarrow> holder_leave (holder_enter pl) = pl" "in_pipeline True (holder_enter pl)"
proof -
  show "pl_flag pl = 0 \<Longrightarrow> holder_leave (holder_enter pl) = pl"
    by (simp add: holder_leave_def holder_enter_def FLAG_IN_PIPELINE_def)
  have "bit (pl_flag pl OR 1) 0" by (simp add: bit_or_iff)
  then show "in_pipeline True (holder_enter pl)"
    by (auto simp: in_pipeline_def holder_enter_def FLAG_IN_PIPELINE_def bit_0 and_one_eq odd_iff_mod_2_eq_one)
qed

lemma filters_enter [simp]: "pl_filters (holder_enter pl) = pl_filters pl"
  by (simp add: holder_enter_def)

lemma lseg_enter [simp]: "lseg (holder_enter pl) out fs nxt = lseg pl out fs nxt"
  by (intro lseg_frame) (simp add: holder_enter_def)

lemma fire_head_delivers:
  assumes "chain (ch_pipeline ch) fs" "pl_flag (ch_pipeline ch) = 0" "\<not> ch_deleted ch" "room ch" "\<not> is_write evt"
  shows "run_calls filter_default True (Fire_Head evt # cs) ch =
     run_calls filter_default True cs (saw fs evt (ch\<lparr>ch_fired := ch_fired ch @ [evt]\<rparr>))"
proof -
  let ?ch = "ch\<lparr>ch_pipeline := holder_enter (ch_pipeline ch), ch_fired := ch_fired ch @ [evt]\<rparr>"
  have ok: "\<not> ch_deleted ?ch" "room ?ch" using assms(3,4) by (simp_all add: room_def)
  have "run_calls filter_default True (Leave # cs) (saw fs evt ?ch) = run_calls filter_default True ([] @ cs) (leave (saw fs evt ?ch))"
    by (intro run_step) (use ok in \<open>simp_all add: room_def\<close>)
  moreover have "leave (saw fs evt ?ch) = saw fs evt (ch\<lparr>ch_fired := ch_fired ch @ [evt]\<rparr>)"
    using holder_flag(1) [OF assms(2)] by (simp add: leave_def)
  moreover have "run_calls filter_default True (Fire_Head evt # cs) ch = run_calls filter_default True (Leave # cs) (saw fs evt ?ch)"
  proof (cases fs)
    case Nil
    then show ?thesis using assms by (subst run_step) (auto simp: fire_head_def chain_def)
  next
    case (Cons f fs')
    then have "run_calls filter_default True (Fire_Head evt # cs) ch =
        run_calls filter_default True (Filter_Event f evt # Leave # cs) ?ch"
      using assms by (subst run_step) (auto simp: fire_head_def chain_def)
    then show ?thesis
      using deliver_inbound [of ?ch None f fs' evt "Leave # cs"] Cons assms ok holder_flag(2) by (simp add: chain_def)
  qed
  ultimately show ?thesis by simp
qed

text \<open>
  In a pipeline of filters that pass events on, an event the channel fires visits every filter exactly
  once, from the entry inwards, and the pipeline is left as it was; a write of the innermost filter visits
  them in the opposite order and arrives at the channel's own write.
\<close>

theorem events_visit_chain:
  assumes "chain (ch_pipeline ch) (fs @ [f])" "pl_flag (ch_pipeline ch) = 0" "\<not> ch_deleted ch" "room ch" "\<not> is_write evt"
  shows "run_calls filter_default True [Fire_Head evt] ch =
      Some (ch\<lparr>ch_fired := ch_fired ch @ [evt], ch_seen := ch_seen ch @ map (\<lambda>g. (g, evt)) (fs @ [f])\<rparr>) \<and>
    run_calls filter_default True [Filter_Event f (Do_Write buf)] (ch\<lparr>ch_pipeline := holder_enter (ch_pipeline ch)\<rparr>) =
      Some (do_write True buf (ch\<lparr>ch_pipeline := holder_enter (ch_pipeline ch),
        ch_seen := ch_seen ch @ map (\<lambda>g. (g, Do_Write buf)) (rev (fs @ [f]))\<rparr>))"
proof
  show "run_calls filter_default True [Fire_Head evt] ch =
      Some (ch\<lparr>ch_fired := ch_fired ch @ [evt], ch_seen := ch_seen ch @ map (\<lambda>g. (g, evt)) (fs @ [f])\<rparr>)"
    using fire_head_delivers [OF assms, of "[]"] by simp
  let ?ch = "ch\<lparr>ch_pipeline := holder_enter (ch_pipeline ch)\<rparr>"
  let ?ch' = "saw (rev (fs @ [f])) (Do_Write buf) ?ch"
  have ok: "\<not> ch_deleted ?ch" "room ?ch" "\<not> ch_deleted ?ch'" "room ?ch'" using assms(3,4) by (simp_all add: room_def)
  have "run_calls filter_default True [Filter_Event f (Do_Write buf)] ?ch = run_calls filter_default True [Channel_Write buf] ?ch'"
    using deliver_outbound [of ?ch fs f None buf "[]"] assms(1) ok holder_flag(2) by (simp add: chain_def)
  also have "\<dots> = run_calls filter_default True ([] @ []) (do_write True buf ?ch')"
    by (intro run_step) (use ok in simp_all)
  finally show "run_calls filter_default True [Filter_Event f (Do_Write buf)] ?ch =
      Some (do_write True buf (ch\<lparr>ch_pipeline := holder_enter (ch_pipeline ch),
        ch_seen := ch_seen ch @ map (\<lambda>g. (g, Do_Write buf)) (rev (fs @ [f]))\<rparr>))" by simp
qed

lemma ctor_ready: "\<not> ch_deleted (channel_ctor pl)" "room (channel_ctor pl)" "ch_pipeline (channel_ctor pl) = pl"
  by (simp_all add: channel_ctor_def room_def error_flag_def close_flag_def)

theorem events_visit_chain_witness:
  "\<exists>ch. run_calls filter_default True [Fire_Head (On_Open 7)] (channel_ctor demo_pipeline) = Some ch \<and>
     ch_seen ch = [(0, On_Open 7), (1, On_Open 7)]"
proof -
  have "chain (ch_pipeline (channel_ctor demo_pipeline)) ([0] @ [1])" "pl_flag (ch_pipeline (channel_ctor demo_pipeline)) = 0"
    using demo_pipeline_chain(2) by (simp_all add: ctor_ready) (simp add: demo_pipeline_def)
  then show ?thesis
    using events_visit_chain [of "channel_ctor demo_pipeline" "[0]" 1 "On_Open 7"] ctor_ready by (simp add: channel_ctor_def)
qed

text \<open>A first channel: opened with the default filters, it waits for its read.\<close>

definition demo_channel :: channel where
  "demo_channel = (channel_add_ref (channel_add_ref (channel_ctor demo_pipeline)))
     \<lparr>ch_fired := [On_Open 7], ch_seen := [(0, On_Open 7), (1, On_Open 7)], ch_reading := 1\<rparr>"

lemma demo_opened: "open_channel filter_default 7 demo_pipeline = Some demo_channel"
proof -
  let ?ch = "channel_add_ref (channel_ctor demo_pipeline)"
  let ?ch1 = "saw [0, 1] (On_Open 7) (?ch\<lparr>ch_fired := ch_fired ?ch @ [On_Open 7]\<rparr>)"
  have ok: "\<not> ch_deleted ?ch" "room ?ch" "ch_pipeline ?ch = demo_pipeline" "pl_flag (ch_pipeline ?ch) = 0"
    by (simp_all add: channel_add_ref_def channel_ctor_def room_def error_flag_def close_flag_def demo_pipeline_def)
  have "chain (ch_pipeline ?ch) [0, 1]" using demo_pipeline_chain(1) ok(3) by simp
  then have "open_channel filter_default 7 demo_pipeline = run_calls filter_default True [Read] ?ch1"
    using fire_head_delivers [of ?ch "[0, 1]" "On_Open 7" "[Read]"] ok by (simp add: open_channel_def fire_on_open_def)
  also have "\<dots> = run_calls filter_default True ([] @ []) (channel_read ?ch1)"
    by (intro run_step) (use ok in \<open>simp_all add: room_def\<close>)
  also have "channel_read ?ch1 = demo_channel"
    by (simp add: channel_read_def check_if_val_contains_bit_def demo_channel_def channel_add_ref_def channel_ctor_def
        error_flag_def close_flag_def)
  finally show ?thesis by simp
qed

theorem channel_refcount_exact_witness:
  "\<exists>e c. ch_flag demo_channel = flag_val e c (owners c demo_channel)"
  using channel_refcount_exact [OF ch_reach.opened [OF demo_opened]]
  by (auto simp: demo_channel_def channel_add_ref_def channel_ctor_def)

theorem channel_event_order_witness:
  "ch_reading demo_channel \<le> 1 \<and> length (ch_writing demo_channel) \<le> 1"
  using channel_event_order [OF ch_reach.opened [OF demo_opened]] by blast

section \<open>The write stream\<close>

lemma concat_consume: "0 \<le> n \<Longrightarrow> concat (consume n bs) = drop (nat n) (concat bs)"
proof (induction n bs rule: consume.induct)
  case (2 n b bs)
  show ?case
  proof (cases "0 < n")
    case True
    have "nat (n - min n (int (length b))) = nat n - length b" using True by (simp add: min_def nat_diff_distrib)
    then show ?thesis using 2 True by (simp add: min_def)
  next
    case False
    then show ?thesis using 2(2) by simp
  qed
qed simp

lemma concat_nonempty_bufs: "concat (List.filter (\<lambda>b. b \<noteq> []) bs) = concat bs"
  by (induction bs) auto

text \<open>
  On an open channel the bytes to be written form one stream. A write appends to it and starts a
  transfer when none is under way; a transfer offers the whole stream to the socket, in order; when the
  socket has taken \<open>n\<close> bytes exactly these leave its front, no empty buffer stays behind, and the event
  says whether the stream is empty.
\<close>

theorem channel_write_stream:
  assumes "check_if_val_contains_bit (ch_flag ch) close_flag" and "0 \<le> n" and "\<not> has_error ec"
    and "handle_write ec n ch = (cs, ch')"
  shows "concat (ch_write_buffers (do_write True buf ch)) = concat (ch_write_buffers ch) @ buf \<and>
    length (ch_writing (do_write True buf ch)) = length (ch_writing ch) + (if ch_write_buffers ch = [] then 1 else 0) \<and>
    concat (last (ch_writing (write_remains ch))) = concat (ch_write_buffers ch) \<and>
    concat (ch_write_buffers ch') = drop (nat n) (concat (ch_write_buffers ch)) \<and>
    [] \<notin> set (ch_write_buffers ch') \<and>
    (ch_write_buffers ch' = [] \<longleftrightarrow> length (concat (ch_write_buffers ch)) \<le> nat n) \<and>
    cs = Fire_Head (On_Write n (ch_write_buffers ch' = [])) # (if ch_write_buffers ch' = [] then [] else [Write_Remains])"
proof -
  let ?bufs = "List.filter (\<lambda>b. b \<noteq> []) (consume n (ch_write_buffers ch))"
  have st: "ch_write_buffers ch' = ?bufs" "cs = Fire_Head (On_Write n (?bufs = [])) # (if ?bufs = [] then [] else [Write_Remains])"
    using assms(1,3,4) by (auto simp: handle_write_def Let_def)
  have eq: "concat ?bufs = drop (nat n) (concat (ch_write_buffers ch))"
    by (simp only: concat_nonempty_bufs concat_consume [OF assms(2)])
  have "?bufs = [] \<longleftrightarrow> concat ?bufs = []" by (auto simp: filter_empty_conv)
  then have "?bufs = [] \<longleftrightarrow> length (concat (ch_write_buffers ch)) \<le> nat n" using eq by simp
  moreover have "concat (last (ch_writing (write_remains ch))) = concat (ch_write_buffers ch)"
    using assms(1) by (simp add: write_remains_def Let_def)
  moreover have "concat (ch_write_buffers (do_write True buf ch)) = concat (ch_write_buffers ch) @ buf"
    "length (ch_writing (do_write True buf ch)) = length (ch_writing ch) + (if ch_write_buffers ch = [] then 1 else 0)"
    using assms(1) by (auto simp: do_write_def write_remains_def channel_add_ref_def Let_def)
  ultimately show ?thesis using st eq by simp
qed

theorem channel_write_stream_witness:
  "concat (ch_write_buffers (snd (handle_write error_success 3 (demo_channel\<lparr>ch_write_buffers := [[1, 2], [3, 4]]\<rparr>)))) = [4]"
proof -
  let ?ch = "demo_channel\<lparr>ch_write_buffers := [[1, 2], [3, 4 :: byte]]\<rparr>"
  have "check_if_val_contains_bit (ch_flag ?ch) close_flag" "\<not> has_error error_success"
    by (simp_all add: check_if_val_contains_bit_def demo_channel_def channel_add_ref_def channel_ctor_def
        error_flag_def close_flag_def has_error_def error_success_def tcode_error_def)
  then show ?thesis
    using channel_write_stream [of ?ch 3 error_success "fst (handle_write error_success 3 ?ch)"
        "snd (handle_write error_success 3 ?ch)" "[]"] by simp
qed

text \<open>
  Opened from another thread, \<open>fire_on_open\<close> takes a reference, hands itself to the loop and takes
  another there: the count stays one above its owners, and the channel never ends.
\<close>

lemma open_off_loop_leaks:
  "\<exists>ch. task_run (Task_Open a) ((snd (fire_on_open False a (channel_ctor pl)))\<lparr>ch_tasks := []\<rparr>) =
     Some ([Fire_Head (On_Open a), Read], ch) \<and> ch_flag ch = flag_val True True (owners True ch + 1)"
  by (simp add: fire_on_open_def channel_add_ref_def channel_ctor_def execute_task_def Let_def owners_def flag_val_def
      error_flag_def close_flag_def)

end
