(* ===== verification/Filters.thy ===== *)
theory Filters
  imports Channel Byte_Buffer Engine
begin

text \<open>
  The filters of \<open>src/io/ip/tcp/pipeline/filters\<close> without TLS: \<open>size_filter.cpp\<close>, which frames messages
  with their length, over the byte buffers and the block manager, and \<open>timeout_filter.cpp\<close>, over the
  engine's timers. What a filter makes the pipeline do is a list of actions.
\<close>

section \<open>The size filter\<close>

definition size_of_header :: "byte list \<Rightarrow> int" where
  "size_of_header bs = to_i32 (int (le_val bs))"

text \<open>
  The loop of \<open>filter_on_read\<close>: the contents of the packets passed on. The packet is a local object,
  released at the end of the turn. \<open>sizeof(size) + size\<close> is computed in \<open>std::size_t\<close>.
\<close>

partial_function (option) size_loop :: "manager \<Rightarrow> byte_buffer \<Rightarrow> (byte list list \<times> manager \<times> byte_buffer) option" where
  [code]: "size_loop m rb =
     (if 4 < bb_length rb
      then Option.bind (bb_peak 4 m rb) (\<lambda>hdr.
           if bb_length rb < to_size (4 + size_of_header hdr) then Some ([], m, rb)
           else Option.bind (bb_read 4 m rb) (\<lambda>(hdr, rb).
                Option.bind (bb_sub_buffer 0 (to_size (size_of_header hdr)) m rb) (\<lambda>(m, packet).
                Option.bind (bb_dtor packet m) (\<lambda>m'.
                Option.bind (size_loop m' rb) (\<lambda>(ps, m', rb). Some (contents m packet # ps, m', rb))))))
      else Some ([], m, rb))"

definition size_on_read :: "byte list \<Rightarrow> manager \<Rightarrow> byte_buffer \<Rightarrow> (byte list list \<times> manager \<times> byte_buffer) option" where
  "size_on_read buf m rb =
     Option.bind (bb_reserve (to_i32 (int (size_add (bb_length rb) (length buf)))) m rb) (\<lambda>(m, rb).
     Option.bind (bb_write buf (length buf) m rb) (\<lambda>(n, m, rb).
     Option.bind (size_loop m rb) (\<lambda>(ps, m, rb).
     map_option (\<lambda>(m, rb). (ps, m, rb)) (bb_fit m rb))))"

definition size_header :: "byte list \<Rightarrow> byte list" where
  "size_header buf = le_bytes 4 (to_u32 (int (length buf)))"

definition size_do_write :: "bool \<Rightarrow> bool \<Rightarrow> byte list \<Rightarrow> action list" where
  "size_do_write has_outbound in_pipe buf =
     (if \<not> has_outbound \<and> in_pipe then [Write_Channel (size_header buf), Write_Channel buf]
      else [Fire (Do_Write (size_header buf @ buf))])"

text \<open>What the loop makes of the buffered bytes: \<^const>\<open>None\<close> where it copies out of range.\<close>

function frames :: "byte list \<Rightarrow> (byte list list \<times> byte list) option" where
  "frames xs =
     (if 4 < length xs
      then let n = size_of_header (take 4 xs)
           in if - 4 \<le> n \<and> n < 0 then None
              else if n < 0 \<or> int (length xs) < 4 + n then Some ([], xs)
              else map_option (\<lambda>(ps, ys). (take (nat n) (drop 4 xs) # ps, ys)) (frames (drop 4 xs))
      else Some ([], xs))"
  by auto
termination by (relation "measure length") auto

declare frames.simps [simp del]

lemma header_range: "- (2 ^ 31) \<le> size_of_header bs" "size_of_header bs < 2 ^ 31"
  using to_i32_range [of "int (le_val bs)"] by (simp_all add: size_of_header_def)

lemma header_size:
  "0 \<le> size_of_header bs \<Longrightarrow> to_size (4 + size_of_header bs) = nat (4 + size_of_header bs)"
  "0 \<le> size_of_header bs \<Longrightarrow> to_size (size_of_header bs) = nat (size_of_header bs)"
  "size_of_header bs < - 4 \<Longrightarrow> 2 ^ 31 < to_size (4 + size_of_header bs)"
proof -
  note r = header_range [of bs]
  show "0 \<le> size_of_header bs \<Longrightarrow> to_size (4 + size_of_header bs) = nat (4 + size_of_header bs)"
    "0 \<le> size_of_header bs \<Longrightarrow> to_size (size_of_header bs) = nat (size_of_header bs)"
    using r by (simp_all add: to_size_id)
  assume neg: "size_of_header bs < - 4"
  have "(4 + size_of_header bs) mod 2 ^ 64 = 4 + size_of_header bs + 2 ^ 64"
    using neg r mod_add_self2 [of "4 + size_of_header bs" "2 ^ 64"] by (simp add: mod_pos_pos_trivial)
  then show "2 ^ 31 < to_size (4 + size_of_header bs)" using r by (simp add: to_size_def)
qed

lemma size_loop_frames:
  assumes "frames xs = Some (ps, ys)" and "manager_inv m" and "bb_view m rb p bs" and "contents m rb = xs"
  shows "\<exists>m' rb' bs'. size_loop m rb = Some (ps, m', rb') \<and> manager_inv m' \<and> bb_view m' rb' p bs' \<and> contents m' rb' = ys \<and>
    count_of m' p = count_of m p"
  using assms
proof (induction xs arbitrary: ps m rb bs rule: frames.induct)
  case (1 xs)
  note view = 1(4) and inv = 1(3)
  have len: "bb_length rb = length xs" using length_contents [OF view] 1(5) by simp
  have short: "length xs < 2 ^ 31" using len bb_length_view [OF view] bb_viewD [OF view] by simp
  have peak: "bb_peak 4 m rb = Some (take 4 xs)" using bb_peak_view [OF inv view] 1(5) by simp
  let ?n = "size_of_header (take 4 xs)"
  show ?case
  proof (cases "4 < length xs")
    case False
    then have "ps = []" "ys = xs" using 1(2) by (simp_all add: frames.simps)
    moreover have "size_loop m rb = Some ([], m, rb)" using False len by (simp add: size_loop.simps)
    ultimately show ?thesis using inv view 1(5) by blast
  next
    case long: True
    show ?thesis
    proof (cases "0 \<le> ?n \<and> 4 + ?n \<le> int (length xs)")
      case False
      then have st: "ps = []" "ys = xs" "?n < - 4 \<or> 0 \<le> ?n"
        using 1(2) long by (auto simp: frames.simps Let_def split: if_splits)
      have "length xs < to_size (4 + ?n)"
        using st(3) False header_size [of "take 4 xs"] short by (auto simp: nat_less_iff)
      then have "size_loop m rb = Some ([], m, rb)" using long len peak by (simp add: size_loop.simps)
      then show ?thesis using inv view 1(5) st by blast
    next
      case ok: True
      then obtain ps' where ps: "frames (drop 4 xs) = Some (ps', ys)" "ps = take (nat ?n) (drop 4 xs) # ps'"
        using 1(2) long by (auto simp: frames.simps [of xs] Let_def split: if_splits)
      let ?rb = "set_read (pos_read (bb_pos rb) + min 4 (bb_length rb)) rb"
      have rd: "bb_read 4 m rb = Some (take 4 xs, ?rb)" using bb_read_view [OF inv view] 1(5) by simp
      have v2: "bb_view m ?rb p bs" "contents m ?rb = drop 4 xs" using bb_read_contents [OF view] 1(5) by auto
      have sz: "to_size ?n = nat ?n" "to_size (4 + ?n) = nat (4 + ?n)" using header_size ok by auto
      have "nat ?n \<le> length xs - 4" using ok by linarith
      then have fits: "0 + nat ?n \<le> bb_length ?rb" using length_contents [OF v2(1)] v2(2) by simp
      obtain m1 packet q qs where sub: "bb_sub_buffer 0 (nat ?n) m ?rb = Some (m1, packet)" "manager_inv m1"
        "bb_view m1 packet q qs" "contents m1 packet = take (nat ?n) (drop 0 (contents m ?rb))"
        "bytes_of m q = None" "count_of m1 q = 1" "same_except q m m1"
        using bb_sub_buffer_view [OF inv v2(1) fits] by blast
      have "bb_block packet = Some q" "bytes_of m1 q = Some qs" using bb_viewD [OF sub(3)] by simp_all
      moreover obtain m2 where free: "block_free (Some q) m1 = Some m2" "manager_inv m2" "same_except q m1 m2"
        using release_bytes [OF sub(2) bb_viewD(2) [OF sub(3)]] sub(6) by auto
      ultimately have dt: "bb_dtor packet m1 = Some m2" by (simp add: bb_dtor_def)
      have pq: "p \<noteq> q" using sub(5) bb_viewD(2) [OF view] by auto
      have v3: "bb_view m2 ?rb p bs" "contents m2 ?rb = drop 4 xs"
        using v2 pq bb_view_same [OF sub(7) pq] bb_view_same [OF free(3) pq] bb_viewD(1) [OF view]
          contents_same [OF sub(7), of ?rb] contents_same [OF free(3), of ?rb] by auto
      have "\<not> (- 4 \<le> ?n \<and> ?n < 0)" "\<not> (?n < 0 \<or> int (length xs) < 4 + ?n)" using ok by auto
      then obtain m3 rb3 bs3 where r: "size_loop m2 ?rb = Some (ps', m3, rb3)" "manager_inv m3" "bb_view m3 rb3 p bs3"
        "contents m3 rb3 = ys" "count_of m3 p = count_of m2 p" using 1(1) [OF long refl _ _ ps(1) free(2) v3] by blast
      have "\<not> bb_length rb < to_size (4 + ?n)" using ok len sz(2) by (simp add: not_less nat_le_iff)
      moreover have "count_of m2 p = count_of m p" using count_same [OF sub(7) pq] count_same [OF free(3) pq] by simp
      ultimately have "size_loop m rb = Some (contents m1 packet # ps', m3, rb3) \<and> count_of m3 p = count_of m p"
        using r(5) long len peak rd sub(1) sz(1) dt r(1) by (simp add: size_loop.simps [of m rb])
      then show ?thesis using r(2-4) ps(2) sub(4) v2(2) by auto
    qed
  qed
qed


text \<open>A whole call: reserve, append, take the packets out, compact. The read position is zero between calls.\<close>

definition size_ready :: "manager \<Rightarrow> byte_buffer \<Rightarrow> bool" where
  "size_ready m rb \<longleftrightarrow> manager_inv m \<and> bb_ok m rb \<and> pos_read (bb_pos rb) = 0"

lemma bb_ok_length: "bb_ok m b \<Longrightarrow> length (contents m b) = bb_length b"
  by (cases "bb_block b") (auto simp: bb_ok_def contents_def bb_length_def size_sub_def to_size_def dest: length_contents)

lemma size_on_read_frames:
  assumes rdy: "size_ready m rb" and sz: "bb_length rb + length buf < 2 ^ 31"
    and fr: "frames (contents m rb @ buf) = Some (ps, ys)"
  shows "\<exists>m' rb'. size_on_read buf m rb = Some (ps, m', rb') \<and> size_ready m' rb' \<and> contents m' rb' = ys"
proof -
  have inv: "manager_inv m" and ok: "bb_ok m rb" and z: "pos_read (bb_pos rb) = 0"
    using rdy by (simp_all add: size_ready_def)
  let ?t = "bb_length rb + length buf"
  have t: "to_i32 (int (size_add (bb_length rb) (length buf))) = int ?t"
    using sz by (simp add: size_add_id to_i32_id)
  obtain m1 rb1 q qs where r: "bb_reserve (int ?t) m rb = Some (m1, rb1)" "manager_inv m1" "bb_view m1 rb1 q qs"
    "contents m1 rb1 = contents m rb" "int ?t \<le> int (length qs)" "pos_read (bb_pos rb1) = 0" "count_of m1 q = 1"
    by (rule bb_reserve_ok [OF inv ok, of "int ?t"]) (use sz z in auto)
  have w: "pos_write (bb_pos rb1) = bb_length rb"
    using length_contents [OF r(3)] bb_length_view [OF r(3)] r(4,6) bb_ok_length [OF ok] by simp
  let ?n = "min (length buf) (length qs - pos_write (bb_pos rb1))"
  have n: "?n = length buf" using r(5) w by simp
  obtain m2 where m2: "bb_write buf (length buf) m1 rb1 = Some (?n, m2, set_write (pos_write (bb_pos rb1) + ?n) rb1)"
    "manager_inv m2" "bb_view m2 (set_write (pos_write (bb_pos rb1) + ?n) rb1) q (put_at (pos_write (bb_pos rb1)) (take ?n buf) qs)"
    "contents m2 (set_write (pos_write (bb_pos rb1) + ?n) rb1) = contents m1 rb1 @ take ?n buf" "count_of m2 q = count_of m1 q"
    by (rule bb_write_view [OF r(2,3) order.refl])
  have c2: "contents m2 (set_write (pos_write (bb_pos rb1) + ?n) rb1) = contents m rb @ buf"
    using m2(4) r(4) unfolding n by simp
  obtain m3 rb3 bs3 where l: "size_loop m2 (set_write (pos_write (bb_pos rb1) + ?n) rb1) = Some (ps, m3, rb3)"
    "manager_inv m3" "bb_view m3 rb3 q bs3" "contents m3 rb3 = ys" "count_of m3 q = count_of m2 q"
    using size_loop_frames [OF fr m2(2,3) c2] by blast
  obtain m4 where f: "bb_fit m3 rb3 = Some (m4, set_read 0 (set_write (bb_length rb3) rb3))" "manager_inv m4"
    "bb_view m4 (set_read 0 (set_write (bb_length rb3) rb3)) q (put_at 0 (contents m3 rb3) bs3)"
    "contents m4 (set_read 0 (set_write (bb_length rb3) rb3)) = contents m3 rb3" "count_of m4 q = count_of m3 q"
    by (rule bb_fit_view [OF l(2,3)])
  have "size_on_read buf m rb = Some (ps, m4, set_read 0 (set_write (bb_length rb3) rb3))"
    unfolding size_on_read_def t using r(1) m2(1) l(1) f(1) by simp
  moreover have "bb_ok m4 (set_read 0 (set_write (bb_length rb3) rb3))"
    using f(3,5) l(5) m2(5) r(7) bb_viewD(1) [OF f(3)] by (auto simp: bb_ok_def)
  ultimately show ?thesis using f l(4) by (auto simp: size_ready_def)
qed

lemma header_le_bytes: "n < 2 ^ 31 \<Longrightarrow> size_of_header (le_bytes 4 n) = int n"
  by (simp add: size_of_header_def le_val_le_bytes to_i32_id)

lemma frame_message:
  assumes "length msg < 2 ^ 31" and "msg @ rest \<noteq> []"
  shows "frames (le_bytes 4 (length msg) @ msg @ rest) = map_option (\<lambda>(ps, ys). (msg # ps, ys)) (frames (msg @ rest))"
proof -
  let ?xs = "le_bytes 4 (length msg) @ msg @ rest"
  have h: "size_of_header (take 4 ?xs) = int (length msg)" "drop 4 ?xs = msg @ rest"
    using header_le_bytes [OF assms(1)] by simp_all
  have len: "4 < length ?xs" using assms(2) by (cases "msg @ rest") auto
  show ?thesis
    by (subst frames.simps) (use h len in \<open>simp add: Let_def\<close>)
qed

lemma frames_short: "length xs \<le> 4 \<Longrightarrow> frames xs = Some ([], xs)"
  by (simp add: frames.simps)

lemma size_header_bytes: "length msg < 2 ^ 31 \<Longrightarrow> size_header msg = le_bytes 4 (length msg)"
  by (simp add: size_header_def to_u32_def)

lemma frames_incomplete:
  assumes "length msg < 2 ^ 31" and "k < 4 + length msg"
  shows "frames (take k (size_header msg @ msg)) = Some ([], take k (size_header msg @ msg))"
proof (cases "k \<le> 4")
  case True
  then show ?thesis by (intro frames_short) simp
next
  case False
  let ?zs = "take k (size_header msg @ msg)"
  have "size_of_header (take 4 ?zs) = int (length msg)" "length ?zs = k"
    using header_le_bytes [OF assms(1)] False assms by (simp_all add: size_header_bytes min_def)
  then show ?thesis using False assms(2) by (subst frames.simps) (simp add: Let_def del: take_append length_take)
qed

text \<open>
  C27. What the size filter sends is the message behind its length in four bytes, on both of its ways, and the header
  reads back as that length. On receipt, whatever the buffer held and however the bytes are cut into deliveries, the
  filter passes on what \<open>frames\<close> finds in the bytes before it and the delivered ones, and keeps the rest: nothing as long
  as a framed message is not complete; once it is, the message, unchanged and once. But the bytes of the message stay in
  the buffer in front of all that follows: the next header is read from the message, not from behind it. (Where
  such a header is between -4 and -1 the code copies out of range: \<open>frames\<close> has no value.)
\<close>

theorem size_filter_behaviour:
  assumes "size_ready m rb" and "length msg < 2 ^ 31"
  shows "size_do_write True lp msg = [Fire (Do_Write (size_header msg @ msg))] \<and>
    size_do_write False True msg = [Write_Channel (size_header msg), Write_Channel msg] \<and>
    length (size_header msg) = 4 \<and> size_of_header (size_header msg) = int (length msg) \<and>
    (\<forall>buf ps ys. length (contents m rb @ buf) < 2 ^ 31 \<and> frames (contents m rb @ buf) = Some (ps, ys) \<longrightarrow>
      (\<exists>m' rb'. size_on_read buf m rb = Some (ps, m', rb') \<and> size_ready m' rb' \<and> contents m' rb' = ys)) \<and>
    (\<forall>k < 4 + length msg. frames (take k (size_header msg @ msg)) = Some ([], take k (size_header msg @ msg))) \<and>
    (\<forall>rest ps ys. msg @ rest \<noteq> [] \<and> frames (msg @ rest) = Some (ps, ys) \<longrightarrow>
      frames (size_header msg @ msg @ rest) = Some (msg # ps, ys)) \<and>
    (\<forall>buf. contents m rb @ buf = size_header msg @ msg \<and> 0 < length msg \<and> length msg \<le> 4 \<longrightarrow>
      (\<exists>m' rb'. size_on_read buf m rb = Some ([msg], m', rb') \<and> size_ready m' rb' \<and> contents m' rb' = msg))"
proof -
  have bl: "bb_length rb = length (contents m rb)" using bb_ok_length [of m rb] assms(1) by (simp add: size_ready_def)
  have read: "\<exists>m' rb'. size_on_read buf m rb = Some (ps, m', rb') \<and> size_ready m' rb' \<and> contents m' rb' = ys"
    if "length (contents m rb @ buf) < 2 ^ 31" "frames (contents m rb @ buf) = Some (ps, ys)" for buf ps ys
    using size_on_read_frames [OF assms(1) _ that(2)] that(1) bl by simp
  have msg: "frames (size_header msg @ msg @ rest) = Some (msg # ps, ys)"
    if "msg @ rest \<noteq> []" "frames (msg @ rest) = Some (ps, ys)" for rest ps ys
    using frame_message [OF assms(2) that(1)] that(2) size_header_bytes [OF assms(2)] by simp
  have short: "\<exists>m' rb'. size_on_read buf m rb = Some ([msg], m', rb') \<and> size_ready m' rb' \<and> contents m' rb' = msg"
    if c: "contents m rb @ buf = size_header msg @ msg" "0 < length msg" "length msg \<le> 4" for buf
  proof (rule read)
    show "frames (contents m rb @ buf) = Some ([msg], msg)"
      using msg [of "[]" "[]" msg] frames_short [OF c(3)] c(1,2) by auto
    show "length (contents m rb @ buf) < 2 ^ 31" unfolding c(1) using c(3) assms(2) by (simp add: size_header_bytes)
  qed
  have "length (size_header msg) = 4" "size_of_header (size_header msg) = int (length msg)"
    using size_header_bytes [OF assms(2)] header_le_bytes [OF assms(2)] by simp_all
  then show ?thesis
    using read msg short frames_incomplete [OF assms(2)] by (simp add: size_do_write_def)
qed

text \<open>
  A message of six bytes arrives on an empty buffer: it is passed on, and its bytes stay, taken for the header of a
  message of more than two million bytes.
\<close>

theorem size_filter_behaviour_witness:
  "\<exists>m' rb'. size_on_read (size_header [5, 6, 7, 0, 1, 2] @ [5, 6, 7, 0, 1, 2]) demo_manager bb_ctor = Some ([[5, 6, 7, 0, 1, 2]], m', rb') \<and>
     contents m' rb' = [5, 6, 7, 0, 1, 2]"
proof -
  let ?msg = "[5, 6, 7, 0, 1, 2] :: byte list"
  have r: "size_ready demo_manager bb_ctor" "contents demo_manager bb_ctor = []"
    using demo_inv by (simp_all add: size_ready_def bb_ok_def bb_ctor_def)
  have "size_of_header [5, 6, 7, 0] = 460293" by (simp add: size_of_header_def le_val_def to_i32_def)
  then have f: "frames ?msg = Some ([], ?msg)" by (subst frames.simps) (simp add: Let_def)
  note b = size_filter_behaviour [OF r(1), of ?msg True]
  have h: "length (size_header ?msg) = 4" using b by simp
  have "\<forall>rest ps ys. ?msg @ rest \<noteq> [] \<and> frames (?msg @ rest) = Some (ps, ys) \<longrightarrow>
      frames (size_header ?msg @ ?msg @ rest) = Some (?msg # ps, ys)" using b by simp
  from this [rule_format, of "[]" "[]" ?msg] f have "frames (size_header ?msg @ ?msg) = Some ([?msg], ?msg)" by simp
  moreover have "\<forall>buf ps ys. length (contents demo_manager bb_ctor @ buf) < 2 ^ 31 \<and> frames (contents demo_manager bb_ctor @ buf) = Some (ps, ys) \<longrightarrow>
      (\<exists>m' rb'. size_on_read buf demo_manager bb_ctor = Some (ps, m', rb') \<and> size_ready m' rb' \<and> contents m' rb' = ys)" using b by simp
  moreover have "length (contents demo_manager bb_ctor @ size_header ?msg @ ?msg) < 2 ^ 31" using r(2) h by simp
  ultimately show ?thesis using r(2) by (metis append_Nil)
qed

section \<open>The timeout filter\<close>

record timeout_filter =
  tf_stamp :: timestamp
  tf_timeout :: timespan
  tf_timer :: "nat option"

definition timeout_filter_ctor :: "timespan \<Rightarrow> timestamp \<Rightarrow> timeout_filter" where
  "timeout_filter_ctor timeout now = \<lparr>tf_stamp = now, tf_timeout = timeout, tf_timer = None\<rparr>"

text \<open>\<open>filter_on_open\<close> runs in the loop; it does not pass the event on.\<close>

definition timeout_on_open :: "timestamp \<Rightarrow> timeout_filter \<Rightarrow> engine \<Rightarrow> (action list \<times> timeout_filter \<times> engine) option" where
  "timeout_on_open now tf en =
     (let tf = tf\<lparr>tf_stamp := now\<rparr>; (i, en) = timer_ctor en; tf = tf\<lparr>tf_timer := Some i\<rparr>
      in Option.bind (timer_due_time i (stamp_add now (tf_timeout tf)) en) (\<lambda>en.
         Option.bind (timer_repeat i (tf_timeout tf) en) (\<lambda>en.
         map_option (\<lambda>en. ([Add_Ref], tf, en)) (timer_fire True i en))))"

definition timeout_on_timer :: "timestamp \<Rightarrow> error_code \<Rightarrow> timeout_filter \<Rightarrow> action list" where
  "timeout_on_timer now ec tf =
     (if has_error ec then [Release]
      else if span_gt (stamp_diff now (tf_stamp tf)) (tf_timeout tf) then [Close error_timeout]
      else [])"

definition timeout_on_read :: "timestamp \<Rightarrow> byte list \<Rightarrow> timeout_filter \<Rightarrow> action list \<times> timeout_filter" where
  "timeout_on_read now buf tf = ([Fire (On_Read buf)], tf\<lparr>tf_stamp := now\<rparr>)"

definition timeout_on_close :: "timeout_filter \<Rightarrow> engine \<Rightarrow> (action list \<times> engine) option" where
  "timeout_on_close tf en =
     (case tf_timer tf of
        None \<Rightarrow> None
      | Some i \<Rightarrow> map_option (\<lambda>en. ([Fire On_Close], en)) (timer_cancel_request i en))"

text \<open>
  C28: opened at \<open>now\<close>, the timeout filter has a repeating timer due after its timeout and holds one
  reference to the channel; at a tick it closes the channel exactly if the last read (or the opening) is
  longer ago than the timeout; closing queues the cancellation, and the cancelled timer's callback gives
  the reference back. It never passes the opening event on to the filters behind it.
\<close>

theorem timeout_filter_behaviour:
  assumes "0 \<le> t" "t \<le> u" "u < 2 ^ 63"
  shows "\<exists>tf1 en1 en2. timeout_on_open now tf en = Some ([Add_Ref], tf1, en1) \<and> en_next en \<in> set (en_timers en1) \<and>
    en_ids en1 (en_next en) =
      Some \<lparr>t_ref = 2, t_due = stamp_add now (tf_timeout tf), t_repeat = tf_timeout tf\<rparr> \<and>
    fst (timeout_on_read \<lparr>stamp_tick = t\<rparr> buf tf1) = [Fire (On_Read buf)] \<and>
    timeout_on_timer \<lparr>stamp_tick = u\<rparr> error_success (snd (timeout_on_read \<lparr>stamp_tick = t\<rparr> buf tf1)) =
      (if span_delta (tf_timeout tf) < u - t then [Close error_timeout] else []) \<and>
    timeout_on_timer \<lparr>stamp_tick = u\<rparr> error_aborted tf1 = [Release] \<and>
    timeout_on_close tf1 en1 = Some ([Fire On_Close], en2) \<and> en_tasks en2 = en_tasks en1 @ [Cancel_Task (en_next en)]"
proof -
  let ?i = "en_next en"
  let ?x = "\<lparr>t_ref = 2, t_due = stamp_add now (tf_timeout tf), t_repeat = tf_timeout tf\<rparr>"
  let ?tf = "tf\<lparr>tf_stamp := now, tf_timer := Some ?i\<rparr>"
  obtain en1 where op: "timeout_on_open now tf en = Some ([Add_Ref], ?tf, en1)"
    and id: "en_ids en1 ?i = Some ?x" and tm: "?i \<in> set (en_timers en1)"
    by (simp add: timeout_on_open_def timer_ctor_def timer_due_time_def timer_repeat_def timer_fire_def timer_schedule_def
        id_add_ref_def upd_id_def timer_insert_def Let_def)
  have d: "to_i64 (u - t) = u - t" using assms by (intro to_i64_id) auto
  have err: "\<not> has_error error_success" "has_error error_aborted"
    by (simp_all add: has_error_def error_success_def error_aborted_def tcode_error_def)
  obtain en2 where "timeout_on_close ?tf en1 = Some ([Fire On_Close], en2)" "en_tasks en2 = en_tasks en1 @ [Cancel_Task ?i]"
    using id by (simp add: timeout_on_close_def timer_cancel_request_def timer_cancel_def engine_execute_def id_add_ref_def upd_id_def)
  then show ?thesis
    using op id tm d err
    by (intro exI [of _ ?tf] exI [of _ en1] exI [of _ en2])
      (simp add: timeout_on_read_def timeout_on_timer_def span_gt_def stamp_diff_def mk_span_def)
qed

theorem timeout_filter_behaviour_witness:
  "\<exists>tf1 en1. timeout_on_open \<lparr>stamp_tick = 0\<rparr> (timeout_filter_ctor (seconds 1) \<lparr>stamp_tick = 0\<rparr>) engine_ctor =
     Some ([Add_Ref], tf1, en1) \<and> en_ids en1 0 \<noteq> None"
  using timeout_filter_behaviour [of 0 5 "\<lparr>stamp_tick = 0\<rparr>" "timeout_filter_ctor (seconds 1) \<lparr>stamp_tick = 0\<rparr>" engine_ctor "[]"]
  by (auto simp: engine_ctor_def)

end
