(* ===== verification/Openssl_Filter.thy ===== *)
theory Openssl_Filter
  imports Channel
begin

text \<open>
  The TLS filter of \<open>src/io/ip/tcp/pipeline/filters/openssl_filter.cpp\<close>. OpenSSL is not part of the sources:
  its functions are a parameter, a record of functions over a state of their own. The loops need not end, since they
  depend on that library, and are partial functions.

  An event that is passed inwards runs the filters behind this one at once, and they may write: that calls
  \<open>filter_do_write\<close> of this filter before the passing of the event returns. What they write is a parameter \<open>react\<close>, a function
  of all that was done so far and of the event. Writes passed outwards end in the channel, which queues them, and closing
  the channel queues a task: both return without a call back.
\<close>

section \<open>The interface of the library\<close>

datatype ssl_error =
    SSL_ERROR_NONE
  | SSL_ERROR_WANT_READ
  | SSL_ERROR_WANT_WRITE
  | SSL_ERROR_WANT_CONNECT
  | SSL_ERROR_WANT_ACCEPT
  | SSL_ERROR_OTHER

record 's ssl_api =
  api_read :: "nat \<Rightarrow> 's \<Rightarrow> int \<times> bytes \<times> 's"
  api_write :: "bytes \<Rightarrow> 's \<Rightarrow> int \<times> 's"
  api_bio_write :: "bytes \<Rightarrow> 's \<Rightarrow> int \<times> 's"
  api_bio_read :: "nat \<Rightarrow> 's \<Rightarrow> int \<times> bytes \<times> 's"
  api_pending :: "'s \<Rightarrow> nat"
  api_should_retry :: "'s \<Rightarrow> bool"
  api_get_error :: "int \<Rightarrow> 's \<Rightarrow> ssl_error"
  api_init_finished :: "'s \<Rightarrow> bool"
  api_accept_state :: "'s \<Rightarrow> 's"
  api_connect_state :: "'s \<Rightarrow> 's"

section \<open>The program\<close>

datatype handshake = ACCEPT | CONNECT | COMPLETE

text \<open>\<open>os_log\<close> is history: what the filter made the pipeline and the channel do, in order.\<close>

record 's openssl_filter =
  os_ssl :: 's
  os_handshake :: handshake
  os_addr :: addr
  os_log :: "action list"

type_synonym reaction = "action list \<Rightarrow> event \<Rightarrow> bytes list"

type_synonym 's member = "'s openssl_filter \<Rightarrow> 's openssl_filter option"

definition openssl_filter_ctor :: "'s \<Rightarrow> handshake \<Rightarrow> 's openssl_filter" where
  "openssl_filter_ctor ssl hs = \<lparr>os_ssl = ssl, os_handshake = hs, os_addr = 0, os_log = []\<rparr>"

definition act :: "action \<Rightarrow> 's openssl_filter \<Rightarrow> 's openssl_filter" where
  "act a st = st\<lparr>os_log := os_log st @ [a]\<rparr>"

definition is_fatal_error :: "'s ssl_api \<Rightarrow> int \<Rightarrow> 's openssl_filter \<Rightarrow> bool" where
  "is_fatal_error api ret st = (api_get_error api ret (os_ssl st) = SSL_ERROR_OTHER)"

text \<open>Passing an event inwards; \<open>wr\<close> is \<open>filter_do_write\<close> of this filter, for what the filters behind it write then.\<close>

fun run_writes :: "(bytes \<Rightarrow> 's member) \<Rightarrow> bytes list \<Rightarrow> 's member" where
  "run_writes wr [] st = Some st"
| "run_writes wr (b # bs) st = Option.bind (wr b st) (run_writes wr bs)"

definition fire_in :: "(bytes \<Rightarrow> 's member) \<Rightarrow> reaction \<Rightarrow> event \<Rightarrow> 's member" where
  "fire_in wr react e st = run_writes wr (react (os_log st) e) (act (Fire e) st)"

definition end_handshake :: "(event \<Rightarrow> 's member) \<Rightarrow> 's member" where
  "end_handshake fire st =
     map_option (\<lambda>st. st\<lparr>os_handshake := COMPLETE\<rparr>)
       (if os_handshake st \<noteq> COMPLETE then fire (On_Open (os_addr st)) st else Some st)"

partial_function (option) send_pending :: "'s ssl_api \<Rightarrow> 's member \<Rightarrow> 's member" where
  [code]: "send_pending api ehs st =
     (if api_pending api (os_ssl st) \<noteq> 0
      then (case api_bio_read api 4096 (os_ssl st) of (ret, mb, s) \<Rightarrow>
              let st = st\<lparr>os_ssl := s\<rparr>
              in if ret \<le> 0
                 then (if is_fatal_error api ret st then ehs (act (Close error_openssl_bio_read) st) else Some st)
                 else send_pending api ehs (act (Fire (Do_Write (take (nat ret) mb))) st))
      else Some st)"

definition begin_handshake :: "'s ssl_api \<Rightarrow> 's member \<Rightarrow> 's member" where
  "begin_handshake api ehs st =
     (case api_read api 0 (os_ssl st) of (ret, _, s) \<Rightarrow>
        let st = st\<lparr>os_ssl := s\<rparr>
        in if is_fatal_error api ret st then map_option (act (Close error_openssl_handshake)) (ehs st)
           else send_pending api ehs st)"

definition openssl_on_open :: "'s ssl_api \<Rightarrow> 's member \<Rightarrow> addr \<Rightarrow> 's member" where
  "openssl_on_open api ehs a st =
     (let st = st\<lparr>os_addr := a\<rparr>
      in begin_handshake api ehs
           (if os_handshake st = ACCEPT then st\<lparr>os_ssl := api_accept_state api (os_ssl st)\<rparr>
            else st\<lparr>os_ssl := api_connect_state api (os_ssl st)\<rparr>))"

partial_function (option) write_rbio :: "'s ssl_api \<Rightarrow> 's member \<Rightarrow> bytes \<Rightarrow> 's openssl_filter \<Rightarrow> (bool \<times> 's openssl_filter) option" where
  [code]: "write_rbio api ehs msg st =
     (if msg \<noteq> []
      then (case api_bio_write api msg (os_ssl st) of (len, s) \<Rightarrow>
              let st = st\<lparr>os_ssl := s\<rparr>
              in if len \<le> 0
                 then (if \<not> api_should_retry api s
                       then map_option (Pair False) (ehs (act (Close error_openssl_bio_write) st))
                       else write_rbio api ehs msg st)
                 else write_rbio api ehs (drop (nat len) msg) st)
      else Some (True, st))"

partial_function (option) write_wbio :: "'s ssl_api \<Rightarrow> bytes \<Rightarrow> 's openssl_filter \<Rightarrow> (bool \<times> 's openssl_filter) option" where
  [code]: "write_wbio api msg st =
     (if msg \<noteq> []
      then (case api_write api msg (os_ssl st) of (len, s) \<Rightarrow>
              let st = st\<lparr>os_ssl := s\<rparr>
              in if len \<le> 0
                 then (if is_fatal_error api len st then Some (False, act (Close error_openssl_ssl_write) st)
                       else write_wbio api msg st)
                 else write_wbio api (drop (nat len) msg) st)
      else Some (True, st))"

text \<open>The loop of \<open>filter_on_read\<close>; the first component says that \<open>send_pending\<close> follows it.\<close>

partial_function (option) ssl_read_loop ::
    "'s ssl_api \<Rightarrow> 's member \<Rightarrow> (event \<Rightarrow> 's member) \<Rightarrow> 's openssl_filter \<Rightarrow> (bool \<times> 's openssl_filter) option" where
  [code]: "ssl_read_loop api ehs fire st =
     (case api_read api 4096 (os_ssl st) of (len, mb, s) \<Rightarrow>
        let st = st\<lparr>os_ssl := s\<rparr>; ec = (len \<le> 0 \<and> is_fatal_error api len st)
        in Option.bind (if os_handshake st \<noteq> COMPLETE \<and> api_init_finished api (os_ssl st) then ehs st else Some st) (\<lambda>st.
           if len \<le> 0
           then if ec then map_option (\<lambda>st. (False, act (Close error_openssl_ssl_read) st)) (ehs st) else Some (True, st)
           else Option.bind (fire (On_Read (take (nat len) mb)) st) (ssl_read_loop api ehs fire)))"

definition openssl_on_read :: "'s ssl_api \<Rightarrow> 's member \<Rightarrow> (event \<Rightarrow> 's member) \<Rightarrow> bytes \<Rightarrow> 's member" where
  "openssl_on_read api ehs fire buf st =
     Option.bind (write_rbio api ehs buf st) (\<lambda>(ok, st).
     if \<not> ok then Some st
     else Option.bind (ssl_read_loop api ehs fire st) (\<lambda>(more, st). if \<not> more then Some st else send_pending api ehs st))"

definition openssl_on_write :: "(event \<Rightarrow> 's member) \<Rightarrow> int \<Rightarrow> bool \<Rightarrow> 's member" where
  "openssl_on_write fire written flush st = (if os_handshake st = COMPLETE then fire (On_Write written flush) st else Some st)"

text \<open>
  \<open>filter_do_write\<close>. It can end the handshake, which passes the opening event inwards, which can lead back here: \<open>n\<close> bounds
  how often; \<^const>\<open>None\<close> is the end of the fuel.
\<close>

primrec openssl_do_write :: "nat \<Rightarrow> 's ssl_api \<Rightarrow> reaction \<Rightarrow> bytes \<Rightarrow> 's member" where
  "openssl_do_write 0 api react buf st = None"
| "openssl_do_write (Suc n) api react buf st =
     Option.bind (write_wbio api buf st) (\<lambda>(_, st).
     send_pending api (end_handshake (fire_in (openssl_do_write n api react) react)) st)"

text \<open>The calls a pipeline makes.\<close>

fun openssl_call :: "nat \<Rightarrow> 's ssl_api \<Rightarrow> reaction \<Rightarrow> event \<Rightarrow> 's member" where
  "openssl_call n api react e st =
     (let fire = fire_in (openssl_do_write n api react) react; ehs = end_handshake fire
      in case e of
           On_Open a \<Rightarrow> openssl_on_open api ehs a st
         | On_Read buf \<Rightarrow> openssl_on_read api ehs fire buf st
         | On_Write written flush \<Rightarrow> openssl_on_write fire written flush st
         | Do_Write buf \<Rightarrow> openssl_do_write n api react buf st
         | _ \<Rightarrow> fire e st)"

declare openssl_call.simps [simp del]

fun openssl_calls :: "nat \<Rightarrow> 's ssl_api \<Rightarrow> reaction \<Rightarrow> event list \<Rightarrow> 's member" where
  "openssl_calls n api react [] st = Some st"
| "openssl_calls n api react (e # es) st = Option.bind (openssl_call n api react e st) (openssl_calls n api react es)"

section \<open>What the filters behind it see\<close>

text \<open>
  The events passed inwards, as an automaton over whether the opening was passed on: not twice, and no
  read or written event before it.
\<close>

fun inner_step :: "bool \<Rightarrow> action \<Rightarrow> bool option" where
  "inner_step c (Fire (On_Open a)) = (if c then None else Some True)"
| "inner_step c (Fire (On_Read buf)) = (if c then Some c else None)"
| "inner_step c (Fire (On_Write n flush)) = (if c then Some c else None)"
| "inner_step c a = Some c"

fun inner_run :: "bool \<Rightarrow> action list \<Rightarrow> bool option" where
  "inner_run c [] = Some c"
| "inner_run c (a # as) = Option.bind (inner_step c a) (\<lambda>c. inner_run c as)"

abbreviation complete_hs :: "'s openssl_filter \<Rightarrow> bool" where
  "complete_hs st \<equiv> os_handshake st = COMPLETE"

lemma inner_run_append: "inner_run c (as @ bs) = Option.bind (inner_run c as) (\<lambda>c. inner_run c bs)"
  by (induction as arbitrary: c) (auto split: Option.bind_splits)

lemma inner_run_neutral: "\<forall>a\<in>set as. inner_step c a = Some c \<Longrightarrow> inner_run c as = Some c"
  by (induction as) auto

text \<open>
  What is known of OpenSSL: it hands out data only when its handshake has finished; and a memory BIO that has bytes pending
  gives some when it is read.
\<close>

definition data_after_handshake :: "'s ssl_api \<Rightarrow> bool" where
  "data_after_handshake api \<longleftrightarrow> (\<forall>n s len d s'. api_read api n s = (len, d, s') \<and> 0 < len \<longrightarrow> api_init_finished api s')"

definition pending_is_read :: "'s ssl_api \<Rightarrow> bool" where
  "pending_is_read api \<longleftrightarrow> (\<forall>s. api_pending api s \<noteq> 0 \<longrightarrow> 0 < fst (api_bio_read api 4096 s))"

text \<open>Calls that leave the handshake alone and pass no event inwards that would matter.\<close>

definition outward :: "'s openssl_filter \<Rightarrow> 's openssl_filter \<Rightarrow> bool" where
  "outward st st' \<longleftrightarrow> os_handshake st' = os_handshake st \<and> os_addr st' = os_addr st \<and>
     (\<exists>as. os_log st' = os_log st @ as \<and> (\<forall>a\<in>set as. \<forall>c. inner_step c a = Some c))"

lemma outward_refl [simp]: "outward st st" "outward st (st\<lparr>os_ssl := s\<rparr>)"
  by (simp_all add: outward_def)

lemma outward_trans: "outward st st' \<Longrightarrow> outward st' st'' \<Longrightarrow> outward st st''"
  unfolding outward_def by (elim conjE exE) (auto simp: ball_Un)

lemma outward_act [simp]:
  "outward st (act (Close ec) (st\<lparr>os_ssl := s\<rparr>))" "outward st (act (Fire (Do_Write b)) (st\<lparr>os_ssl := s\<rparr>))"
  by (simp_all add: outward_def act_def)

lemma outward_run: "outward st st' \<Longrightarrow> inner_run False (os_log st) = Some c \<Longrightarrow> inner_run False (os_log st') = Some c"
  by (auto simp: outward_def inner_run_append inner_run_neutral)

lemma send_pending_outward:
  assumes "send_pending api ehs st = Some st'" and "pending_is_read api"
  shows "outward st st'"
  using assms(2)
proof (induction rule: send_pending.raw_induct [OF _ assms(1)])
  case (1 f api ehs st r)
  note ih = 1(1) and body = 1(2) and law = 1(3)
  obtain ret mb s where io: "api_bio_read api 4096 (os_ssl st) = (ret, mb, s)" by (cases "api_bio_read api 4096 (os_ssl st)")
  show ?case
  proof (cases "api_pending api (os_ssl st) = 0")
    case True
    then show ?thesis using body by simp
  next
    case False
    then have "0 < ret" using law io unfolding pending_is_read_def by (metis fst_conv)
    then have "f api ehs (act (Fire (Do_Write (take (nat ret) mb))) (st\<lparr>os_ssl := s\<rparr>)) = Some r" using body io False by simp
    from ih [OF this law] outward_act(2) show ?thesis by (rule outward_trans [rotated])
  qed
qed

text \<open>So \<open>send_pending\<close> never ends the handshake, and a write from the filters behind needs no further one.\<close>

lemma send_pending_ehs:
  assumes "send_pending api ehs st = Some st'" and "pending_is_read api"
  shows "send_pending api ehs' st = Some st'"
  using assms(2)
proof (induction rule: send_pending.raw_induct [OF _ assms(1)])
  case (1 f api ehs st r)
  note ih = 1(1) and body = 1(2) and law = 1(3)
  obtain ret mb s where io: "api_bio_read api 4096 (os_ssl st) = (ret, mb, s)" by (cases "api_bio_read api 4096 (os_ssl st)")
  show ?case
  proof (cases "api_pending api (os_ssl st) = 0")
    case True
    then show ?thesis using body by (simp add: send_pending.simps)
  next
    case False
    then have p: "0 < ret" using law io unfolding pending_is_read_def by (metis fst_conv)
    then have "f api ehs (act (Fire (Do_Write (take (nat ret) mb))) (st\<lparr>os_ssl := s\<rparr>)) = Some r" using body io False by simp
    from ih [OF this law] show ?thesis using io p False by (subst send_pending.simps) simp
  qed
qed

lemma send_pending_same: "pending_is_read api \<Longrightarrow> send_pending api ehs st = send_pending api ehs' st"
  using send_pending_ehs by (metis not_Some_eq)

lemma write_wbio_outward:
  assumes "write_wbio api msg st = Some r"
  shows "outward st (snd r)"
proof (induction rule: write_wbio.raw_induct [OF _ assms])
  case (1 f api msg st r)
  note ih = 1(1) and body = 1(2)
  obtain len s where io: "api_write api msg (os_ssl st) = (len, s)" by (cases "api_write api msg (os_ssl st)")
  consider "msg = []" | "msg \<noteq> []" "len \<le> 0" "is_fatal_error api len (st\<lparr>os_ssl := s\<rparr>)"
    | msg' where "f api msg' (st\<lparr>os_ssl := s\<rparr>) = Some r"
    using body io by (auto simp: Let_def split: if_splits)
  then show ?case
  proof cases
    case 1
    then show ?thesis using body by auto
  next
    case 2
    then show ?thesis using body io by auto
  next
    case 3
    from ih [OF this] outward_refl(2) show ?thesis by (rule outward_trans [rotated])
  qed
qed

lemma openssl_do_write_outward:
  assumes "openssl_do_write n api react buf st = Some st'" and "pending_is_read api"
  shows "outward st st'"
proof (cases n)
  case (Suc m)
  then obtain ok st1 where w: "write_wbio api buf st = Some (ok, st1)"
    "send_pending api (end_handshake (fire_in (openssl_do_write m api react) react)) st1 = Some st'"
    using assms(1) by (auto simp: bind_eq_Some_iff)
  show ?thesis using write_wbio_outward [OF w(1)] send_pending_outward [OF w(2) assms(2)] by (auto intro: outward_trans)
qed (use assms(1) in simp)

lemma openssl_do_write_fuel:
  "pending_is_read api \<Longrightarrow> openssl_do_write (Suc n) api react buf st = openssl_do_write (Suc m) api react buf st"
  using send_pending_same [of api "end_handshake (fire_in (openssl_do_write n api react) react)" _
      "end_handshake (fire_in (openssl_do_write m api react) react)"]
  by (simp only: openssl_do_write.simps)

text \<open>An event passed inwards, with the writes it causes.\<close>

definition writes_outward :: "(bytes \<Rightarrow> 's member) \<Rightarrow> bool" where
  "writes_outward wr \<longleftrightarrow> (\<forall>b st st'. wr b st = Some st' \<longrightarrow> outward st st')"

lemma run_writes_outward: "writes_outward wr \<Longrightarrow> run_writes wr bs st = Some st' \<Longrightarrow> outward st st'"
proof (induction bs arbitrary: st)
  case (Cons b bs)
  then obtain st1 where "wr b st = Some st1" "run_writes wr bs st1 = Some st'" by (auto simp: bind_eq_Some_iff)
  then show ?case using Cons.IH Cons.prems(1) unfolding writes_outward_def by (blast intro: outward_trans)
qed simp

lemma do_write_outward: "pending_is_read api \<Longrightarrow> writes_outward (openssl_do_write n api react)"
  using openssl_do_write_outward unfolding writes_outward_def by blast

lemma fire_in_run:
  assumes "fire_in wr react e st = Some st'" and "writes_outward wr"
    and "inner_run False (os_log st) = Some c" and "inner_step c (Fire e) = Some c'"
  shows "inner_run False (os_log st') = Some c' \<and> os_handshake st' = os_handshake st"
proof -
  have o: "outward (act (Fire e) st) st'" by (rule run_writes_outward [OF assms(2) assms(1) [unfolded fire_in_def]])
  have "inner_run False (os_log (act (Fire e) st)) = Some c'" using assms(3,4) by (simp add: act_def inner_run_append)
  from outward_run [OF o this] o show ?thesis by (simp add: outward_def act_def)
qed

text \<open>The invariant: the filters behind have seen the opening event if and only if the handshake is complete.\<close>

definition opened_ok :: "'s openssl_filter \<Rightarrow> bool" where
  "opened_ok st \<longleftrightarrow> inner_run False (os_log st) = Some (complete_hs st)"

lemma opened_outward: "outward st st' \<Longrightarrow> opened_ok st \<Longrightarrow> opened_ok st'"
  using outward_run unfolding opened_ok_def outward_def by metis

lemma end_handshake_opened:
  assumes "end_handshake (fire_in wr react) st = Some st'" and "writes_outward wr" and "opened_ok st"
  shows "opened_ok st' \<and> complete_hs st'"
proof (cases "complete_hs st")
  case True
  then show ?thesis using assms(1,3) by (auto simp: end_handshake_def opened_ok_def)
next
  case False
  then obtain st1 where f: "fire_in wr react (On_Open (os_addr st)) st = Some st1" "st' = st1\<lparr>os_handshake := COMPLETE\<rparr>"
    using assms(1) by (auto simp: end_handshake_def)
  have "inner_run False (os_log st1) = Some True" using fire_in_run [OF f(1) assms(2), where c = False and c' = True] assms(3) False by (simp add: opened_ok_def)
  then show ?thesis using f(2) by (simp add: opened_ok_def)
qed

definition ends_handshake :: "'s member \<Rightarrow> bool" where
  "ends_handshake ehs \<longleftrightarrow> (\<forall>st st'. ehs st = Some st' \<longrightarrow> opened_ok st \<longrightarrow> opened_ok st' \<and> complete_hs st')"

lemma ends_handshakeD: "ends_handshake ehs \<Longrightarrow> ehs st = Some st' \<Longrightarrow> opened_ok st \<Longrightarrow> opened_ok st' \<and> complete_hs st'"
  by (simp add: ends_handshake_def)

lemma opened_ssl [simp]: "opened_ok (st\<lparr>os_ssl := s\<rparr>) = opened_ok st" "opened_ok (st\<lparr>os_addr := a\<rparr>) = opened_ok st"
  by (simp_all add: opened_ok_def)

lemma opened_close [simp]: "opened_ok st \<Longrightarrow> opened_ok (act (Close ec) st)" "complete_hs (act a st) = complete_hs st"
  by (simp_all add: opened_ok_def act_def inner_run_append)

lemma write_rbio_opened:
  assumes "write_rbio api ehs msg st = Some r" and "ends_handshake ehs" and "opened_ok st"
  shows "opened_ok (snd r)"
  using assms(2,3)
proof (induction rule: write_rbio.raw_induct [OF _ assms(1)])
  case (1 f api ehs msg st r)
  note ih = 1(1) and body = 1(2) and law = 1(3) and ok = 1(4)
  obtain len s where io: "api_bio_write api msg (os_ssl st) = (len, s)" by (cases "api_bio_write api msg (os_ssl st)")
  consider "msg = []" | r1 where "ehs (act (Close error_openssl_bio_write) (st\<lparr>os_ssl := s\<rparr>)) = Some r1" "r = (False, r1)"
    | msg' where "f api ehs msg' (st\<lparr>os_ssl := s\<rparr>) = Some r"
    using body io by (auto simp: Let_def split: if_splits)
  then show ?case
  proof cases
    case 1
    then show ?thesis using body ok by auto
  next
    case 2
    then show ?thesis using ends_handshakeD [OF law 2(1)] ok by simp
  next
    case 3
    then show ?thesis using ih [OF 3 law] ok by simp
  qed
qed

lemma ssl_read_loop_opened:
  assumes "ssl_read_loop api ehs (fire_in wr react) st = Some r" and "data_after_handshake api" and "ends_handshake ehs"
    and "writes_outward wr" and "opened_ok st"
  shows "opened_ok (snd r)"
proof -
  have "fire = fire_in wr react \<Longrightarrow> ssl_read_loop api ehs fire st = Some r \<Longrightarrow> data_after_handshake api \<Longrightarrow> ends_handshake ehs \<Longrightarrow>
      opened_ok st \<Longrightarrow> opened_ok (snd r)" for fire
  proof -
    assume run: "ssl_read_loop api ehs fire st = Some r"
    show "fire = fire_in wr react \<Longrightarrow> data_after_handshake api \<Longrightarrow> ends_handshake ehs \<Longrightarrow> opened_ok st \<Longrightarrow> opened_ok (snd r)"
    proof (induction rule: ssl_read_loop.raw_induct [OF _ run])
      case (1 f api ehs fire st r)
      note ih = 1(1) and body = 1(2) and fire = 1(3) and data = 1(4) and law = 1(5) and ok = 1(6)
      obtain len mb s where io: "api_read api 4096 (os_ssl st) = (len, mb, s)" by (cases "api_read api 4096 (os_ssl st)")
      let ?st = "st\<lparr>os_ssl := s\<rparr>"
      obtain st1 where e: "(if \<not> complete_hs ?st \<and> api_init_finished api s then ehs ?st else Some ?st) = Some st1"
        using body io by (auto simp: Let_def bind_eq_Some_iff)
      have ok1: "opened_ok st1" and fin: "api_init_finished api s \<Longrightarrow> complete_hs st1"
        using e ok ends_handshakeD [OF law, of ?st st1] by (auto split: if_splits)
      show ?case
      proof (cases "len \<le> 0")
        case True
        then consider "r = (True, st1)" | st2 where "ehs st1 = Some st2" "r = (False, act (Close error_openssl_ssl_read) st2)"
          using body io e by (auto simp: Let_def split: if_splits)
        then show ?thesis using ok1 ends_handshakeD [OF law] by cases auto
      next
        case False
        then obtain st2 where f: "fire (On_Read (take (nat len) mb)) st1 = Some st2" "f api ehs fire st2 = Some r"
          using body io e by (auto simp: Let_def bind_eq_Some_iff)
        have "complete_hs st1" using fin False data io unfolding data_after_handshake_def by (meson linorder_not_le)
        then have "opened_ok st2"
          using fire_in_run [OF f(1) [unfolded fire] assms(4), where c = True and c' = True] ok1 by (simp add: opened_ok_def)
        from ih [OF f(2) fire data law this] show ?thesis .
      qed
    qed
  qed
  then show ?thesis using assms by blast
qed

lemma openssl_on_open_opened:
  assumes "openssl_on_open api ehs a st = Some st'" and "pending_is_read api" and "ends_handshake ehs" and "opened_ok st"
  shows "opened_ok st'"
proof -
  have "opened_ok st'" if b: "begin_handshake api ehs st = Some st'" "opened_ok st" for st
  proof -
    obtain ret mb s where io: "api_read api 0 (os_ssl st) = (ret, mb, s)" by (cases "api_read api 0 (os_ssl st)")
    then consider st1 where "ehs (st\<lparr>os_ssl := s\<rparr>) = Some st1" "st' = act (Close error_openssl_handshake) st1"
      | "send_pending api ehs (st\<lparr>os_ssl := s\<rparr>) = Some st'"
      using b(1) by (auto simp: begin_handshake_def Let_def split: if_splits)
    then show ?thesis
      using b(2) ends_handshakeD [OF assms(3)] opened_outward [OF send_pending_outward [OF _ assms(2)]] by cases auto
  qed
  then show ?thesis using assms(1,4) by (auto simp: openssl_on_open_def Let_def split: if_splits)
qed

lemma openssl_on_read_opened:
  assumes "openssl_on_read api ehs (fire_in wr react) buf st = Some st'" and "data_after_handshake api" and "pending_is_read api"
    and "ends_handshake ehs" and "writes_outward wr" and "opened_ok st"
  shows "opened_ok st'"
proof -
  obtain ok st1 where w: "write_rbio api ehs buf st = Some (ok, st1)"
    using assms(1) by (auto simp: openssl_on_read_def bind_eq_Some_iff)
  have o1: "opened_ok st1" using write_rbio_opened [OF w assms(4,6)] by simp
  show ?thesis
  proof (cases ok)
    case False
    then show ?thesis using assms(1) w o1 by (simp add: openssl_on_read_def)
  next
    case True
    then obtain more st2 where l: "ssl_read_loop api ehs (fire_in wr react) st1 = Some (more, st2)"
      using assms(1) w by (auto simp: openssl_on_read_def bind_eq_Some_iff)
    have o2: "opened_ok st2" using ssl_read_loop_opened [OF l assms(2,4,5) o1] by simp
    show ?thesis
    proof (cases more)
      case False
      then show ?thesis using assms(1) w True l o2 by (simp add: openssl_on_read_def)
    next
      case m: True
      then have "send_pending api ehs st2 = Some st'" using assms(1) w True l by (simp add: openssl_on_read_def)
      then show ?thesis using opened_outward [OF send_pending_outward [OF _ assms(3)]] o2 by blast
    qed
  qed
qed

lemma openssl_call_opened:
  assumes "openssl_call n api react e st = Some st'" and "data_after_handshake api" and "pending_is_read api" and "opened_ok st"
  shows "opened_ok st'"
proof -
  let ?wr = "openssl_do_write n api react" let ?fire = "fire_in ?wr react"
  have w: "writes_outward ?wr" by (rule do_write_outward [OF assms(3)])
  have ehs: "ends_handshake (end_handshake ?fire)" using end_handshake_opened [OF _ w] unfolding ends_handshake_def by blast
  have pass: "opened_ok st'" if "?fire e st = Some st'" "\<And>c. inner_step c (Fire e) = Some c \<or> c \<noteq> complete_hs st" for e
    using fire_in_run [OF that(1) w, where c = "complete_hs st" and c' = "complete_hs st"] that(2) [of "complete_hs st"] assms(4)
    by (simp add: opened_ok_def)
  show ?thesis
  proof (cases e)
    case (On_Open a)
    then show ?thesis using assms(1) openssl_on_open_opened [OF _ assms(3) ehs assms(4)] by (simp add: openssl_call.simps Let_def)
  next
    case (On_Read buf)
    then show ?thesis using assms(1) openssl_on_read_opened [OF _ assms(2,3) ehs w assms(4)] by (simp add: openssl_call.simps Let_def)
  next
    case (Do_Write buf)
    then have "openssl_do_write n api react buf st = Some st'" using assms(1) by (simp add: openssl_call.simps Let_def)
    then have "outward st st'" using w unfolding writes_outward_def by blast
    then show ?thesis using assms(4) by (rule opened_outward)
  next
    case (On_Write k flush)
    then show ?thesis using assms(1,4) pass [of "On_Write k flush"]
      by (auto simp: openssl_call.simps Let_def openssl_on_write_def split: if_splits)
  qed (use assms(1) pass in \<open>auto simp: openssl_call.simps Let_def\<close>)
qed

lemma openssl_call_fuel:
  "pending_is_read api \<Longrightarrow> 0 < n \<Longrightarrow> 0 < m \<Longrightarrow> openssl_call n api react e st = openssl_call m api react e st"
proof -
  assume a: "pending_is_read api" "0 < n" "0 < m"
  have "openssl_do_write n api react = openssl_do_write m api react"
    using openssl_do_write_fuel [OF a(1), of "n - 1" react _ _ "m - 1"] a(2,3) by (intro ext) simp
  then show ?thesis by (simp only: openssl_call.simps)
qed

lemma openssl_calls_fuel:
  "pending_is_read api \<Longrightarrow> 0 < n \<Longrightarrow> 0 < m \<Longrightarrow> openssl_calls n api react es st = openssl_calls m api react es st"
proof (induction es arbitrary: st)
  case (Cons e es)
  then show ?case using openssl_call_fuel [OF Cons.prems, of react e st] by (cases "openssl_call m api react e st") simp_all
qed simp

text \<open>
  C26. Whatever sequence of events a pipeline gives the TLS filter, whatever the library answers within the two rules above
  (no data before its handshake has finished; a memory BIO with pending bytes gives some), and whatever the filters behind
  write while an event is passed to them, the opening event included: they get the opening event at most once, exactly
  when the handshake state becomes complete, and never a read or a written event before it. The bound on nested writes
  does not matter: one is enough.
\<close>

theorem openssl_opens_once:
  assumes "openssl_calls n api react es st = Some st'" and "0 < n" and "data_after_handshake api" and "pending_is_read api"
    and "inner_run False (os_log st) = Some (os_handshake st = COMPLETE)"
  shows "inner_run False (os_log st') = Some (os_handshake st' = COMPLETE) \<and>
    (\<forall>m > 0. openssl_calls m api react es st = Some st')"
proof -
  have "opened_ok st" using assms(5) by (simp add: opened_ok_def)
  then have "opened_ok st'" using assms(1)
  proof (induction es arbitrary: st)
    case (Cons e es)
    then obtain st1 where c: "openssl_call n api react e st = Some st1" "openssl_calls n api react es st1 = Some st'"
      by (auto simp: bind_eq_Some_iff)
    from Cons.IH [OF openssl_call_opened [OF c(1) assms(3,4) Cons.prems(1)] c(2)] show ?case .
  qed simp
  moreover have "openssl_calls m api react es st = Some st'" if "0 < m" for m
    using openssl_calls_fuel [OF assms(4,2) that, of react es st] assms(1) by simp
  ultimately show ?thesis by (simp add: opened_ok_def)
qed

text \<open>
  A library whose handshake ends with the first input: its state is what was received. The filter behind writes when it is
  opened.
\<close>

definition demo_api :: "bytes ssl_api" where
  "demo_api = \<lparr>api_read = (\<lambda>n s. if n = 0 \<or> s = [] then (- 1, [], s) else (int (length s), s, [])),
    api_write = (\<lambda>d s. (int (length d), s)), api_bio_write = (\<lambda>d s. (int (length d), s @ d)),
    api_bio_read = (\<lambda>n s. (0, [], s)), api_pending = (\<lambda>s. 0), api_should_retry = (\<lambda>s. False),
    api_get_error = (\<lambda>n s. SSL_ERROR_WANT_READ), api_init_finished = (\<lambda>s. True),
    api_accept_state = (\<lambda>s. s), api_connect_state = (\<lambda>s. s)\<rparr>"

definition demo_react :: reaction where
  "demo_react log e = (if e = On_Open 7 \<and> Fire (On_Open 7) \<notin> set log then [[9]] else [])"

lemmas openssl_eval = openssl_filter_ctor_def openssl_call.simps openssl_on_open_def begin_handshake_def openssl_on_read_def
  send_pending.simps write_rbio.simps write_wbio.simps ssl_read_loop.simps is_fatal_error_def end_handshake_def fire_in_def
  demo_react_def act_def Let_def

lemma demo_calls:
  "openssl_calls 1 demo_api demo_react [On_Open 7, On_Read [1, 2]] (openssl_filter_ctor [] ACCEPT) =
     Some \<lparr>os_ssl = [], os_handshake = COMPLETE, os_addr = 7, os_log = [Fire (On_Open 7), Fire (On_Read [1, 2])]\<rparr>"
  by (simp add: openssl_eval demo_api_def)

theorem openssl_opens_once_witness:
  "inner_run False [Fire (On_Open 7), Fire (On_Read [1, 2])] = Some True"
  using openssl_opens_once [OF demo_calls]
  by (simp add: data_after_handshake_def pending_is_read_def demo_api_def openssl_filter_ctor_def)

text \<open>
  The order of \<open>end_handshake\<close>, which passes the opening event before it sets the state, matters for a library that breaks
  the second rule: if reading its pending bytes fails, a filter that writes when it is opened is opened twice.
\<close>

lemma openssl_opens_twice:
  "map_option os_log (openssl_calls 2
     (demo_api\<lparr>api_pending := (\<lambda>s. 1), api_get_error := (\<lambda>n s. if n = 0 then SSL_ERROR_OTHER else SSL_ERROR_WANT_READ)\<rparr>)
     demo_react [On_Open 7] (openssl_filter_ctor [] ACCEPT)) =
   Some [Close error_openssl_bio_read, Fire (On_Open 7), Close error_openssl_bio_read, Fire (On_Open 7)]"
  by (simp add: openssl_eval demo_api_def eval_nat_numeral)

end
