(* ===== verification/Endpoints.thy ===== *)
theory Endpoints
  imports Channel Time_Util
begin

text \<open>
  The two ways a channel comes about: \<open>pipeline_connector\<close> of \<open>src/io/ip/tcp/pipeline/connector.cpp\<close>, which
  tries a list of addresses in turn, and \<open>pipeline_acceptor\<close> of \<open>acceptor.cpp\<close>. Their members return the
  effects on the socket, the timer, the channels and the overridable \<open>on_error\<close>; whether a pipeline could
  be built and what the other virtual members answer are arguments. \<^const>\<open>None\<close> is an index outside the
  list of addresses, or a socket without its engine: a channel takes the socket over, and what is left in the
  connector holds a null pointer that every further operation on the socket dereferences.
\<close>

section \<open>The program\<close>

datatype effect =
    Connect_To addr
  | Accept_Next
  | Socket_Close
  | Channel_Open addr
  | Channel_Delete
  | Report error_code addr
  | Timer_Start timestamp timespan
  | Timer_Stop

record connector =
  cn_address :: "addr list"
  cn_index :: nat
  cn_progress :: bool
  cn_timeout :: timespan
  cn_connect_time :: timestamp
  cn_fd :: bool

definition connector_ctor :: connector where
  "connector_ctor = \<lparr>cn_address = [], cn_index = 0, cn_progress = False, cn_timeout = minutes 1, cn_connect_time = mk_stamp 0, cn_fd = True\<rparr>"

definition set_timeout :: "timespan \<Rightarrow> connector \<Rightarrow> connector" where
  "set_timeout t cn = cn\<lparr>cn_timeout := t\<rparr>"

definition current_address :: "connector \<Rightarrow> addr option" where
  "current_address cn = (if cn_index cn < length (cn_address cn) then Some (cn_address cn ! cn_index cn) else None)"

text \<open>\<open>_fd.close()\<close> and \<open>_fd.connect\<close> go through the engine of the socket.\<close>

definition connector_close :: "connector \<Rightarrow> effect list option" where
  "connector_close cn = (if cn_fd cn then Some [Socket_Close] else None)"

definition do_connect :: "timestamp \<Rightarrow> connector \<Rightarrow> (effect list \<times> connector) option" where
  "do_connect now cn =
     Option.bind (current_address cn) (\<lambda>a.
     let cn = cn\<lparr>cn_progress := True, cn_connect_time := now\<rparr>
     in if cn_fd cn then Some ([Connect_To a], cn) else None)"

definition do_connect_addrs :: "timestamp \<Rightarrow> addr list \<Rightarrow> connector \<Rightarrow> (effect list \<times> connector) option" where
  "do_connect_addrs now addrs cn =
     (let cn = cn\<lparr>cn_address := addrs, cn_index := 0\<rparr>
      in map_option (\<lambda>(es, cn). (es @ [Timer_Start (stamp_add now (cn_timeout cn)) (cn_timeout cn)], cn)) (do_connect now cn))"

definition connect_sequence :: "timestamp \<Rightarrow> addr list \<Rightarrow> timespan \<Rightarrow> connector \<Rightarrow> (effect list \<times> connector) option" where
  "connect_sequence now addrs per_wait_time cn = do_connect_addrs now addrs (set_timeout per_wait_time cn)"

definition connector_connect :: "timestamp \<Rightarrow> addr \<Rightarrow> timespan \<Rightarrow> connector \<Rightarrow> (effect list \<times> connector) option" where
  "connector_connect now a wait_time cn = connect_sequence now [a] wait_time cn"

text \<open>
  Without an error the socket moves into a new channel before the pipeline is built. \<open>on_error\<close> is called with the code
  that came in.
\<close>

definition handle_connect ::
    "timestamp \<Rightarrow> bool \<Rightarrow> (addr \<Rightarrow> bool) \<Rightarrow> error_code \<Rightarrow> connector \<Rightarrow> (effect list \<times> connector) option" where
  "handle_connect now built do_continue ec cn =
     (let cn = cn\<lparr>cn_progress := False\<rparr>;
          cn = (if \<not> has_error ec then cn\<lparr>cn_fd := False\<rparr> else cn)
      in if \<not> has_error ec \<and> built then map_option (\<lambda>a. ([Channel_Open a, Timer_Stop], cn)) (current_address cn)
         else
           let es = (if \<not> has_error ec then [Channel_Delete] else [])
           in Option.bind (connector_close cn) (\<lambda>cs.
              Option.bind (current_address cn) (\<lambda>a.
              let es = es @ cs @ [Report ec a]; cn = cn\<lparr>cn_index := (cn_index cn + 1) mod length (cn_address cn)\<rparr>
              in Option.bind (current_address cn) (\<lambda>b.
                 if do_continue b then map_option (\<lambda>(fs, cn). (es @ fs, cn)) (do_connect now cn)
                 else Some (es @ [Timer_Stop], cn)))))"

definition connector_on_timer :: "timestamp \<Rightarrow> error_code \<Rightarrow> connector \<Rightarrow> effect list option" where
  "connector_on_timer now ec cn =
     (if has_error ec then Some []
      else if cn_progress cn \<and> stamp_gt now (stamp_add (cn_connect_time cn) (cn_timeout cn)) then connector_close cn
      else Some [])"

text \<open>The acceptor: whether it listens and how many accept operations are under way.\<close>

record acceptor =
  ac_listening :: bool
  ac_accepts :: nat

definition acceptor_ctor :: acceptor where
  "acceptor_ctor = \<lparr>ac_listening = False, ac_accepts = 0\<rparr>"

definition do_accept :: "acceptor \<Rightarrow> effect list \<times> acceptor" where
  "do_accept ac = ([Accept_Next], ac\<lparr>ac_accepts := ac_accepts ac + 1\<rparr>)"

definition acceptor_listen :: "bool \<Rightarrow> acceptor \<Rightarrow> bool \<times> effect list \<times> acceptor" where
  "acceptor_listen ok ac =
     (if ok then (case do_accept (ac\<lparr>ac_listening := True\<rparr>) of (es, ac) \<Rightarrow> (True, es, ac)) else (False, [], ac))"

definition acceptor_close :: "acceptor \<Rightarrow> acceptor" where
  "acceptor_close ac = ac\<lparr>ac_listening := False\<rparr>"

definition handle_accept ::
    "bool \<Rightarrow> (addr \<Rightarrow> bool) \<Rightarrow> error_code \<Rightarrow> addr \<Rightarrow> acceptor \<Rightarrow> effect list \<times> acceptor" where
  "handle_accept built on_condition ec a ac =
     (let ac = ac\<lparr>ac_accepts := ac_accepts ac - 1\<rparr>;
          es = (if has_error ec then [Report ec a]
                else if on_condition a
                then (if built then [Channel_Open a] else [Channel_Delete, Report error_pipeline_build_fail a])
                else [Socket_Close])
      in case do_accept ac of (fs, ac) \<Rightarrow> (es @ fs, ac))"

section \<open>Rotation\<close>

text \<open>A run of the connector: each attempt's result, whether the pipeline was built, and the time.\<close>

fun connector_run ::
    "(addr \<Rightarrow> bool) \<Rightarrow> (error_code \<times> bool \<times> timestamp) list \<Rightarrow> connector \<Rightarrow> (effect list \<times> connector) option" where
  "connector_run cont [] cn = Some ([], cn)"
| "connector_run cont ((ec, built, now) # rs) cn =
     (if \<not> cn_progress cn then Some ([], cn)
      else Option.bind (handle_connect now built cont ec cn) (\<lambda>(es, cn).
           Option.bind (connector_run cont rs cn) (\<lambda>(fs, cn). Some (es @ fs, cn))))"

fun tried :: "effect list \<Rightarrow> addr list" where
  "tried [] = []"
| "tried (Connect_To a # es) = a # tried es"
| "tried (_ # es) = tried es"

lemma tried_append [simp]: "tried (es @ fs) = tried es @ tried fs"
  by (induction es rule: tried.induct) auto

fun reports :: "effect list \<Rightarrow> (error_code \<times> addr) list" where
  "reports [] = []"
| "reports (Report ec a # es) = (ec, a) # reports es"
| "reports (_ # es) = reports es"

lemma reports_append [simp]: "reports (es @ fs) = reports es @ reports fs"
  by (induction es rule: reports.induct) auto

abbreviation failed :: "error_code \<times> bool \<times> timestamp \<Rightarrow> bool" where
  "failed r \<equiv> has_error (fst r)"

lemma handle_connect_failed:
  assumes "cn_index cn < length (cn_address cn)" and "has_error ec" and "cn_fd cn"
  shows "handle_connect now built do_continue ec cn =
    (let i = (cn_index cn + 1) mod length (cn_address cn); es = [Socket_Close, Report ec (cn_address cn ! cn_index cn)]
     in if do_continue (cn_address cn ! i)
        then Some (es @ [Connect_To (cn_address cn ! i)], cn\<lparr>cn_progress := True, cn_index := i, cn_connect_time := now\<rparr>)
        else Some (es @ [Timer_Stop], cn\<lparr>cn_progress := False, cn_index := i\<rparr>))"
proof -
  have "(cn_index cn + 1) mod length (cn_address cn) < length (cn_address cn)" using assms(1) by (intro mod_less_divisor) linarith
  then show ?thesis
    using assms by (simp add: handle_connect_def connector_close_def current_address_def do_connect_def Let_def)
qed

lemma rotation:
  assumes "cn_index cn < length (cn_address cn)" and "cn_progress cn" and "cn_fd cn" and "\<forall>r\<in>set rs. failed r" and "\<And>a. cont a"
  shows "\<exists>es cn'. connector_run cont rs cn = Some (es, cn') \<and> cn_progress cn' \<and> cn_fd cn' \<and> cn_address cn' = cn_address cn \<and>
    cn_index cn' = (cn_index cn + length rs) mod length (cn_address cn) \<and>
    tried es = map (\<lambda>k. cn_address cn ! ((cn_index cn + Suc k) mod length (cn_address cn))) [0..<length rs] \<and>
    reports es = map (\<lambda>k. (fst (rs ! k), cn_address cn ! ((cn_index cn + k) mod length (cn_address cn)))) [0..<length rs] \<and>
    (\<forall>a. Channel_Open a \<notin> set es)"
  using assms(1-4)
proof (induction rs arbitrary: cn)
  case Nil
  then show ?case by simp
next
  case (Cons r rs)
  obtain ec built now where r: "r = (ec, built, now)" by (cases r)
  let ?n = "length (cn_address cn)" and ?i = "(cn_index cn + 1) mod length (cn_address cn)"
  let ?cn = "cn\<lparr>cn_progress := True, cn_index := ?i, cn_connect_time := now\<rparr>"
  let ?es = "[Socket_Close, Report ec (cn_address cn ! cn_index cn), Connect_To (cn_address cn ! ?i)]"
  have "has_error ec" using Cons.prems(4) r by simp
  then have es: "handle_connect now built cont ec cn = Some (?es, ?cn)"
    using handle_connect_failed [of cn ec now built cont] Cons.prems(1,3) assms(5) by (simp add: Let_def)
  have lt: "?i < ?n" using Cons.prems(1) by (intro mod_less_divisor) linarith
  obtain fs cn' where f: "connector_run cont rs ?cn = Some (fs, cn')" "cn_progress cn'" "cn_fd cn'" "cn_address cn' = cn_address cn"
    "cn_index cn' = (?i + length rs) mod ?n"
    "tried fs = map (\<lambda>k. cn_address cn ! ((?i + Suc k) mod ?n)) [0..<length rs]"
    "reports fs = map (\<lambda>k. (fst (rs ! k), cn_address cn ! ((?i + k) mod ?n))) [0..<length rs]" "\<forall>a. Channel_Open a \<notin> set fs"
    using Cons.IH [of ?cn] Cons.prems lt by auto
  have mods: "(?i + k) mod ?n = (cn_index cn + Suc k) mod ?n" for k by (simp add: mod_add_left_eq)
  note f5 = f(5) [unfolded mods] and f6 = f(6) [unfolded mods] and f7 = f(7) [unfolded mods]
  have l: "map g [0..<length (r # rs)] = g 0 # map (\<lambda>k. g (Suc k)) [0..<length rs]" for g :: "nat \<Rightarrow> 'x"
    by (simp add: upt_conv_Cons map_Suc_upt [symmetric] del: upt_Suc)
  have run: "connector_run cont (r # rs) cn = Some (?es @ fs, cn')" using r es f(1) Cons.prems(2) by simp
  moreover have "tried (?es @ fs) = map (\<lambda>k. cn_address cn ! ((cn_index cn + Suc k) mod ?n)) [0..<length (r # rs)]"
    unfolding l using f6 by simp
  moreover have "reports (?es @ fs) = map (\<lambda>k. (fst ((r # rs) ! k), cn_address cn ! ((cn_index cn + k) mod ?n))) [0..<length (r # rs)]"
    unfolding l using f7 r Cons.prems(1) by simp
  moreover have "\<forall>a. Channel_Open a \<notin> set (?es @ fs)" using f(8) by simp
  moreover have "cn_index cn' = (cn_index cn + length (r # rs)) mod ?n" using f5 by simp
  ultimately show ?case using f(2-4) by blast
qed

section \<open>Properties\<close>

text \<open>
  C29. The connector tries its addresses in turn, starting with the first and beginning again after the last, once more
  after every failed connection as long as \<open>do_continue\<close> agrees; it reports each failure with its code and the address
  that failed, never reads outside the list, and stops with its timer when \<open>do_continue\<close> refuses. The first success
  opens one channel for the address just tried, stops the timer and ends the attempts. It also ends the use of the
  connector: its socket moved into the channel, so another \<open>connect_sequence\<close> dereferences a null engine. A success
  whose pipeline is not built dereferences it at once, in \<open>_fd.close()\<close>.
\<close>

theorem connector_tries_in_turn:
  assumes "addrs \<noteq> []" and "\<forall>r\<in>set rs. failed r" and "\<And>a. cont a"
    and "connect_sequence now addrs t cn = Some (es0, cn0)"
  shows "\<exists>es cn1. connector_run cont rs cn0 = Some (es, cn1) \<and>
    tried (es0 @ es) = map (\<lambda>k. addrs ! (k mod length addrs)) [0..<Suc (length rs)] \<and>
    reports (es0 @ es) = map (\<lambda>k. (fst (rs ! k), addrs ! (k mod length addrs))) [0..<length rs] \<and>
    (\<forall>a. Channel_Open a \<notin> set (es0 @ es)) \<and>
    (\<exists>cn2. handle_connect now' True cont error_success cn1 =
       Some ([Channel_Open (addrs ! (length rs mod length addrs)), Timer_Stop], cn2) \<and>
       connector_run cont rs' cn2 = Some ([], cn2) \<and> connect_sequence now' addrs' t' cn2 = None) \<and>
    handle_connect now' False cont error_success cn1 = None \<and>
    (\<exists>cn3. handle_connect now' built (\<lambda>a. False) error_aborted cn1 =
       Some ([Socket_Close, Report error_aborted (addrs ! (length rs mod length addrs)), Timer_Stop], cn3) \<and> \<not> cn_progress cn3)"
proof -
  have c0: "cn_address cn0 = addrs" "cn_index cn0 = 0" "cn_progress cn0" "cn_fd cn0" "tried es0 = [addrs ! 0]" "reports es0 = []"
    "\<forall>a. Channel_Open a \<notin> set es0"
    using assms(1,4)
    by (auto simp: connect_sequence_def do_connect_addrs_def do_connect_def current_address_def Let_def split: if_splits)
  then obtain es cn1 where run: "connector_run cont rs cn0 = Some (es, cn1)" "cn_progress cn1" "cn_fd cn1" "cn_address cn1 = addrs"
    "cn_index cn1 = length rs mod length addrs"
    "tried es = map (\<lambda>k. addrs ! (Suc k mod length addrs)) [0..<length rs]"
    "reports es = map (\<lambda>k. (fst (rs ! k), addrs ! (k mod length addrs))) [0..<length rs]" "\<forall>a. Channel_Open a \<notin> set es"
    using rotation [of cn0 rs cont] assms by auto
  have lt: "cn_index cn1 < length (cn_address cn1)" using run(4,5) assms(1) by simp
  have "tried (es0 @ es) = map (\<lambda>k. addrs ! (k mod length addrs)) [0..<Suc (length rs)]"
    using c0(5) run(6) by (simp add: upt_conv_Cons map_Suc_upt [symmetric] del: upt_Suc)
  moreover have "\<exists>cn2. handle_connect now' True cont error_success cn1 =
       Some ([Channel_Open (addrs ! (length rs mod length addrs)), Timer_Stop], cn2) \<and>
       connector_run cont rs' cn2 = Some ([], cn2) \<and> connect_sequence now' addrs' t' cn2 = None"
    using lt run(4,5)
    by (cases rs') (auto simp: handle_connect_def current_address_def connect_sequence_def do_connect_addrs_def do_connect_def
        set_timeout_def Let_def)
  moreover have "handle_connect now' False cont error_success cn1 = None"
    by (simp add: handle_connect_def connector_close_def)
  moreover have "\<exists>cn3. handle_connect now' built (\<lambda>a. False) error_aborted cn1 =
       Some ([Socket_Close, Report error_aborted (addrs ! (length rs mod length addrs)), Timer_Stop], cn3) \<and> \<not> cn_progress cn3"
    using handle_connect_failed [OF lt _ run(3), of error_aborted now' built "\<lambda>a. False"] run(4,5) by (simp add: Let_def)
  ultimately show ?thesis using run(1,7,8) c0(6,7) by (intro exI [of _ es] exI [of _ cn1]) auto
qed

theorem connector_tries_in_turn_witness:
  "\<exists>es cn1. connector_run (\<lambda>a. True) [(error_aborted, True, mk_stamp 1), (error_aborted, True, mk_stamp 2)]
      (connector_ctor\<lparr>cn_address := [10, 20], cn_progress := True, cn_timeout := seconds 1, cn_connect_time := mk_stamp 0\<rparr>) = Some (es, cn1) \<and>
    tried (Connect_To 10 # es) = [10, 20, 10]"
proof -
  have "connect_sequence (mk_stamp 0) [10, 20] (seconds 1) connector_ctor = Some ([Connect_To 10,
      Timer_Start (stamp_add (mk_stamp 0) (seconds 1)) (seconds 1)],
      connector_ctor\<lparr>cn_address := [10, 20], cn_progress := True, cn_timeout := seconds 1, cn_connect_time := mk_stamp 0\<rparr>)"
    by (simp add: connect_sequence_def do_connect_addrs_def do_connect_def current_address_def set_timeout_def connector_ctor_def)
  from connector_tries_in_turn [OF _ _ _ this, of "[(error_aborted, True, mk_stamp 1), (error_aborted, True, mk_stamp 2)]"
      "\<lambda>a. True" "mk_stamp 0" "[]" "[]" "seconds 1" True]
  show ?thesis by (auto simp: numeral_2_eq_2)
qed

text \<open>
  After every accepted or failed connection exactly one new accept operation is under way, however
  the connection was dealt with; a connection is opened as a channel exactly if it came without an error, the
  condition holds and its pipeline was built.
\<close>

theorem acceptor_keeps_accepting:
  assumes "0 < ac_accepts ac" and "handle_accept built on_condition ec a ac = (es, ac')"
  shows "ac_accepts ac' = ac_accepts ac \<and> count_list es Accept_Next = 1 \<and> last es = Accept_Next \<and>
    count_list es (Channel_Open a) = (if \<not> has_error ec \<and> on_condition a \<and> built then 1 else 0) \<and>
    (Socket_Close \<in> set es \<longleftrightarrow> \<not> has_error ec \<and> \<not> on_condition a) \<and>
    (Channel_Delete \<in> set es \<longleftrightarrow> \<not> has_error ec \<and> on_condition a \<and> \<not> built)"
  using assms by (auto simp: handle_accept_def do_accept_def Let_def split: if_splits)

theorem acceptor_keeps_accepting_witness:
  "ac_accepts (snd (handle_accept True (\<lambda>a. True) error_success 5 \<lparr>ac_listening = True, ac_accepts = 1\<rparr>)) = 1"
  using acceptor_keeps_accepting [of "\<lparr>ac_listening = True, ac_accepts = 1\<rparr>" True "\<lambda>a. True" error_success 5]
  by (simp add: handle_accept_def do_accept_def Let_def)

end
