(* ===== verification/Tcode_String.thy ===== *)
theory Tcode_String
  imports Tcode_Prelude
begin

text \<open>
  The string helpers of \<open>include/tcode/string.hpp\<close> and \<open>src/string.cpp\<close>, with the searches of
  \<open>std::string\<close> they use (\<open>npos\<close> is \<^const>\<open>None\<close>). The in-place variants on C strings work on the
  list of characters of the array; \<^const>\<open>None\<close> is an access outside it. The loop of \<open>replace\<close> need
  not end, so it is a partial function.
\<close>

section \<open>The searches of \<open>std::string\<close>\<close>

definition find_idx :: "('a \<Rightarrow> bool) \<Rightarrow> nat \<Rightarrow> 'a list \<Rightarrow> nat option" where
  "find_idx P pos s =
     (let i = pos + length (takeWhile (\<lambda>c. \<not> P c) (drop pos s)) in if i < length s then Some i else None)"

definition find_first_of :: "string \<Rightarrow> string \<Rightarrow> nat \<Rightarrow> nat option" where
  "find_first_of s sep pos = find_idx (\<lambda>c. c \<in> set sep) pos s"

definition find_first_not_of :: "string \<Rightarrow> string \<Rightarrow> nat \<Rightarrow> nat option" where
  "find_first_not_of s sep pos = find_idx (\<lambda>c. c \<notin> set sep) pos s"

definition find_last_not_of :: "string \<Rightarrow> string \<Rightarrow> nat option" where
  "find_last_not_of s sep =
     (case find_idx (\<lambda>c. c \<notin> set sep) 0 (rev s) of None \<Rightarrow> None | Some i \<Rightarrow> Some (length s - 1 - i))"

definition find_str :: "string \<Rightarrow> string \<Rightarrow> nat \<Rightarrow> nat option" where
  "find_str s p pos =
     (if length p \<le> length s then List.find (\<lambda>i. seg i (length p) s = p) [pos..<Suc (length s - length p)]
      else None)"

section \<open>The program\<close>

lemma find_idx_SomeD: "find_idx P pos s = Some i \<Longrightarrow> pos \<le> i \<and> i < length s"
  by (auto simp: find_idx_def Let_def split: if_splits)

function split_from :: "string \<Rightarrow> string \<Rightarrow> nat option \<Rightarrow> string list" where
  "split_from message sep start =
     (case start of
        None \<Rightarrow> []
      | Some start \<Rightarrow>
          if length message \<le> start then []
          else
            let stop = (case find_first_of message sep start of None \<Rightarrow> length message | Some i \<Rightarrow> i)
            in seg start (stop - start) message #
               split_from message sep (find_first_not_of message sep (stop + 1)))"
  by auto
termination
  by (relation "measure (\<lambda>(m, sep, s). case s of None \<Rightarrow> 0 | Some i \<Rightarrow> Suc (length m - i))")
    (auto simp: find_first_of_def find_first_not_of_def split: option.splits dest!: find_idx_SomeD)

declare split_from.simps [simp del]

definition split :: "string \<Rightarrow> string \<Rightarrow> string list" where
  "split message sep = split_from message sep (find_first_not_of message sep 0)"

text \<open>The variant with an output iterator: what it has written so far grows at the end.\<close>

definition split_to :: "string \<Rightarrow> string \<Rightarrow> string list \<Rightarrow> string list" where
  "split_to message sep os = os @ split_from message sep (find_first_not_of message sep 0)"

partial_function (option) replace_loop :: "string \<Rightarrow> string \<Rightarrow> string \<Rightarrow> nat \<Rightarrow> string option" where
  [code]: "replace_loop pattern replacement out stop =
     (case find_str out pattern stop of
        None \<Rightarrow> Some out
      | Some start \<Rightarrow>
          let stop = start + length pattern
          in replace_loop pattern replacement (take start out @ replacement @ drop stop out) stop)"

definition replace :: "string \<Rightarrow> string \<Rightarrow> string \<Rightarrow> string option" where
  "replace message pattern replacement = replace_loop pattern replacement message 0"

definition ltrim :: "string \<Rightarrow> string \<Rightarrow> string" where
  "ltrim msg trimStr =
     (case find_first_not_of msg trimStr 0 of Some start \<Rightarrow> seg start (length msg - start) msg | None \<Rightarrow> msg)"

definition rtrim :: "string \<Rightarrow> string \<Rightarrow> string" where
  "rtrim msg trimStr = (case find_last_not_of msg trimStr of Some i \<Rightarrow> seg 0 (i + 1) msg | None \<Rightarrow> msg)"

definition trim :: "string \<Rightarrow> string \<Rightarrow> string" where
  "trim msg trimStr =
     (let msg = (case find_last_not_of msg trimStr of Some pos \<Rightarrow> take (pos + 1) msg | None \<Rightarrow> msg)
      in case find_first_not_of msg trimStr 0 of Some pos \<Rightarrow> drop pos msg | None \<Rightarrow> msg)"

text \<open>\<open>isalpha\<close>, \<open>islower\<close> and \<open>isupper\<close> in the C locale.\<close>

definition upper_char :: "char \<Rightarrow> char" where
  "upper_char c = (if 97 \<le> (of_char c :: nat) \<and> (of_char c :: nat) \<le> 122 then char_of (of_char c - (32 :: nat)) else c)"

definition lower_char :: "char \<Rightarrow> char" where
  "lower_char c = (if 65 \<le> (of_char c :: nat) \<and> (of_char c :: nat) \<le> 90 then char_of (of_char c + (32 :: nat)) else c)"

definition to_upper :: "string \<Rightarrow> string" where
  "to_upper msg = foldl (\<lambda>out c. out @ [upper_char c]) [] msg"

definition to_lower :: "string \<Rightarrow> string" where
  "to_lower msg = foldl (\<lambda>out c. out @ [lower_char c]) [] msg"

definition between :: "string \<Rightarrow> string \<Rightarrow> string \<Rightarrow> string" where
  "between src pre post =
     (case find_str src pre 0 of
        None \<Rightarrow> ''''
      | Some begin_pos \<Rightarrow>
          let begin_pos = begin_pos + length pre
          in case find_str src post begin_pos of
               None \<Rightarrow> ''''
             | Some end_pos \<Rightarrow> seg begin_pos (end_pos - begin_pos) src)"

text \<open>The variants on a C string in an array, and the position reached in it.\<close>

function skip_chars :: "string \<Rightarrow> char \<Rightarrow> nat \<Rightarrow> nat option" where
  "skip_chars mem ch i =
     (if length mem \<le> i then None else if mem ! i = ch then skip_chars mem ch (i + 1) else Some i)"
  by auto
termination by (relation "measure (\<lambda>(m, c, i). length m - i)") auto

function move_down :: "string \<Rightarrow> nat \<Rightarrow> nat \<Rightarrow> string option" where
  "move_down mem start src =
     (if length mem \<le> src \<or> length mem \<le> start then None
      else if mem ! src = CHR 0x00 then Some (mem[start := CHR 0x00])
      else move_down (mem[start := mem ! src]) (start + 1) (src + 1))"
  by auto
termination by (relation "measure (\<lambda>(m, s, f). length m - f)") auto

declare skip_chars.simps [simp del] and move_down.simps [simp del]

definition ltrim_c :: "string option \<Rightarrow> char \<Rightarrow> string option option" where
  "ltrim_c message ch =
     (case message of
        None \<Rightarrow> Some None
      | Some mem \<Rightarrow>
          Option.bind (skip_chars mem ch 0) (\<lambda>i. if i = 0 then Some (Some mem) else map_option Some (move_down mem 0 i)))"

definition c_strlen :: "string \<Rightarrow> nat option" where
  "c_strlen mem = find_idx (\<lambda>c. c = CHR 0x00) 0 mem"

text \<open>\<open>while ( *(--rtrimEnd) == ch )\<close>: the argument is the position before the decrement.\<close>

fun step_back :: "string \<Rightarrow> char \<Rightarrow> nat \<Rightarrow> nat option" where
  "step_back mem ch 0 = None"
| "step_back mem ch (Suc i) = (if length mem \<le> i then None else if mem ! i = ch then step_back mem ch i else Some i)"

definition rtrim_c :: "string option \<Rightarrow> char \<Rightarrow> string option option" where
  "rtrim_c message ch =
     (case message of
        None \<Rightarrow> Some None
      | Some mem \<Rightarrow>
          Option.bind (c_strlen mem) (\<lambda>len.
          Option.bind (step_back mem ch len) (\<lambda>i. Some (Some (mem[i + 1 := CHR 0x00])))))"

text \<open>
  \<open>append_format\<close>: the array after \<open>vsnprintf\<close> holds the formatted text, cut at 4095 characters; \<open>ret\<close> is
  what it returned, and a null format does nothing.
\<close>

definition append_format :: "string \<Rightarrow> (string \<times> int) option \<Rightarrow> string" where
  "append_format msg formatted =
     (case formatted of
        None \<Rightarrow> msg
      | Some (fmt_buffer, ret) \<Rightarrow>
          let fmt_buffer = (if ret \<ge> 4096 \<or> ret < 0 then fmt_buffer[4095 := CHR 0x00] else fmt_buffer)
          in msg @ takeWhile (\<lambda>c. c \<noteq> CHR 0x00) fmt_buffer)"

definition hex_digits :: string where
  "hex_digits = ''0123456789ABCDEF''"

definition raw_to_hex_string :: "byte list \<Rightarrow> int \<Rightarrow> string option" where
  "raw_to_hex_string data sz =
     (if nat sz \<le> length data
      then Some (foldl (\<lambda>value d. value @ [hex_digits ! unat (drop_bit 4 d), hex_digits ! unat (d AND 0x0f)]) ''''
                   (take (nat sz) data))
      else None)"

section \<open>Splitting\<close>

text \<open>The fields of a text: what stands between one separator and the next.\<close>

fun fields :: "('a \<Rightarrow> bool) \<Rightarrow> 'a list \<Rightarrow> 'a list list" where
  "fields P [] = [[]]"
| "fields P (c # cs) =
     (if P c then [] # fields P cs else case fields P cs of [] \<Rightarrow> [[c]] | f # fs \<Rightarrow> (c # f) # fs)"

abbreviation words_of :: "string \<Rightarrow> string \<Rightarrow> string list" where
  "words_of sep s \<equiv> filter (\<lambda>f. f \<noteq> []) (fields (\<lambda>c. c \<in> set sep) s)"

lemma fields_not_Nil [simp]: "fields P s \<noteq> []"
  by (induction s) (auto split: list.splits)

lemma fields_free: "f \<in> set (fields P s) \<Longrightarrow> \<forall>c\<in>set f. \<not> P c"
proof (induction s arbitrary: f)
  case (Cons c cs)
  then show ?case by (cases "fields P cs") (auto split: if_splits, metis)
qed simp

lemma concat_fields: "concat (fields P s) = filter (\<lambda>c. \<not> P c) s"
proof (induction s)
  case (Cons c cs)
  then show ?case by (cases "fields P cs") auto
qed simp

lemma concat_nonempty: "concat (filter (\<lambda>f. f \<noteq> []) fs) = concat fs"
  by (induction fs) auto

lemma words_skip: "\<forall>c\<in>set xs. c \<in> set sep \<Longrightarrow> words_of sep (xs @ ys) = words_of sep ys"
  by (induction xs) auto

lemma fields_run: "\<forall>c\<in>set xs. \<not> P c \<Longrightarrow> fields P xs = [xs]"
  by (induction xs) auto

lemma fields_run_sep: "\<forall>c\<in>set xs. \<not> P c \<Longrightarrow> P c \<Longrightarrow> fields P (xs @ c # ys) = xs # fields P ys"
  by (induction xs) auto

lemma find_idx_Some:
  assumes "find_idx P pos s = Some i"
  shows "pos \<le> i" "i < length s" "P (s ! i)" "drop pos s = seg pos (i - pos) s @ drop i s"
    "\<forall>c\<in>set (seg pos (i - pos) s). \<not> P c"
proof -
  let ?t = "takeWhile (\<lambda>c. \<not> P c) (drop pos s)"
  have i: "i = pos + length ?t" "i < length s" using assms by (auto simp: find_idx_def Let_def split: if_splits)
  then show "pos \<le> i" "i < length s" by simp_all
  have "length ?t < length (drop pos s)" using i by simp
  then have "P (drop pos s ! length ?t)" using nth_length_takeWhile by blast
  then show "P (s ! i)" using i by simp
  have "seg pos (i - pos) s = ?t" using i(1) by (simp add: seg_def takeWhile_eq_take [symmetric])
  moreover have "drop i s = dropWhile (\<lambda>c. \<not> P c) (drop pos s)"
    using i(1) by (simp add: dropWhile_eq_drop add.commute)
  ultimately show "drop pos s = seg pos (i - pos) s @ drop i s" "\<forall>c\<in>set (seg pos (i - pos) s). \<not> P c"
    by (auto dest: set_takeWhileD)
qed

lemma find_idx_None:
  assumes "find_idx P pos s = None"
  shows "\<forall>c\<in>set (drop pos s). \<not> P c"
proof (cases "pos \<le> length s")
  case True
  let ?t = "takeWhile (\<lambda>c. \<not> P c) (drop pos s)"
  have "length (drop pos s) \<le> length ?t" using assms True by (auto simp: find_idx_def Let_def split: if_splits)
  then have "?t = drop pos s" by (metis antisym length_takeWhile_le takeWhile_eq_take take_all)
  then show ?thesis by (metis takeWhile_eq_all_conv)
qed simp

lemma split_from_words:
  "start = find_first_not_of message sep k \<Longrightarrow> split_from message sep start = words_of sep (drop k message)"
proof (induction message sep start arbitrary: k rule: split_from.induct)
  case (1 message sep start)
  show ?case
  proof (cases start)
    case None
    then have "\<forall>c\<in>set (drop k message). c \<in> set sep"
      using find_idx_None [of "\<lambda>c. c \<notin> set sep" k message] 1(2) by (simp add: find_first_not_of_def)
    then have "words_of sep (drop k message) = []" using words_skip [of "drop k message" sep "[]"] by simp
    then show ?thesis using None by (simp add: split_from.simps)
  next
    case (Some i)
    note fi = find_idx_Some [OF Some [unfolded 1(2) find_first_not_of_def]]
    have skip: "words_of sep (drop k message) = words_of sep (drop i message)"
      unfolding fi(4) using fi(5) by (intro words_skip) auto
    show ?thesis
    proof (cases "find_first_of message sep i")
      case None
      then have free: "\<forall>c\<in>set (drop i message). c \<notin> set sep"
        using find_idx_None [of "\<lambda>c. c \<in> set sep" i message] by (simp add: find_first_of_def)
      have "find_first_not_of message sep (length message + 1) = None"
        by (simp add: find_first_not_of_def find_idx_def Let_def)
      then have "split_from message sep start = [drop i message]"
        using Some None fi(2) by (simp add: split_from.simps seg_def)
      then show ?thesis using skip fields_run [OF free] fi(2) by simp
    next
      case stop: (Some j)
      note fj = find_idx_Some [OF stop [unfolded find_first_of_def]]
      have j: "drop i message = seg i (j - i) message @ message ! j # drop (j + 1) message"
        using fj(2,4) Cons_nth_drop_Suc by fastforce
      have "fields (\<lambda>c. c \<in> set sep) (drop i message) =
          seg i (j - i) message # fields (\<lambda>c. c \<in> set sep) (drop (j + 1) message)"
        unfolding j by (rule fields_run_sep) (use fj(3,5) in auto)
      moreover have "i \<noteq> j" using fi(3) fj(3) by auto
      then have "seg i (j - i) message \<noteq> []" using fj(1,2) by (simp add: seg_def)
      moreover have "split_from message sep start =
          seg i (j - i) message # split_from message sep (find_first_not_of message sep (j + 1))"
        using Some stop fi(2) by (subst split_from.simps) simp
      moreover have "split_from message sep (find_first_not_of message sep (j + 1)) = words_of sep (drop (j + 1) message)"
        using 1(1) [OF Some _ _ refl, of j] fi(2) stop by simp
      ultimately show ?thesis using skip by simp
    qed
  qed
qed

text \<open>
  \<open>split\<close> returns the non-empty fields between separators in their order; no field holds a
  separator, together they are the text without its separators, and the variant with an output iterator
  writes the same fields.
\<close>

theorem split_correct:
  "split message sep = filter (\<lambda>f. f \<noteq> []) (fields (\<lambda>c. c \<in> set sep) message) \<and>
   concat (split message sep) = filter (\<lambda>c. c \<notin> set sep) message \<and>
   (f \<in> set (split message sep) \<longrightarrow> f \<noteq> [] \<and> set f \<inter> set sep = {}) \<and>
   split_to message sep os = os @ split message sep"
proof -
  have eq: "split message sep = words_of sep message"
    using split_from_words [OF refl, of message sep 0] by (simp add: split_def)
  then have "f \<in> set (split message sep) \<Longrightarrow> f \<noteq> [] \<and> set f \<inter> set sep = {}"
    using fields_free by fastforce
  then show ?thesis using eq by (simp add: concat_nonempty concat_fields split_to_def split_def)
qed

theorem split_correct_witness:
  "split '',ab,,c'' '','' = [''ab'', ''c'']"
  using split_correct [of "'',ab,,c''" "'',''" "''ab''" "[]"] by simp

section \<open>Replacing\<close>

lemma find_str_Some:
  assumes "find_str s p pos = Some i"
  shows "pos \<le> i" "i + length p \<le> length s" "seg i (length p) s = p"
    "\<And>j. pos \<le> j \<Longrightarrow> j < i \<Longrightarrow> seg j (length p) s \<noteq> p"
proof -
  have *: "length p \<le> length s" "List.find (\<lambda>i. seg i (length p) s = p) [pos..<Suc (length s - length p)] = Some i"
    using assms by (auto simp: find_str_def split: if_splits)
  then obtain k where k: "k < length [pos..<Suc (length s - length p)]" "seg ([pos..<Suc (length s - length p)] ! k) (length p) s = p"
    "i = [pos..<Suc (length s - length p)] ! k"
    "\<forall>j<k. seg ([pos..<Suc (length s - length p)] ! j) (length p) s \<noteq> p"
    by (auto simp: find_Some_iff)
  then have i: "i = pos + k" "pos + k < Suc (length s - length p)" by (simp_all add: nth_upt del: upt_Suc)
  then show "pos \<le> i" "i + length p \<le> length s" "seg i (length p) s = p" using k(2,3) *(1) by auto
  fix j assume j: "pos \<le> j" "j < i"
  then have "j - pos < k" "[pos..<Suc (length s - length p)] ! (j - pos) = j"
    using i by (simp_all add: nth_upt del: upt_Suc)
  then show "seg j (length p) s \<noteq> p" using k(4) by metis
qed

lemma find_str_None:
  assumes "find_str s p pos = None" and "pos \<le> i" and "i + length p \<le> length s"
  shows "seg i (length p) s \<noteq> p"
  using assms by (auto simp: find_str_def find_None_iff split: if_splits)

text \<open>What a replacement should be: at every leftmost occurrence that does not overlap the last one.\<close>

function replaced :: "'a list \<Rightarrow> 'a list \<Rightarrow> 'a list \<Rightarrow> 'a list" where
  "replaced p r s =
     (if p = [] \<or> s = [] then s
      else if take (length p) s = p then r @ replaced p r (drop (length p) s)
      else hd s # replaced p r (tl s))"
  by auto
termination by (relation "measure (\<lambda>(p, r, s). length s)") auto

declare replaced.simps [simp del]

lemma replaced_skip:
  assumes "\<And>j. j < k \<Longrightarrow> seg j (length p) s \<noteq> p" and "k \<le> length s"
  shows "replaced p r s = take k s @ replaced p r (drop k s)"
  using assms
proof (induction k arbitrary: s)
  case (Suc k)
  then obtain c cs where s: "s = c # cs" by (cases s) auto
  have "take (length p) s \<noteq> p" using Suc.prems(1) [of 0] by simp
  moreover have "p \<noteq> []" using Suc.prems(1) [of 0] by auto
  ultimately have "replaced p r s = c # replaced p r cs" using s by (subst replaced.simps) simp
  moreover have "replaced p r cs = take k cs @ replaced p r (drop k cs)"
  proof (rule Suc.IH)
    fix j assume "j < k"
    then show "seg j (length p) cs \<noteq> p" using Suc.prems(1) [of "Suc j"] s by (simp add: seg_def)
  qed (use Suc.prems(2) s in simp)
  ultimately show ?case using s by simp
qed simp

lemma replaced_none: "(\<And>j. j + length p \<le> length s \<Longrightarrow> seg j (length p) s \<noteq> p) \<Longrightarrow> replaced p r s = s"
proof -
  assume *: "\<And>j. j + length p \<le> length s \<Longrightarrow> seg j (length p) s \<noteq> p"
  have "seg j (length p) s \<noteq> p" for j
  proof (cases "j + length p \<le> length s")
    case False
    show ?thesis
    proof (cases "p = []")
      case False
      then have "length (seg j (length p) s) < length p" using \<open>\<not> j + length p \<le> length s\<close> by (cases p) auto
      then show ?thesis by (metis less_irrefl)
    qed (use * [of 0] in simp)
  qed (rule *)
  then have "replaced p r s = take (length s) s @ replaced p r (drop (length s) s)"
    by (intro replaced_skip) auto
  then show ?thesis by (simp add: replaced.simps)
qed

lemma replace_loop_same_length:
  assumes "p \<noteq> []" and "length r = length p" and "stop \<le> length out"
  shows "replace_loop p r out stop = Some (take stop out @ replaced p r (drop stop out))"
  using assms(3)
proof (induction "length out - stop" arbitrary: out stop rule: less_induct)
  case less
  show ?case
  proof (cases "find_str out p stop")
    case None
    have "replaced p r (drop stop out) = drop stop out"
    proof (rule replaced_none)
      fix j assume "j + length p \<le> length (drop stop out)"
      then show "seg j (length p) (drop stop out) \<noteq> p"
        using find_str_None [OF None, of "stop + j"] less.prems by (simp add: seg_def add.commute)
    qed
    then show ?thesis using None by (subst replace_loop.simps) simp
  next
    case (Some i)
    note fi = find_str_Some [OF Some]
    let ?stop = "i + length p"
    let ?out = "take i out @ r @ drop ?stop out"
    have len: "length ?out = length out" using fi(2) assms(2) by simp
    have "replace_loop p r out stop = replace_loop p r ?out ?stop"
      using Some by (subst replace_loop.simps) (simp add: Let_def)
    also have "\<dots> = Some (take ?stop ?out @ replaced p r (drop ?stop ?out))"
    proof (rule less.hyps)
      have "0 < length p" using assms(1) by simp
      then show "length ?out - ?stop < length out - stop" using len fi(1,2) by linarith
    qed (use len fi(2) in simp)
    also have "\<dots> = Some (take i out @ r @ replaced p r (drop ?stop out))"
      using fi(2) assms(2) by simp
    finally have 1: "replace_loop p r out stop = Some (take i out @ r @ replaced p r (drop ?stop out))" .
    have "replaced p r (drop stop out) = take (i - stop) (drop stop out) @ replaced p r (drop (i - stop) (drop stop out))"
    proof (rule replaced_skip)
      fix j assume "j < i - stop"
      then show "seg j (length p) (drop stop out) \<noteq> p"
        using fi(4) [of "stop + j"] by (simp add: seg_def add.commute)
    qed (use fi(1,2) in simp)
    moreover have "drop (i - stop) (drop stop out) = drop i out" using fi(1) by simp
    moreover have "replaced p r (drop i out) = r @ replaced p r (drop ?stop out)"
      using fi(2,3) assms(1) by (subst replaced.simps) (auto simp: seg_def add.commute)
    moreover have "take i out = take stop out @ take (i - stop) (drop stop out)"
      using fi(1) by (metis le_add_diff_inverse take_add)
    ultimately show ?thesis using 1 by simp
  qed
qed

lemma replace_loop_returns:
  assumes "p \<noteq> []" and "length r \<le> length p"
  shows "\<exists>res. replace_loop p r out stop = Some res"
proof (induction "length out - stop" arbitrary: out stop rule: less_induct)
  case less
  show ?case
  proof (cases "find_str out p stop")
    case None
    then show ?thesis by (subst replace_loop.simps) simp
  next
    case (Some i)
    note fi = find_str_Some [OF Some]
    let ?out = "take i out @ r @ drop (i + length p) out"
    have "0 < length p" using assms(1) by simp
    moreover have "length ?out \<le> length out" using fi(2) assms(2) by simp
    ultimately have "length ?out - (i + length p) < length out - stop" using fi(1,2) by linarith
    then show ?thesis using less Some by (subst replace_loop.simps) (simp add: Let_def)
  qed
qed

text \<open>When the replacement holds the pattern behind as many characters as the pattern has, the loop finds it again.\<close>

lemma replace_loop_none:
  assumes "replace_loop p r out stop = Some y" and "\<exists>a b. r = a @ p @ b \<and> length p \<le> length a"
    and "stop \<le> i" and "i + length p \<le> length out"
  shows "seg i (length p) out \<noteq> p"
  using assms(2-4)
proof (induction arbitrary: i rule: replace_loop.raw_induct [OF _ assms(1)])
  case (1 loop p r out stop y)
  show ?case
  proof (cases "find_str out p stop")
    case None
    then show ?thesis using 1(4,5) find_str_None by blast
  next
    case (Some k)
    obtain a b where r: "r = a @ p @ b" "length p \<le> length a" using 1(3) by blast
    note fk = find_str_Some [OF Some]
    let ?out = "take k out @ r @ drop (k + length p) out"
    have "loop p r ?out (k + length p) = Some y" using 1(2) Some by (simp add: Let_def)
    moreover have "k + length p \<le> k + length a" "k + length a + length p \<le> length ?out" using r fk(2) by simp_all
    ultimately have "seg (k + length a) (length p) ?out \<noteq> p" using 1(1,3) by blast
    moreover have "seg (k + length a) (length p) ?out = p" using r(1) fk(2) by (simp add: seg_def)
    ultimately show ?thesis by blast
  qed
qed

text \<open>
  With a replacement as long as a non-empty pattern, \<open>replace\<close> substitutes every leftmost
  non-overlapping occurrence; with a shorter one it still ends. When the replacement holds the pattern
  beyond the pattern's length (or the pattern is empty) and the pattern occurs, it never returns.
\<close>

theorem replace_behaviour:
  "(pattern \<noteq> [] \<and> length replacement = length pattern \<longrightarrow>
      replace message pattern replacement = Some (replaced pattern replacement message)) \<and>
   (pattern \<noteq> [] \<and> length replacement \<le> length pattern \<longrightarrow>
      (\<exists>out. replace message pattern replacement = Some out)) \<and>
   (replacement = a @ pattern @ b \<and> length pattern \<le> length a \<and>
      i + length pattern \<le> length message \<and> seg i (length pattern) message = pattern \<longrightarrow>
      replace message pattern replacement = None)"
proof -
  have "pattern \<noteq> [] \<and> length replacement = length pattern \<longrightarrow>
      replace message pattern replacement = Some (replaced pattern replacement message)"
    using replace_loop_same_length [of pattern replacement 0 message] by (simp add: replace_def)
  moreover have "pattern \<noteq> [] \<and> length replacement \<le> length pattern \<longrightarrow>
      (\<exists>out. replace message pattern replacement = Some out)"
    using replace_loop_returns unfolding replace_def by blast
  moreover have "replacement = a @ pattern @ b \<and> length pattern \<le> length a \<and>
      i + length pattern \<le> length message \<and> seg i (length pattern) message = pattern \<longrightarrow>
      replace message pattern replacement = None"
    using replace_loop_none [of pattern replacement message 0 _ i] unfolding replace_def by (metis le0 not_None_eq)
  ultimately show ?thesis by blast
qed

theorem replace_behaviour_witness:
  "replace ''banana'' ''an'' ''AN'' = Some (replaced ''an'' ''AN'' ''banana'') \<and>
   (\<exists>out. replace ''banana'' ''an'' '''' = Some out) \<and> replace ''cat'' ''a'' ''aa'' = None"
  using replace_behaviour [of "''an''" "''AN''" "''banana''" "''''" "''''" 0]
    replace_behaviour [of "''an''" "''''" "''banana''" "''''" "''''" 0]
    replace_behaviour [of "''a''" "''aa''" "''cat''" "''a''" "''''" 1]
  by (simp add: seg_def)



section \<open>Trimming\<close>

lemma find_last_rev:
  "find_last_not_of s sep = Some i \<Longrightarrow> take (Suc i) s = rev (dropWhile (\<lambda>c. c \<in> set sep) (rev s))"
proof -
  assume "find_last_not_of s sep = Some i"
  then obtain k where k: "find_idx (\<lambda>c. c \<notin> set sep) 0 (rev s) = Some k" "i = length s - 1 - k"
    by (auto simp: find_last_not_of_def split: option.splits)
  then have "k = length (takeWhile (\<lambda>c. c \<in> set sep) (rev s))" "k < length s"
    by (auto simp: find_idx_def Let_def split: if_splits)
  then show ?thesis using k(2) by (simp add: dropWhile_eq_drop rev_drop Suc_diff_Suc)
qed

lemma find_first_drop:
  "find_first_not_of s sep 0 = Some i \<Longrightarrow> drop i s = dropWhile (\<lambda>c. c \<in> set sep) s"
  by (auto simp: find_first_not_of_def find_idx_def Let_def dropWhile_eq_drop split: if_splits)

lemma find_first_not_of_iff: "(\<exists>i. find_first_not_of s sep 0 = Some i) \<longleftrightarrow> \<not> set s \<subseteq> set sep"
proof
  assume "\<exists>i. find_first_not_of s sep 0 = Some i"
  then show "\<not> set s \<subseteq> set sep"
    using find_idx_Some(2,3) unfolding find_first_not_of_def by (metis nth_mem subsetD)
next
  assume "\<not> set s \<subseteq> set sep"
  then show "\<exists>i. find_first_not_of s sep 0 = Some i"
    using find_idx_None [of "\<lambda>c. c \<notin> set sep" 0 s] unfolding find_first_not_of_def by fastforce
qed

lemma find_last_not_of_iff: "(\<exists>i. find_last_not_of s sep = Some i) \<longleftrightarrow> \<not> set s \<subseteq> set sep"
proof -
  have "(\<exists>i. find_last_not_of s sep = Some i) \<longleftrightarrow> (\<exists>i. find_first_not_of (rev s) sep 0 = Some i)"
    by (auto simp: find_last_not_of_def find_first_not_of_def split: option.splits)
  then show ?thesis using find_first_not_of_iff [of "rev s" sep] by simp
qed

lemma skip_chars_run:
  "\<forall>c\<in>set (seg i k mem). c = ch \<Longrightarrow> i + k < length mem \<Longrightarrow> mem ! (i + k) \<noteq> ch \<Longrightarrow> skip_chars mem ch i = Some (i + k)"
proof (induction k arbitrary: i)
  case (Suc k)
  have "seg i (Suc k) mem = mem ! i # seg (Suc i) k mem"
    using Suc.prems(2) Cons_nth_drop_Suc [of i mem] by (simp add: seg_def) (metis take_Suc_Cons)
  then show ?case using Suc.IH [of "Suc i"] Suc.prems by (simp add: skip_chars.simps [of mem ch i])
qed (simp add: skip_chars.simps)

lemma move_down_text:
  assumes "CHR 0x00 \<notin> set t" and "start < src" and "drop src mem = t @ CHR 0x00 # z"
  shows "\<exists>w. move_down mem start src = Some (take start mem @ t @ CHR 0x00 # w)"
  using assms
proof (induction t arbitrary: mem start src)
  case Nil
  have lt: "src < length mem" using Nil.prems(3) by (cases "src < length mem") auto
  moreover have "mem ! src = CHR 0x00" using Nil.prems(3) Cons_nth_drop_Suc [OF lt] by simp
  ultimately show ?case
    using Nil.prems(2) by (subst move_down.simps) (simp add: upd_conv_take_nth_drop)
next
  case (Cons c t)
  have lt: "src < length mem" using Cons.prems(3) by (cases "src < length mem") auto
  have at: "mem ! src = c" "drop (Suc src) mem = t @ CHR 0x00 # z"
    using Cons.prems(3) Cons_nth_drop_Suc [OF lt] by simp_all
  let ?mem = "mem[start := c]"
  have "drop (Suc src) ?mem = t @ CHR 0x00 # z" using at(2) Cons.prems(2) by simp
  then obtain w where "move_down ?mem (Suc start) (Suc src) = Some (take (Suc start) ?mem @ t @ CHR 0x00 # w)"
    using Cons.IH [of "Suc start" "Suc src" ?mem] Cons.prems(1,2) by auto
  moreover have "take (Suc start) ?mem = take start mem @ [c]" using lt Cons.prems(2) by (simp add: take_Suc_conv_app_nth)
  moreover have "move_down mem start src = move_down ?mem (Suc start) (Suc src)"
    using at(1) lt Cons.prems(1,2) by (subst move_down.simps) auto
  ultimately show ?case by simp
qed

lemma step_back_run:
  "i < length mem \<Longrightarrow> mem ! i \<noteq> ch \<Longrightarrow> \<forall>c\<in>set (seg (Suc i) k mem). c = ch \<Longrightarrow> Suc i + k \<le> length mem \<Longrightarrow>
   step_back mem ch (Suc i + k) = Some i"
proof (induction k)
  case (Suc k)
  have "mem ! (Suc i + k) \<in> set (seg (Suc i) (Suc k) mem)"
    using Suc.prems(4) by (auto simp: seg_def in_set_conv_nth intro!: exI [of _ k])
  moreover have "set (seg (Suc i) k mem) \<subseteq> set (seg (Suc i) (Suc k) mem)"
    by (simp add: seg_def set_take_subset_set_take)
  ultimately have "mem ! (Suc i + k) = ch" "\<forall>c\<in>set (seg (Suc i) k mem). c = ch" using Suc.prems(3) by blast+
  then show ?case using Suc.IH Suc.prems by simp
qed simp

lemma step_back_none: "\<forall>c\<in>set (take k mem). c = ch \<Longrightarrow> k \<le> length mem \<Longrightarrow> step_back mem ch k = None"
proof (induction k)
  case (Suc k)
  then show ?case by (simp add: take_Suc_conv_app_nth)
qed simp

lemma c_strlen_text: "CHR 0x00 \<notin> set t \<Longrightarrow> c_strlen (t @ CHR 0x00 # z) = Some (length t)"
proof -
  assume "CHR 0x00 \<notin> set t"
  then have "takeWhile (\<lambda>c. c \<noteq> CHR 0x00) (t @ CHR 0x00 # z) = t" by (subst takeWhile_append2) auto
  then show ?thesis by (simp add: c_strlen_def find_idx_def)
qed

lemma ltrim_c_text:
  assumes "CHR 0x00 \<notin> set t" and "ch \<noteq> CHR 0x00"
  shows "\<exists>w. ltrim_c (Some (t @ CHR 0x00 # z)) ch = Some (Some (dropWhile (\<lambda>c. c = ch) t @ CHR 0x00 # w))"
proof -
  let ?mem = "t @ CHR 0x00 # z" and ?k = "length (takeWhile (\<lambda>c. c = ch) t)"
  have k: "?k \<le> length t" by (rule length_takeWhile_le)
  have ne: "?mem ! (0 + ?k) \<noteq> ch"
  proof (cases "?k < length t")
    case True
    then show ?thesis using nth_length_takeWhile [OF True] by (simp add: nth_append)
  next
    case False
    then show ?thesis using k assms(2) by (simp add: nth_append)
  qed
  have "take ?k t = takeWhile (\<lambda>c. c = ch) t" by (metis takeWhile_eq_take)
  then have "seg 0 ?k ?mem = takeWhile (\<lambda>c. c = ch) t" using k by simp
  then have run: "\<forall>c\<in>set (seg 0 ?k ?mem). c = ch" by (auto dest: set_takeWhileD)
  have "0 + ?k < length ?mem" using k by simp
  then have skip: "skip_chars ?mem ch 0 = Some ?k"
    using skip_chars_run [OF run _ ne] by (simp only: add_0)
  show ?thesis
  proof (cases "?k = 0")
    case True
    then show ?thesis using skip by (auto simp: ltrim_c_def dropWhile_eq_drop)
  next
    case False
    have "drop ?k ?mem = dropWhile (\<lambda>c. c = ch) t @ CHR 0x00 # z" using k by (simp add: dropWhile_eq_drop)
    moreover have "CHR 0x00 \<notin> set (dropWhile (\<lambda>c. c = ch) t)" using assms(1) by (auto dest: set_dropWhileD)
    ultimately obtain w where "move_down ?mem 0 ?k = Some (dropWhile (\<lambda>c. c = ch) t @ CHR 0x00 # w)"
      using move_down_text [of "dropWhile (\<lambda>c. c = ch) t" 0 ?k ?mem z] False by auto
    then show ?thesis using skip False by (simp add: ltrim_c_def)
  qed
qed

lemma rtrim_c_text:
  assumes "CHR 0x00 \<notin> set t"
  shows "\<exists>c\<in>set t. c \<noteq> ch \<Longrightarrow>
      \<exists>w. rtrim_c (Some (t @ CHR 0x00 # z)) ch = Some (Some (rev (dropWhile (\<lambda>c. c = ch) (rev t)) @ CHR 0x00 # w))"
    and "\<forall>c\<in>set t. c = ch \<Longrightarrow> rtrim_c (Some (t @ CHR 0x00 # z)) ch = None"
proof -
  let ?mem = "t @ CHR 0x00 # z"
  note len = c_strlen_text [OF assms, of z]
  show "rtrim_c (Some ?mem) ch = None" if "\<forall>c\<in>set t. c = ch"
    using that len step_back_none [of "length t" ?mem ch] by (simp add: rtrim_c_def)
  assume "\<exists>c\<in>set t. c \<noteq> ch"
  then obtain u c v where t: "t = u @ c # v" "c \<noteq> ch" "\<forall>d\<in>set v. d = ch"
    using split_list_last_prop [of t "\<lambda>c. c \<noteq> ch"] by blast
  have "step_back ?mem ch (Suc (length u) + length v) = Some (length u)"
    by (rule step_back_run) (use t in \<open>simp_all add: nth_append seg_def\<close>)
  then have "rtrim_c (Some ?mem) ch = Some (Some (?mem[Suc (length u) := CHR 0x00]))"
    using len t(1) by (simp add: rtrim_c_def)
  moreover have "\<exists>w. ?mem[Suc (length u) := CHR 0x00] = (u @ [c]) @ CHR 0x00 # w"
    using t(1) by (cases v) (auto simp: list_update_append)
  moreover have "rev (dropWhile (\<lambda>c. c = ch) (rev t)) = u @ [c]"
    using t by (simp add: dropWhile_append2 dropWhile_append)
  ultimately show "\<exists>w. rtrim_c (Some ?mem) ch = Some (Some (rev (dropWhile (\<lambda>c. c = ch) (rev t)) @ CHR 0x00 # w))"
    by auto
qed

text \<open>
  On a text with a character to keep, \<open>ltrim\<close> drops the leading characters of the given set,
  \<open>rtrim\<close> the trailing ones and \<open>trim\<close> both; a text made only of such characters is returned
  unchanged. On a C string the in-place \<open>ltrim\<close> leaves the text without its leading characters; the
  in-place \<open>rtrim\<close> does its work if a character is to be kept and otherwise reads before the array.
\<close>

theorem trims_correct:
  assumes "CHR 0x00 \<notin> set t" and "ch \<noteq> CHR 0x00"
  shows "(\<not> set msg \<subseteq> set tr \<longrightarrow>
      ltrim msg tr = dropWhile (\<lambda>c. c \<in> set tr) msg \<and>
      rtrim msg tr = rev (dropWhile (\<lambda>c. c \<in> set tr) (rev msg)) \<and>
      trim msg tr = dropWhile (\<lambda>c. c \<in> set tr) (rev (dropWhile (\<lambda>c. c \<in> set tr) (rev msg)))) \<and>
    (set msg \<subseteq> set tr \<longrightarrow> ltrim msg tr = msg \<and> rtrim msg tr = msg \<and> trim msg tr = msg) \<and>
    (\<exists>w. ltrim_c (Some (t @ CHR 0x00 # z)) ch = Some (Some (dropWhile (\<lambda>c. c = ch) t @ CHR 0x00 # w))) \<and>
    ((\<exists>c\<in>set t. c \<noteq> ch) \<longrightarrow> (\<exists>w. rtrim_c (Some (t @ CHR 0x00 # z)) ch =
        Some (Some (rev (dropWhile (\<lambda>c. c = ch) (rev t)) @ CHR 0x00 # w)))) \<and>
    ((\<forall>c\<in>set t. c = ch) \<longrightarrow> rtrim_c (Some (t @ CHR 0x00 # z)) ch = None)"
proof -
  have 1: "ltrim msg tr = dropWhile (\<lambda>c. c \<in> set tr) msg \<and>
      rtrim msg tr = rev (dropWhile (\<lambda>c. c \<in> set tr) (rev msg)) \<and>
      trim msg tr = dropWhile (\<lambda>c. c \<in> set tr) (rev (dropWhile (\<lambda>c. c \<in> set tr) (rev msg)))"
    if out: "\<not> set msg \<subseteq> set tr"
  proof -
    obtain i j where i: "find_first_not_of msg tr 0 = Some i" and j: "find_last_not_of msg tr = Some j"
      using out find_first_not_of_iff find_last_not_of_iff by blast
    let ?m = "rev (dropWhile (\<lambda>c. c \<in> set tr) (rev msg))"
    have cut: "take (Suc j) msg = ?m" by (rule find_last_rev [OF j])
    have "\<not> set ?m \<subseteq> set tr"
      using out by (metis dropWhile_eq_Nil_conv set_rev subsetI hd_dropWhile hd_in_set subsetD)
    then obtain k where k: "find_first_not_of ?m tr 0 = Some k" using find_first_not_of_iff by blast
    have "seg i (length msg - i) msg = drop i msg" by (simp add: seg_def)
    then show ?thesis
      using i j cut k find_first_drop [OF i] find_first_drop [OF k]
      by (simp add: ltrim_def rtrim_def trim_def)
  qed
  have 2: "ltrim msg tr = msg \<and> rtrim msg tr = msg \<and> trim msg tr = msg" if "set msg \<subseteq> set tr"
  proof -
    have "find_first_not_of msg tr 0 = None" "find_last_not_of msg tr = None"
      using that find_first_not_of_iff [of msg tr] find_last_not_of_iff [of msg tr] by (metis not_None_eq)+
    then show ?thesis by (simp add: ltrim_def rtrim_def trim_def)
  qed
  show ?thesis
    using 1 2 ltrim_c_text [OF assms] rtrim_c_text [OF assms(1)] by blast
qed

theorem trims_correct_witness:
  "trim ''  a b '' '' '' = ''a b'' \<and> rtrim '' '' '' '' = '' '' \<and> rtrim_c (Some [CHR 0x00]) CHR '' '' = None"
  using trims_correct [of "''''" "CHR '' ''" "''  a b ''" "'' ''" "[]"]
    trims_correct [of "''''" "CHR '' ''" "'' ''" "'' ''" "[]"] by simp

end
