(* ===== verification/Log_Writer.thy ===== *)
theory Log_Writer
  imports Log_Record Tcode_String
begin

text \<open>
  The logger of \<open>src/log\<close> and its writers: \<open>logger.cpp\<close> with the hexadecimal dump, \<open>console_writer.cpp\<close>
  and \<open>file_writer.cpp\<close> with its daily files. A writer is used through its formatter, any
  interpretation of \<open>log_formatter\<close>. The clock, the directory listing and the results of \<open>fopen\<close> and
  \<open>remove\<close> are arguments.
\<close>

section \<open>The logger\<close>

record 'w logger =
  lg_type :: log_type
  lg_writers :: "'w list"

definition logger_add_writer :: "'w \<Rightarrow> 'w logger \<Rightarrow> 'w logger" where
  "logger_add_writer ptr lg = lg\<lparr>lg_writers := lg_writers lg @ [ptr]\<rparr>"

text \<open>A debug build starts with the console writer.\<close>

definition logger_ctor :: "'w option \<Rightarrow> 'w logger" where
  "logger_ctor debug_console =
     (let lg = \<lparr>lg_type = lt_all, lg_writers = []\<rparr>
      in case debug_console of None \<Rightarrow> lg | Some w \<Rightarrow> logger_add_writer w lg)"

definition logger_enabled :: "log_type \<Rightarrow> 'w logger \<Rightarrow> bool" where
  "logger_enabled t lg \<longleftrightarrow> lg_type lg AND t = t"

definition logger_enable :: "log_type \<Rightarrow> 'w logger \<Rightarrow> 'w logger" where
  "logger_enable t lg = lg\<lparr>lg_type := lg_type lg OR t\<rparr>"

text \<open>The calls of \<open>writer::write\<close> that a record causes, in order.\<close>

definition logger_write_record :: "log_record \<Rightarrow> 'w logger \<Rightarrow> ('w \<times> log_record) list" where
  "logger_write_record r lg = map (\<lambda>w. (w, r)) (lg_writers lg)"

text \<open>\<open>vsnprintf\<close> into the rest of an array from \<open>index\<close> on; \<open>text\<close> is the formatted message.\<close>

definition vsnprintf_at :: "nat \<Rightarrow> byte list \<Rightarrow> byte list \<Rightarrow> byte list" where
  "vsnprintf_at index text arr =
     (if index < length arr then put_at index (take (length arr - index - 1) text @ [0]) arr else arr)"

definition logger_write ::
    "timestamp \<Rightarrow> nat \<Rightarrow> byte list \<Rightarrow> log_type \<Rightarrow> byte list \<Rightarrow> byte list \<Rightarrow> byte list \<Rightarrow> int \<Rightarrow> byte list \<Rightarrow>
     'w logger \<Rightarrow> ('w \<times> log_record) list" where
  "logger_write now self uninit t tag file function line msg lg =
     (if \<not> logger_enabled t lg then []
      else let r = record_ctor now self uninit t tag file function line
           in logger_write_record (r\<lparr>rec_message := vsnprintf_at 0 msg (rec_message r)\<rparr>) lg)"

section \<open>The hexadecimal dump\<close>

definition hex_byte :: "byte \<Rightarrow> byte list" where
  "hex_byte ch = ascii [''0123456789ABCDEF'' ! (unat ch div 16), ''0123456789ABCDEF'' ! (unat ch mod 16)]"

text \<open>The \<open>switch\<close> falls through from 8 and from 4 and 12.\<close>

definition separator :: "nat \<Rightarrow> byte list" where
  "separator i =
     (let k = i mod 16 + 1
      in if k = 16 then [10]
         else if k = 8 then [32, 32, 32]
         else if k = 4 \<or> k = 12 then [32, 32]
         else [32])"

text \<open>Stores at \<open>message[index++]\<close>, with the bound of the array.\<close>

fun msg_puts :: "byte list \<Rightarrow> nat \<times> byte list \<Rightarrow> (nat \<times> byte list) option" where
  "msg_puts [] (index, msg) = Some (index, msg)"
| "msg_puts (c # cs) (index, msg) =
     (if index < length msg then msg_puts cs (index + 1, msg[index := c]) else None)"

function dump_loop :: "byte list \<Rightarrow> int \<Rightarrow> nat \<Rightarrow> nat \<times> byte list \<Rightarrow> (nat \<times> byte list) option" where
  "dump_loop buffer sz i st =
     (if int i < sz
      then if i < length buffer
           then Option.bind (msg_puts (hex_byte (buffer ! i) @ separator i) st) (\<lambda>(index, msg).
                if 2040 < index then Some (index, msg) else dump_loop buffer sz (i + 1) (index, msg))
           else None
      else Some st)"
  by pat_completeness auto
termination by (relation "measure (\<lambda>(buffer, sz, i, st). nat (sz - int i))") auto

declare dump_loop.simps [simp del]

definition logger_write_dump ::
    "timestamp \<Rightarrow> nat \<Rightarrow> byte list \<Rightarrow> log_type \<Rightarrow> byte list \<Rightarrow> byte list \<Rightarrow> byte list \<Rightarrow> int \<Rightarrow>
     byte list \<Rightarrow> int \<Rightarrow> byte list \<Rightarrow> 'w logger \<Rightarrow> ('w \<times> log_record) list option" where
  "logger_write_dump now self uninit t tag file function line buffer sz msg lg =
     (if \<not> logger_enabled t lg then Some []
      else let r = record_ctor now self uninit t tag file function line
           in Option.bind (msg_puts [10] (0, rec_message r)) (\<lambda>st.
              Option.bind (dump_loop buffer sz 0 st) (\<lambda>st.
              Option.bind (msg_puts [10] st) (\<lambda>(index, message).
              if 2048 < index then None
              else Some (logger_write_record (r\<lparr>rec_message := vsnprintf_at index msg message\<rparr>) lg)))))"

section \<open>The console writer\<close>

definition color_of :: "log_type \<Rightarrow> nat option" where
  "color_of t =
     (if t = lt_trace then Some 33 else if t = lt_debug then Some 36 else if t = lt_info then Some 32
      else if t = lt_warn then Some 34 else if t = lt_error then Some 31
      else if t = lt_fatal then Some 35 else None)"

definition color_code :: "nat \<Rightarrow> byte list" where
  "color_code c = ascii ([CHR 0x1B] @ ''['' @ digits c @ ''m'')"

text \<open>A character pointer printed as a C string: up to a terminator, which must be inside the block.\<close>

definition print_c :: "manager \<Rightarrow> byte_buffer \<Rightarrow> byte list option" where
  "print_c m b =
     Option.bind (rd_ptr b) (\<lambda>(p, off).
     Option.bind (bytes_of m p) (\<lambda>bs.
       if 0 \<in> set (drop off bs) then Some (c_string (drop off bs)) else None))"

type_synonym format = "log_record \<Rightarrow> manager \<Rightarrow> byte_buffer \<Rightarrow> (manager \<times> byte_buffer) option"

text \<open>The bytes that go to \<open>std::cout\<close>, the memory and the writer's buffer.\<close>

definition console_write ::
    "format \<Rightarrow> log_record \<Rightarrow> manager \<Rightarrow> byte_buffer \<Rightarrow> (byte list \<times> manager \<times> byte_buffer) option" where
  "console_write fmt r m b =
     Option.bind (fmt r m (bb_clear b)) (\<lambda>(m, b).
     map_option (\<lambda>text.
       ((case color_of (rec_type r) of Some c \<Rightarrow> color_code c | None \<Rightarrow> []) @ text @ color_code 39, m, bb_clear b))
       (print_c m b))"

section \<open>The file writer\<close>

datatype node = File "byte list" | Dir

type_synonym log_dir = "string \<rightharpoonup> node"

record file_writer =
  fw_file :: "string option"
  fw_current_day :: nat
  fw_line_count :: nat
  fw_day_file_count :: nat
  fw_buffer :: byte_buffer

definition file_writer_ctor :: file_writer where
  "file_writer_ctor =
     \<lparr>fw_file = None, fw_current_day = 0, fw_line_count = 0, fw_day_file_count = 0, fw_buffer = bb_ctor\<rparr>"

text \<open>
  What the platform answers during one call of \<open>write\<close>: the clock where it is read, the names in the
  directory (\<^const>\<open>None\<close> if it cannot be read), the results of \<open>remove\<close> and \<open>fopen\<close>, and the bytes of the
  uninitialised \<open>systemtime\<close> objects.
\<close>

record fw_env =
  env_now :: timestamp
  env_delete_now :: timestamp
  env_create_now :: timestamp
  env_listing :: "string list option"
  env_remove :: "string \<Rightarrow> bool"
  env_fopen :: bool
  env_uninit :: systemtime

text \<open>\<open>std::string\<close> comparison: characters as unsigned numbers.\<close>

fun str_less :: "string \<Rightarrow> string \<Rightarrow> bool" where
  "str_less [] [] = False"
| "str_less [] (d # ds) = True"
| "str_less (c # cs) [] = False"
| "str_less (c # cs) (d # ds) =
     (if of_char c < (of_char d :: nat) then True else if of_char d < (of_char c :: nat) then False
      else str_less cs ds)"

definition fmt_0i :: "nat \<Rightarrow> int \<Rightarrow> string" where
  "fmt_0i w v = (if v < 0 then ''-'' @ fmt_0d (w - 1) (nat (- v)) else fmt_0d w (nat v))"

definition date_name :: "systemtime \<Rightarrow> string" where
  "date_name st = fmt_0d 4 (wYear st) @ fmt_0d 2 (wMonth st) @ fmt_0d 2 (wDay st)"

definition log_file_name :: "systemtime \<Rightarrow> nat \<Rightarrow> string" where
  "log_file_name st day_file_count =
     date_name st @ ''_'' @ fmt_0d 2 (wHour st) @ fmt_0d 2 (wMinute st) @ fmt_0d 2 (wSecond st) @ ''_'' @
     fmt_0i 4 (to_i32 (int day_file_count)) @ ''.log''"

definition delete_entry :: "fw_env \<Rightarrow> string \<Rightarrow> string \<Rightarrow> log_dir \<Rightarrow> log_dir" where
  "delete_entry e delete_before name d =
     (case d name of
        Some (File xs) \<Rightarrow> if str_less name delete_before \<and> env_remove e name then d(name := None) else d
      | _ \<Rightarrow> d)"

text \<open>The date 30 days ago is computed and not used.\<close>

definition delete_old_logs :: "fw_env \<Rightarrow> log_dir \<Rightarrow> log_dir option" where
  "delete_old_logs e d =
     map_option (\<lambda>st. case env_listing e of
          None \<Rightarrow> d
        | Some names \<Rightarrow> fold (delete_entry e (date_name st)) names d)
       (systemtime_of_stamp (env_delete_now e) (env_uninit e))"

definition create_log_file :: "fw_env \<Rightarrow> log_dir \<Rightarrow> file_writer \<Rightarrow> (bool \<times> log_dir \<times> file_writer) option" where
  "create_log_file e d w =
     map_option (\<lambda>st.
       (let path = log_file_name st (fw_day_file_count w)
        in if env_fopen e then (True, d(path \<mapsto> File []), w\<lparr>fw_file := Some path\<rparr>)
           else (False, d, w\<lparr>fw_file := None\<rparr>)))
       (systemtime_of_stamp (env_create_now e) (env_uninit e))"

definition file_append :: "string option \<Rightarrow> byte list \<Rightarrow> log_dir \<Rightarrow> log_dir" where
  "file_append f xs d =
     (case f of
        None \<Rightarrow> d
      | Some n \<Rightarrow> (case d n of Some (File ys) \<Rightarrow> d(n \<mapsto> File (ys @ xs)) | _ \<Rightarrow> d))"

definition write_line ::
    "format \<Rightarrow> log_record \<Rightarrow> manager \<Rightarrow> log_dir \<Rightarrow> file_writer \<Rightarrow> (manager \<times> log_dir \<times> file_writer) option" where
  "write_line fmt r m d w =
     Option.bind (fmt r m (fw_buffer w)) (\<lambda>(m, b).
     map_option (\<lambda>xs. (m, file_append (fw_file w) xs d,
         w\<lparr>fw_line_count := (fw_line_count w + 1) mod 2 ^ 32, fw_buffer := bb_clear b\<rparr>))
       (bb_peak (bb_length b) m b))"

definition file_write ::
    "format \<Rightarrow> fw_env \<Rightarrow> log_record \<Rightarrow> manager \<Rightarrow> log_dir \<Rightarrow> file_writer \<Rightarrow>
     (manager \<times> log_dir \<times> file_writer) option" where
  "file_write fmt e r m d w =
     Option.bind (systemtime_of_stamp (env_now e) (env_uninit e)) (\<lambda>st.
       if fw_file w = None \<or> fw_current_day w \<noteq> wDay st \<or> 65535 < fw_line_count w
       then Option.bind
              (if fw_current_day w \<noteq> wDay st
               then map_option (\<lambda>d. (d, w\<lparr>fw_day_file_count := 0\<rparr>)) (delete_old_logs e d)
               else Some (d, w)) (\<lambda>(d, w).
            Option.bind (create_log_file e d w) (\<lambda>(ok, d, w).
              if \<not> ok then Some (m, d, w)
              else write_line fmt r m d
                     (w\<lparr>fw_day_file_count := (fw_day_file_count w + 1) mod 2 ^ 32,
                        fw_line_count := 0, fw_current_day := wDay st\<rparr>)))
       else write_line fmt r m d w)"

text \<open>A sequence of calls.\<close>

fun file_writes ::
    "format \<Rightarrow> (fw_env \<times> log_record) list \<Rightarrow> manager \<Rightarrow> log_dir \<Rightarrow> file_writer \<Rightarrow>
     (manager \<times> log_dir \<times> file_writer) option" where
  "file_writes fmt [] m d w = Some (m, d, w)"
| "file_writes fmt ((e, r) # es) m d w =
     Option.bind (file_write fmt e r m d w) (\<lambda>(m, d, w). file_writes fmt es m d w)"

section \<open>The dump stays inside the message\<close>

lemma msg_puts_put_at:
  "index + length cs \<le> length msg \<Longrightarrow> msg_puts cs (index, msg) = Some (index + length cs, put_at index cs msg)"
proof (induction cs arbitrary: index msg)
  case (Cons c cs)
  have "put_at (Suc index) cs (msg[index := c]) = put_at index (c # cs) msg"
    using Cons.prems by (simp add: put_at_def take_Suc_conv_app_nth)
  with Cons show ?case by simp
qed simp

text \<open>The cell of a byte and the cells of a run of bytes.\<close>

definition cell :: "byte list \<Rightarrow> nat \<Rightarrow> byte list" where
  "cell buffer i = hex_byte (buffer ! i) @ separator i"

definition cells :: "byte list \<Rightarrow> nat \<Rightarrow> byte list" where
  "cells buffer k = concat (map (cell buffer) [0..<k])"

definition cell_width :: "nat \<Rightarrow> nat" where
  "cell_width i = 2 + length (separator i)"

definition cells_width :: "nat \<Rightarrow> nat" where
  "cells_width k = sum_list (map cell_width [0..<k])"

lemma length_cell [simp]: "length (cell buffer i) = cell_width i"
  by (simp add: cell_def cell_width_def hex_byte_def)

lemma length_cells [simp]: "length (cells buffer k) = cells_width k"
  by (simp add: cells_def cells_width_def length_concat comp_def)

lemma cells_Suc: "cells buffer (Suc k) = cells buffer k @ cell buffer k"
  by (simp add: cells_def)

lemma cells_width_Suc: "cells_width (Suc k) = cells_width k + cell_width k"
  by (simp add: cells_width_def)

lemma cell_width_le: "cell_width i \<le> 5"
  by (simp add: cell_width_def separator_def Let_def)

lemma cell_width_period: "cell_width (16 + i) = cell_width i"
  by (simp add: cell_width_def separator_def)

lemma cells_width_period: "cells_width (16 + k) = 52 + cells_width k"
proof (induction k)
  case 0
  show ?case by (simp add: cells_width_def cell_width_def separator_def upt_rec)
next
  case (Suc k)
  then show ?case by (simp only: add_Suc_right cells_width_Suc cell_width_period)
qed

lemma cells_width_rows: "cells_width (16 * j + k) = 52 * j + cells_width k"
proof (induction j)
  case (Suc j)
  then show ?case using cells_width_period [of "16 * j + k"] by (simp add: algebra_simps)
qed simp

lemma cells_width_mono: "j \<le> k \<Longrightarrow> cells_width j \<le> cells_width k"
  by (induction k) (auto simp: le_Suc_eq cells_width_Suc)

text \<open>628 bytes are shown: the line breaks off when the message is full to position 2040.\<close>

lemma dump_limit: "1 + cells_width k \<le> 2040 \<longleftrightarrow> k < 628"
proof -
  have "cells_width 3 = 9" "cells_width 4 = 13"
    by (simp_all add: cells_width_def cell_width_def separator_def upt_rec)
  then have "cells_width 627 = 2037" "cells_width 628 = 2041"
    using cells_width_rows [of 39 3] cells_width_rows [of 39 4] by simp_all
  then show ?thesis using cells_width_mono [of k 627] cells_width_mono [of 628 k] by linarith
qed

lemma dump_loop_cells:
  assumes buf: "sz \<le> int (length buffer)" and msg: "length msg = 2048"
    and i: "i \<le> nat sz" "i < 628"
  shows "dump_loop buffer sz i (1 + cells_width i, put_at 0 (10 # cells buffer i) msg) =
     (let k = min (nat sz) 628 in Some (1 + cells_width k, put_at 0 (10 # cells buffer k) msg))"
  using i
proof (induction "nat sz - i" arbitrary: i)
  case 0
  then have "\<not> int i < sz" "min (nat sz) 628 = i" by auto
  then show ?case by (simp add: dump_loop.simps)
next
  case (Suc n)
  then have i: "int i < sz" "i < length buffer" "Suc i \<le> nat sz" using buf by auto
  let ?msg = "put_at 0 (10 # cells buffer i) msg"
  have w: "1 + cells_width i \<le> 2040" using Suc.prems(2) dump_limit by simp
  have len: "length ?msg = 2048" using w msg by (simp add: length_put_at)
  have fits: "1 + cells_width i + length (cell buffer i) \<le> length ?msg"
    using w len cell_width_le [of i] by simp
  have "put_at (1 + cells_width i) (cell buffer i) ?msg = put_at 0 (10 # cells buffer (Suc i)) msg"
    using put_at_put_at [of 0 "10 # cells buffer i" msg "cell buffer i"] fits [unfolded len] msg
    by (simp add: cells_Suc)
  then have puts: "msg_puts (hex_byte (buffer ! i) @ separator i) (1 + cells_width i, ?msg) =
      Some (1 + cells_width (Suc i), put_at 0 (10 # cells buffer (Suc i)) msg)"
    using msg_puts_put_at [OF fits] by (simp add: cell_def [symmetric] cells_width_Suc)
  show ?case
  proof (cases "Suc i < 628")
    case True
    then have "\<not> 2040 < 1 + cells_width (Suc i)" using dump_limit [of "Suc i"] by simp
    with Suc.hyps True i puts show ?thesis by (simp add: dump_loop.simps [of _ _ i])
  next
    case False
    then have last: "2040 < 1 + cells_width (Suc i)" "Suc i = 628"
      using Suc.prems(2) dump_limit [of "Suc i"] by auto
    have k: "min (nat sz) 628 = Suc i" using last(2) i(3) by simp
    show ?thesis unfolding k using i puts last(1) by (simp add: dump_loop.simps [of _ _ i])
  qed
qed

lemma dump_loop_result:
  assumes "sz \<le> int (length buffer)" and "length msg = 2048"
  shows "dump_loop buffer sz 0 (1, put_at 0 [10] msg) =
     (let k = min (nat sz) 628 in Some (1 + cells_width k, put_at 0 (10 # cells buffer k) msg))"
  using dump_loop_cells [OF assms, of 0] by (simp add: cells_width_def cells_def)

lemma dump_ends_inside: "1 + cells_width (min n 628) \<le> 2045"
proof -
  have "cells_width (min n 628) \<le> cells_width 628" by (rule cells_width_mono) simp
  also have "\<dots> \<le> 2044"
    using dump_limit [of 627] cells_width_Suc [of 627] cell_width_le [of 627] by simp
  finally show ?thesis by simp
qed

lemma c_string_put_at:
  assumes "0 \<notin> set xs" and "length xs < length arr"
  shows "c_string (put_at 0 (xs @ [0]) arr) = xs"
proof -
  have "takeWhile (\<lambda>c. c \<noteq> 0) (xs @ 0 # ys) = xs" for ys
    using assms(1) by (induction xs) auto
  then show ?thesis by (simp add: c_string_def put_at_def)
qed

lemma cells_no_zero: "0 \<notin> set (cells buffer k)"
proof -
  have "0 \<notin> set (hex_byte b)" for b
  proof -
    have "unat b < 256" using unsigned_less [of b, where ?'a = nat] by simp
    then have "unat b div 16 < 16" "unat b mod 16 < 16" by simp_all
    moreover have "CHR 0x00 \<noteq> ''0123456789ABCDEF'' ! n" if "n < 16" for n
      using that by (auto simp: less_Suc_eq numeral_eq_Suc)
    ultimately have "CHR 0x00 \<notin> set [''0123456789ABCDEF'' ! (unat b div 16), ''0123456789ABCDEF'' ! (unat b mod 16)]"
      by (simp only: list.set insert_iff empty_iff) blast
    then show ?thesis unfolding hex_byte_def by (simp only: zero_in_ascii) simp
  qed
  moreover have "0 \<notin> set (separator i)" for i by (simp add: separator_def Let_def)
  ultimately show ?thesis by (auto simp: cells_def cell_def)
qed

section \<open>The logger delivers\<close>

text \<open>The loggers that calls of \<open>enable\<close> and \<open>add_writer\<close> make.\<close>

inductive configured :: "'w option \<Rightarrow> 'w logger \<Rightarrow> bool" for console where
  ctor: "configured console (logger_ctor console)"
| enable: "configured console lg \<Longrightarrow> configured console (logger_enable t lg)"
| add: "configured console lg \<Longrightarrow> configured console (logger_add_writer w lg)"

lemma lt_values: "lt_trace = 1" "lt_debug = 2" "lt_info = 4" "lt_warn = 8" "lt_error = 16" "lt_fatal = 32"
    "lt_all = 63" "lt_off = 0"
  by (simp_all add: lt_trace_def lt_debug_def lt_info_def lt_warn_def lt_error_def lt_fatal_def lt_all_def
      lt_off_def tmp_bit_def)

lemma and_or_absorb: "(a OR b) AND t = t" if "a AND t = t" for a b t :: "32 word"
proof (rule bit_word_eqI)
  fix n
  have "bit (a AND t) n = bit t n" using that by simp
  then show "bit ((a OR b) AND t) n = bit t n" by (auto simp: bit_and_iff bit_or_iff)
qed

lemma configured_enables:
  assumes "configured console lg" and "lt_all AND t = t"
  shows "logger_enabled t lg"
  using assms
proof induction
  case ctor
  then show ?case
    by (cases console) (simp_all add: logger_enabled_def logger_ctor_def logger_add_writer_def Let_def)
qed (auto simp: logger_enabled_def logger_enable_def logger_add_writer_def and_or_absorb)

text \<open>
  The dump never leaves the 2048 bytes of the message: whatever the number of bytes and the length of
  the message text, a logger made by any calls of \<open>enable\<close> and \<open>add_writer\<close> hands every writer, in the order
  they were added, one record whose message is a line break, the cells of the first 628 bytes at most, a
  line break and as much of the text as fits, terminated.
\<close>

theorem dump_stays_inside:
  assumes "configured console lg" and "lt_all AND t = t" and "length uninit = 2048"
    and "sz \<le> int (length buffer)" and "0 \<notin> set msg"
  shows "\<exists>r. logger_write_dump now self uninit t tag file function line buffer sz msg lg =
             Some (map (\<lambda>w. (w, r)) (lg_writers lg)) \<and> length (rec_message r) = 2048 \<and>
           c_string (rec_message r) = 10 # cells buffer (min (nat sz) 628) @
             10 # take (2047 - (2 + cells_width (min (nat sz) 628))) msg"
proof -
  define k where "k = min (nat sz) 628"
  define r where "r = record_ctor now self uninit t tag file function line"
  let ?i = "2 + cells_width k" and ?xs = "10 # cells buffer k @ [10]"
  let ?ys = "?xs @ take (2048 - ?i - 1) msg"
  have k: "1 + cells_width k \<le> 2045" unfolding k_def by (rule dump_ends_inside)
  have rm: "rec_message r = uninit" by (simp add: r_def record_ctor_def)
  have 1: "msg_puts [10] (0, uninit) = Some (1, put_at 0 [10] uninit)"
    using msg_puts_put_at [of 0 "[10]" uninit] assms(3) by simp
  have 2: "dump_loop buffer sz 0 (1, put_at 0 [10] uninit) = Some (1 + cells_width k, put_at 0 (10 # cells buffer k) uninit)"
    using dump_loop_result [OF assms(4,3)] by (simp add: k_def Let_def)
  have 3: "msg_puts [10] (1 + cells_width k, put_at 0 (10 # cells buffer k) uninit) = Some (?i, put_at 0 ?xs uninit)"
    using msg_puts_put_at [of "1 + cells_width k" "[10]" "put_at 0 (10 # cells buffer k) uninit"] k assms(3)
      put_at_put_at [of 0 "10 # cells buffer k" uninit "[10]"]
    by (simp add: length_put_at)
  have 4: "vsnprintf_at ?i msg (put_at 0 ?xs uninit) = put_at 0 (?ys @ [0]) uninit"
    using put_at_put_at [of 0 ?xs uninit "take (2048 - ?i - 1) msg @ [0]"] k assms(3)
    by (simp add: vsnprintf_at_def length_put_at)
  let ?r = "r\<lparr>rec_message := put_at 0 (?ys @ [0]) uninit\<rparr>"
  have "logger_write_dump now self uninit t tag file function line buffer sz msg lg =
      Some (map (\<lambda>w. (w, ?r)) (lg_writers lg))"
    unfolding logger_write_dump_def Let_def r_def [symmetric] rm 1 Option.bind.simps 2 3 prod.case 4
    using configured_enables [OF assms(1,2)] k by (simp add: logger_write_record_def)
  moreover have "length (rec_message ?r) = 2048"
    using k assms(3) by (simp add: length_put_at)
  moreover have "0 \<notin> set ?ys" using assms(5) cells_no_zero by (auto dest: in_set_takeD)
  then have "c_string (rec_message ?r) = ?ys"
    using c_string_put_at [of ?ys uninit] k assms(3) by simp
  ultimately show ?thesis unfolding k_def [symmetric] by (intro exI [of _ ?r]) simp
qed

theorem dump_stays_inside_witness:
  "\<exists>r. logger_write_dump (mk_stamp 0) 1 (replicate 2048 7) lt_info [65] [66] [67] 3 [255] 1 [72, 105]
         (logger_add_writer ''w'' (logger_ctor None)) = Some [(''w'', r)] \<and>
       length (rec_message r) = 2048"
proof -
  have "configured None (logger_add_writer ''w'' (logger_ctor None))" by (intro configured.intros)
  moreover have "lt_all AND lt_info = lt_info" by (simp add: lt_values)
  ultimately show ?thesis
    using dump_stays_inside [of None "logger_add_writer ''w'' (logger_ctor None)" lt_info "replicate 2048 7" 1 "[255]"
        "[72, 105]" "mk_stamp 0" 1 "[65]" "[66]" "[67]" 3]
    by (auto simp: logger_add_writer_def logger_ctor_def)
qed

text \<open>
  \<open>enable\<close> only adds types and the logger starts with all of them, so no call can switch a type off: every
  message of every writer is delivered.
\<close>

theorem logger_delivers:
  assumes "configured console lg" and "lt_all AND t = t" and "length uninit = 2048" and "0 \<notin> set msg"
  shows "\<exists>r. logger_write now self uninit t tag file function line msg lg = map (\<lambda>w. (w, r)) (lg_writers lg) \<and>
           rec_type r = t \<and> rec_ts r = now \<and> c_string (rec_message r) = take 2047 msg"
proof -
  let ?r = "record_ctor now self uninit t tag file function line"
  let ?r' = "?r\<lparr>rec_message := vsnprintf_at 0 msg (rec_message ?r)\<rparr>"
  have "c_string (put_at 0 (take 2047 msg @ [0]) uninit) = take 2047 msg"
    using assms(3,4) by (intro c_string_put_at) (auto dest: in_set_takeD)
  then have "c_string (rec_message ?r') = take 2047 msg"
    using assms(3) by (simp add: record_ctor_def vsnprintf_at_def)
  then show ?thesis
    using configured_enables [OF assms(1,2)]
    by (intro exI [of _ ?r']) (simp add: logger_write_def logger_write_record_def record_ctor_def)
qed

section \<open>The writers over a formatter\<close>

lemma cleared_ok:
  assumes "manager_inv m" and "bb_view m b q qs" and "count_of m q = 1"
  shows "bb_ok m (bb_clear b) \<and> bb_pos (bb_clear b) = position_ctor"
  using bb_viewD [OF assms(2)] assms(3)
  by (auto simp: bb_ok_def bb_clear_def position_set_def position_eq bb_view_def)

lemma cleared: "bb_ok m b \<Longrightarrow> bb_ok m (bb_clear b) \<and> bb_pos (bb_clear b) = position_ctor"
  by (auto simp: bb_ok_def bb_clear_def position_set_def position_eq bb_view_def split: option.splits)

context log_formatter
begin

lemma write_line_appends:
  assumes inv: "manager_inv m" and ok: "bb_ok m (fw_buffer w)" and pos: "bb_pos (fw_buffer w) = position_ctor"
    and r: "fits r" and fl: "fw_file w = Some n" "d n = Some (File ys)" and lc: "fw_line_count w \<le> 65535"
  shows "\<exists>m' b'. write_line fmt r m d w =
             Some (m', d(n \<mapsto> File (ys @ text_of r)), w\<lparr>fw_line_count := fw_line_count w + 1, fw_buffer := b'\<rparr>) \<and>
           manager_inv m' \<and> bb_ok m' b' \<and> bb_pos b' = position_ctor"
proof -
  obtain m' b' q qs where f: "fmt r m (fw_buffer w) = Some (m', b')" "manager_inv m'" "bb_view m' b' q qs"
      "contents m' b' = text_of r" "count_of m' q = 1"
    using format_law [OF inv ok pos r] by (auto simp: formatted_def)
  have "bb_peak (bb_length b') m' b' = Some (text_of r)"
    using bb_peak_view [OF f(2,3)] length_contents [OF f(3)] f(4) by simp
  with f(1) fl lc have "write_line fmt r m d w =
      Some (m', d(n \<mapsto> File (ys @ text_of r)), w\<lparr>fw_line_count := fw_line_count w + 1, fw_buffer := bb_clear b'\<rparr>)"
    by (simp add: write_line_def file_append_def)
  then show ?thesis using cleared_ok [OF f(2,3,5)] f(2) by blast
qed

end

context text_formatter
begin

lemma console_write_prints:
  assumes inv: "manager_inv m" and ok: "bb_ok m b" and r: "fits r"
  shows "\<exists>m' b'. console_write fmt r m b =
             Some ((case color_of (rec_type r) of Some c \<Rightarrow> color_code c | None \<Rightarrow> []) @ text_of r @ color_code 39, m', b') \<and>
           manager_inv m' \<and> bb_ok m' b'"
proof -
  have c: "bb_ok m (bb_clear b)" "bb_pos (bb_clear b) = position_ctor" using cleared [OF ok] by simp_all
  obtain m' b' q qs where f: "fmt r m (bb_clear b) = Some (m', b')" "manager_inv m'" "bb_view m' b' q qs"
      "contents m' b' = text_of r" "pos_read (bb_pos b') = 0" "count_of m' q = 1"
    using format_law [OF inv c r] by (auto simp: formatted_def)
  note t = terminated_law [OF inv c r f(1,3)] and v = bb_viewD [OF f(3)]
  have "length (text_of r) = pos_write (bb_pos b')"
    using length_contents [OF f(3)] bb_length_view [OF f(3)] f(4,5) by simp
  then have "take (length (text_of r)) qs = text_of r"
    using f(4,5) by (simp add: contents_view [OF f(3)])
  then have "qs = text_of r @ 0 # drop (Suc (length (text_of r))) qs"
    using t by (metis append_take_drop_id Cons_nth_drop_Suc)
  moreover have "takeWhile (\<lambda>c. c \<noteq> 0) (text_of r @ 0 # zs) = text_of r" for zs
    using no_zero_law [OF r] by (subst takeWhile_append2) auto
  ultimately have "c_string qs = text_of r" unfolding c_string_def by metis
  moreover have "0 \<in> set qs" using t by (metis nth_mem)
  ultimately have "print_c m' b' = Some (text_of r)"
    using v f(5) by (simp add: print_c_def rd_ptr_def)
  with f(1) have "console_write fmt r m b =
      Some ((case color_of (rec_type r) of Some c \<Rightarrow> color_code c | None \<Rightarrow> []) @ text_of r @ color_code 39, m', bb_clear b')"
    by (simp add: console_write_def)
  then show ?thesis using f(2) cleared_ok [OF f(2,3,6)] by blast
qed

end

section \<open>Dates and file names\<close>

text \<open>A time on a given day after 1970, and the date of that day.\<close>

definition on_day :: "int \<Rightarrow> timestamp \<Rightarrow> bool" where
  "on_day day ts \<longleftrightarrow> 0 \<le> stamp_tick ts \<and> stamp_tick ts < 2 ^ 63 \<and> stamp_tick ts div 86400000000 = day"

definition same_date :: "systemtime \<Rightarrow> systemtime \<Rightarrow> bool" where
  "same_date st st' \<longleftrightarrow> wYear st = wYear st' \<and> wMonth st = wMonth st' \<and> wDay st = wDay st'"

lemma stamp_days:
  assumes "on_day day ts"
  shows "0 \<le> stamp_tick ts sdiv (1000 * 1000)" "stamp_tick ts sdiv (1000 * 1000) div 86400 = day" "day < 2 ^ 31" "0 \<le> day"
proof -
  have t: "0 \<le> stamp_tick ts" "stamp_tick ts < 2 ^ 63" "stamp_tick ts div 86400000000 = day"
    using assms by (simp_all add: on_day_def)
  have s: "stamp_tick ts sdiv (1000 * 1000) = stamp_tick ts div 1000000" using t(1) by (simp add: sdiv_nonneg)
  show "0 \<le> stamp_tick ts sdiv (1000 * 1000)" unfolding s using t(1) by (simp add: pos_imp_zdiv_nonneg_iff)
  show "stamp_tick ts sdiv (1000 * 1000) div 86400 = day" unfolding s using t(3) by (simp add: zdiv_zmult2_eq [symmetric])
  show "day < 2 ^ 31" unfolding t(3) [symmetric] using t(2) by (intro div_below) simp_all
  show "0 \<le> day" using t(1,3) by (simp add: pos_imp_zdiv_nonneg_iff flip: t(3))
qed

text \<open>All times of a day have the same date; the time of day has two digits in each field.\<close>

lemma systemtime_on_day:
  assumes "on_day day ts"
  obtains st where "systemtime_of_stamp ts u = Some st" "wHour st < 24" "wMinute st < 60" "wSecond st < 60"
    "0 < wDay st"
proof -
  define t where "t = stamp_tick ts sdiv (1000 * 1000)"
  have t: "0 \<le> t" "t div 86400 < 2 ^ 31" using stamp_days [OF assms] unfolding t_def by simp_all
  obtain y k r where c: "convert_to_tm_of_time t = Some \<lparr>tm_sec = t mod 60, tm_min = t mod 3600 div 60,
       tm_hour = t mod 86400 div 3600, tm_mday = r + 1, tm_mon = int k, tm_year = y - 1900,
       tm_wday = (t div 86400 + 4) mod 7,
       tm_yday = sum_list (take k (MONTH_TABLE (is_leap_year y))) + r, tm_isdst = 0\<rparr>"
    and y: "k < 12" "0 \<le> r" "r < MONTH_TABLE (is_leap_year y) ! k"
    using convert_to_tm_exists [OF t] by metis
  have "MONTH_TABLE (is_leap_year y) ! k \<le> 31"
    using y(1) by (cases "is_leap_year y") (auto simp: MONTH_TABLE_def less_Suc_eq numeral_eq_Suc)
  then have "r + 1 < 2 ^ 16" using y(3) by simp
  then have d: "0 < to_u16 (r + 1)" using y(2) by (simp add: to_u16_id)
  have b: "0 \<le> t mod 86400 div 3600" "0 \<le> t mod 3600 div 60" "0 \<le> t mod 60"
      "t mod 86400 div 3600 < 24" "t mod 3600 div 60 < 60" "t mod 60 < 60"
    using time_of_day_bounds [of t] by (simp_all add: pos_imp_zdiv_nonneg_iff)
  have u16: "to_u16 x < n" if "0 \<le> x" "x < int n" "n < 2 ^ 16" for x n
    using that by (simp add: to_u16_id)
  have h: "to_u16 (t mod 86400 div 3600) < 24" "to_u16 (t mod 3600 div 60) < 60" "to_u16 (t mod 60) < 60"
    by (rule u16; use b in simp)+
  have "\<exists>st. systemtime_of_stamp ts u = Some st \<and> wHour st = to_u16 (t mod 86400 div 3600) \<and>
      wMinute st = to_u16 (t mod 3600 div 60) \<and> wSecond st = to_u16 (t mod 60) \<and> wDay st = to_u16 (r + 1)"
    by (simp add: systemtime_of_stamp_def convert_to_tm_def t_def [symmetric, simplified] c)
  then obtain st where "systemtime_of_stamp ts u = Some st" "wHour st < 24" "wMinute st < 60" "wSecond st < 60" "0 < wDay st"
    using h d by force
  then show ?thesis by (rule that)
qed

lemma on_day_same_date:
  assumes "on_day day ts" "on_day day ts'" "systemtime_of_stamp ts u = Some st" "systemtime_of_stamp ts' u' = Some st'"
  shows "same_date st st'"
proof -
  let ?t = "stamp_tick ts sdiv (1000 * 1000)" and ?t' = "stamp_tick ts' sdiv (1000 * 1000)"
  have "?t sdiv (60 * 60 * 24) = ?t' sdiv (60 * 60 * 24)"
    using stamp_days [OF assms(1)] stamp_days [OF assms(2)] by (simp add: sdiv_nonneg)
  then show ?thesis
    using assms(3,4)
    by (auto simp: systemtime_of_stamp_def convert_to_tm_def convert_to_tm_of_time_def same_date_def
        split: prod.splits)
qed

lemma same_date_name: "same_date st st' \<Longrightarrow> date_name st = date_name st'"
  by (simp add: same_date_def date_name_def)

definition dec_val :: "string \<Rightarrow> nat" where
  "dec_val s = foldl (\<lambda>a c. 10 * a + (of_char c - 48)) 0 s"

lemma dec_val_digits: "foldl (\<lambda>a c. 10 * a + (of_char c - 48)) 0 (digits n) = n"
proof (induction n rule: digits.induct)
  case (1 n)
  then show ?case using digit_code [of n] digit_code [of "n mod 10"] by (subst digits.simps) auto
qed

lemma dec_val_fmt: "dec_val (fmt_0d w n) = n"
proof -
  have "foldl (\<lambda>a c. 10 * a + (of_char c - 48)) 0 (replicate k CHR ''0'') = (0 :: nat)" for k
    by (induction k) simp_all
  then show ?thesis by (simp add: dec_val_def fmt_0d_def dec_val_digits)
qed

lemma fmt_2_length: "n < 100 \<Longrightarrow> length (fmt_0d 2 n) = 2"
  using digits_length [of n 2] by (simp add: fmt_0d_def)

text \<open>A name of the day: date, six characters of time and the number of the file.\<close>

definition day_name :: "string \<Rightarrow> nat \<Rightarrow> string \<Rightarrow> bool" where
  "day_name date i name \<longleftrightarrow>
     (\<exists>h. length h = 6 \<and> name = date @ ''_'' @ h @ ''_'' @ fmt_0d 4 i @ ''.log'')"

lemma day_name_unique: "day_name date i name \<Longrightarrow> day_name date j name \<Longrightarrow> i = j"
proof -
  assume "day_name date i name" "day_name date j name"
  then obtain h h' where h: "length h = 6" "length h' = 6"
      and eq: "''_'' @ h @ ''_'' @ fmt_0d 4 i @ ''.log'' = ''_'' @ h' @ ''_'' @ fmt_0d 4 j @ ''.log''"
    unfolding day_name_def by (metis same_append_eq)
  from eq have "h @ (''_'' @ fmt_0d 4 i @ ''.log'') = h' @ (''_'' @ fmt_0d 4 j @ ''.log'')"
    by (simp only: same_append_eq)
  then have "''_'' @ fmt_0d 4 i @ ''.log'' = ''_'' @ fmt_0d 4 j @ ''.log''"
    using append_eq_append_conv [of h h'] h by metis
  then have "fmt_0d 4 i = fmt_0d 4 j" by (simp only: same_append_eq append_same_eq)
  then show "i = j" using dec_val_fmt [of 4 i] dec_val_fmt [of 4 j] by metis
qed

lemma log_file_day_name:
  assumes "wHour st < 24" "wMinute st < 60" "wSecond st < 60" "i < 2 ^ 31" "date_name st = date"
  shows "day_name date i (log_file_name st i)"
proof -
  have "length (fmt_0d 2 (wHour st) @ fmt_0d 2 (wMinute st) @ fmt_0d 2 (wSecond st)) = 6"
    using assms(1-3) by (simp add: fmt_2_length)
  moreover have "fmt_0i 4 (to_i32 (int i)) = fmt_0d 4 i" using assms(4) by (simp add: to_i32_id fmt_0i_def)
  ultimately show ?thesis unfolding day_name_def log_file_name_def assms(5)
    by (intro exI [of _ "fmt_0d 2 (wHour st) @ fmt_0d 2 (wMinute st) @ fmt_0d 2 (wSecond st)"]) simp
qed

section \<open>One day of the file writer\<close>

text \<open>The clock readings of a call are on one day and the file can be opened.\<close>

definition env_on :: "int \<Rightarrow> fw_env \<Rightarrow> bool" where
  "env_on day e \<longleftrightarrow> on_day day (env_now e) \<and> on_day day (env_delete_now e) \<and> on_day day (env_create_now e) \<and> env_fopen e"

definition date_of :: "int \<Rightarrow> systemtime" where
  "date_of day = the (systemtime_of_stamp \<lparr>stamp_tick = 86400000000 * day\<rparr> systemtime_ctor)"

lemma date_of_day:
  assumes "on_day day ts" and "systemtime_of_stamp ts u = Some st"
  shows "same_date st (date_of day)"
proof -
  have "86400000000 * day \<le> stamp_tick ts" using assms(1) by (auto simp: on_day_def)
  then have "on_day day \<lparr>stamp_tick = 86400000000 * day\<rparr>"
    using assms(1) stamp_days(4) [OF assms(1)] by (auto simp: on_day_def)
  moreover from this obtain st0 where "systemtime_of_stamp \<lparr>stamp_tick = 86400000000 * day\<rparr> systemtime_ctor = Some st0"
    by (rule systemtime_on_day)
  ultimately show ?thesis using on_day_same_date [OF assms(1) _ assms(2)] by (auto simp: date_of_def)
qed

text \<open>What the deletion of old files leaves of a directory.\<close>

definition pruned :: "fw_env \<Rightarrow> string \<Rightarrow> log_dir \<Rightarrow> log_dir" where
  "pruned e date d =
     (\<lambda>n. case d n of
        Some (File xs) \<Rightarrow>
          (case env_listing e of
             Some names \<Rightarrow> if n \<in> set names \<and> str_less n date \<and> env_remove e n then None else d n
           | None \<Rightarrow> d n)
      | x \<Rightarrow> x)"

lemma fold_delete_entry:
  "fold (delete_entry e date) names d n =
     (case d n of
        Some (File xs) \<Rightarrow> if n \<in> set names \<and> str_less n date \<and> env_remove e n then None else d n
      | x \<Rightarrow> x)"
proof (induction names arbitrary: d)
  case Nil
  show ?case by (simp split: option.splits node.splits)
next
  case (Cons a names)
  have 1: "delete_entry e date a d n = d n" if "n \<noteq> a" for d
    using that by (simp add: delete_entry_def split: option.splits node.splits)
  have 2: "delete_entry e date a d a =
      (case d a of Some (File xs) \<Rightarrow> if str_less a date \<and> env_remove e a then None else d a | x \<Rightarrow> x)" for d
    by (simp add: delete_entry_def split: option.splits node.splits)
  note ih = Cons.IH [of "delete_entry e date a d"]
  show ?case
  proof (cases "n = a")
    case True
    show ?thesis using ih unfolding True by (auto simp: 2 split: option.splits node.splits if_splits)
  next
    case False
    show ?thesis using ih unfolding 1 [OF False] using False by auto
  qed
qed

lemma delete_old_logs_pruned:
  assumes "systemtime_of_stamp (env_delete_now e) (env_uninit e) = Some st"
  shows "delete_old_logs e d = Some (pruned e (date_name st) d)"
  using assms
  by (auto simp: delete_old_logs_def pruned_def fold_delete_entry fun_eq_iff split: option.splits node.splits)

lemma env_on_fields:
  assumes "env_on day e"
  obtains st std stc where
    "systemtime_of_stamp (env_now e) (env_uninit e) = Some st" "wDay st = wDay (date_of day)" "0 < wDay (date_of day)"
    "systemtime_of_stamp (env_delete_now e) (env_uninit e) = Some std" "date_name std = date_name (date_of day)"
    "systemtime_of_stamp (env_create_now e) (env_uninit e) = Some stc"
    "\<And>i. i < 2 ^ 31 \<Longrightarrow> day_name (date_name (date_of day)) i (log_file_name stc i)"
proof -
  have d: "on_day day (env_now e)" "on_day day (env_delete_now e)" "on_day day (env_create_now e)"
    using assms by (simp_all add: env_on_def)
  obtain st where st: "systemtime_of_stamp (env_now e) (env_uninit e) = Some st" "0 < wDay st"
    using d(1) by (rule systemtime_on_day)
  obtain std where std: "systemtime_of_stamp (env_delete_now e) (env_uninit e) = Some std"
    using d(2) by (rule systemtime_on_day)
  obtain stc where stc: "systemtime_of_stamp (env_create_now e) (env_uninit e) = Some stc"
      "wHour stc < 24" "wMinute stc < 60" "wSecond stc < 60"
    using d(3) by (rule systemtime_on_day)
  have s: "wDay st = wDay (date_of day)" "date_name std = date_name (date_of day)"
      "date_name stc = date_name (date_of day)"
    using date_of_day [OF d(1) st(1)] date_of_day [OF d(2) std] date_of_day [OF d(3) stc(1)]
    by (auto simp: same_date_def date_name_def)
  show ?thesis
    using that [OF st(1) s(1) _ std s(2) stc(1)] st(2) s log_file_day_name [OF stc(2-4) _ s(3)] by auto
qed

text \<open>
  The state within a day: the files \<open>ns\<close> of the day, the records \<open>cs\<close> in each of them, and the rest of the
  directory as the deletion left it.
\<close>

definition day_files ::
    "(log_record \<Rightarrow> byte list) \<Rightarrow> string \<Rightarrow> log_dir \<Rightarrow> string list \<Rightarrow> log_record list list \<Rightarrow> log_dir \<Rightarrow> bool" where
  "day_files text date d0 ns cs d \<longleftrightarrow>
     length ns = length cs \<and>
     (\<forall>i<length ns. day_name date i (ns ! i) \<and> d (ns ! i) = Some (File (concat (map text (cs ! i))))) \<and>
     (\<forall>n. n \<notin> set ns \<longrightarrow> d n = d0 n)"

definition day_state ::
    "nat \<Rightarrow> string list \<Rightarrow> log_record list list \<Rightarrow> manager \<Rightarrow> file_writer \<Rightarrow> bool" where
  "day_state mday ns cs m w \<longleftrightarrow>
     manager_inv m \<and> bb_ok m (fw_buffer w) \<and> bb_pos (fw_buffer w) = position_ctor \<and> ns \<noteq> [] \<and> cs \<noteq> [] \<and>
     fw_file w = Some (last ns) \<and> fw_current_day w = mday \<and> fw_line_count w = length (last cs) \<and>
     fw_day_file_count w = length ns \<and> length (last cs) \<le> 65536 \<and> (\<forall>c\<in>set (butlast cs). length c = 65536) \<and>
     (\<forall>c\<in>set cs. c \<noteq> [])"

lemma day_files_distinct: "day_files text date d0 ns cs d \<Longrightarrow> distinct ns"
  unfolding distinct_conv_nth day_files_def by (metis day_name_unique)

lemma day_files_open:
  assumes f: "day_files text date d0 ns cs d" and n: "day_name date (length ns) n"
  shows "day_files text date d0 (ns @ [n]) (cs @ [[]]) (d(n \<mapsto> File []))"
proof -
  have new: "ns ! i \<noteq> n" if "i < length ns" for i
    using f n that day_name_unique unfolding day_files_def by (metis less_irrefl)
  show ?thesis
    using f n new by (auto simp: day_files_def nth_append less_Suc_eq)
qed

lemma day_files_append:
  assumes f: "day_files text date d0 (ns @ [n]) (cs @ [c]) d"
  shows "d n = Some (File (concat (map text c)))"
    and "day_files text date d0 (ns @ [n]) (cs @ [c @ [r]]) (d(n \<mapsto> File (concat (map text c) @ text r)))"
proof -
  have len: "length ns = length cs" using f by (simp add: day_files_def)
  show "d n = Some (File (concat (map text c)))"
    using f len by (auto simp: day_files_def nth_append dest: spec [of _ "length ns"])
  have new: "ns ! i \<noteq> n" if "i < length ns" for i
    using day_files_distinct [OF f] that by auto
  show "day_files text date d0 (ns @ [n]) (cs @ [c @ [r]]) (d(n \<mapsto> File (concat (map text c) @ text r)))"
    using f len new by (auto simp: day_files_def nth_append less_Suc_eq)
qed

context log_formatter
begin

text \<open>A line into the open file of the day.\<close>

lemma write_line_day:
  assumes st: "manager_inv m" "bb_ok m (fw_buffer w)" "bb_pos (fw_buffer w) = position_ctor" and r: "fits r"
    and w: "fw_file w = Some n" "fw_line_count w = length c" "length c \<le> 65535"
      "fw_current_day w = mday" "fw_day_file_count w = Suc (length ns)"
    and f: "day_files text_of date d0 (ns @ [n]) (cs @ [c]) d" and full: "\<forall>c\<in>set cs. length c = 65536"
  shows "\<exists>m' d' w'. write_line fmt r m d w = Some (m', d', w') \<and>
           day_state mday (ns @ [n]) (cs @ [c @ [r]]) m' w' \<and>
           day_files text_of date d0 (ns @ [n]) (cs @ [c @ [r]]) d'"
proof -
  have lc: "fw_line_count w \<le> 65535" using w by simp
  from write_line_appends [where d = d and n = n, OF st r w(1) day_files_append(1) [OF f] lc] obtain m' b' where
    s: "write_line fmt r m d w =
          Some (m', d(n \<mapsto> File (concat (map text_of c) @ text_of r)),
            w\<lparr>fw_line_count := fw_line_count w + 1, fw_buffer := b'\<rparr>)"
      "manager_inv m'" "bb_ok m' b'" "bb_pos b' = position_ctor"
    by blast
  have "\<forall>c\<in>set cs. c \<noteq> []" using full by auto
  then have "day_state mday (ns @ [n]) (cs @ [c @ [r]]) m' (w\<lparr>fw_line_count := fw_line_count w + 1, fw_buffer := b'\<rparr>)"
    using s(2-4) w full by (auto simp: day_state_def)
  with s(1) day_files_append(2) [OF f] show ?thesis by blast
qed

lemma file_write_first:
  assumes inv: "manager_inv m" and e: "env_on day e" and r: "fits r"
  shows "\<exists>m' d' w' n. file_write fmt e r m d0 file_writer_ctor = Some (m', d', w') \<and>
           day_state (wDay (date_of day)) [n] [[r]] m' w' \<and>
           day_files text_of (date_name (date_of day)) (pruned e (date_name (date_of day)) d0) [n] [[r]] d'"
proof (rule env_on_fields [OF e])
  fix st std stc
  assume s: "systemtime_of_stamp (env_now e) (env_uninit e) = Some st" "wDay st = wDay (date_of day)"
      "0 < wDay (date_of day)"
      "systemtime_of_stamp (env_delete_now e) (env_uninit e) = Some std" "date_name std = date_name (date_of day)"
      "systemtime_of_stamp (env_create_now e) (env_uninit e) = Some stc"
      "\<And>i. i < 2 ^ 31 \<Longrightarrow> day_name (date_name (date_of day)) i (log_file_name stc i)"
  let ?date = "date_name (date_of day)" and ?n = "log_file_name stc 0"
  let ?d = "pruned e ?date d0"
  let ?w = "file_writer_ctor\<lparr>fw_day_file_count := 0, fw_file := Some ?n, fw_day_file_count := 1, fw_line_count := 0,
      fw_current_day := wDay (date_of day)\<rparr>"
  have "day_files text_of ?date ?d [] [] ?d" by (simp add: day_files_def)
  from day_files_open [OF this, of ?n] have f: "day_files text_of ?date ?d ([] @ [?n]) ([] @ [[]]) (?d(?n \<mapsto> File []))"
    using s(7) [of 0] by simp
  have ok: "bb_ok m (fw_buffer ?w)" "bb_pos (fw_buffer ?w) = position_ctor"
    by (simp_all add: file_writer_ctor_def bb_ctor_def bb_ok_def)
  have "fw_day_file_count ?w = Suc (length [])" "fw_line_count ?w = length []" "fw_file ?w = Some ?n"
      "fw_current_day ?w = wDay (date_of day)" by simp_all
  from write_line_day [OF inv ok r this(3,2) _ this(4,1) f] obtain m' d' w' where
    l: "write_line fmt r m (?d(?n \<mapsto> File [])) ?w = Some (m', d', w')"
      "day_state (wDay (date_of day)) [?n] [[r]] m' w'" "day_files text_of ?date ?d [?n] [[r]] d'"
    by auto
  have del: "delete_old_logs e d0 = Some ?d" using delete_old_logs_pruned [OF s(4)] s(5) by simp
  have "env_fopen e" using e by (simp add: env_on_def)
  then have "file_write fmt e r m d0 file_writer_ctor = write_line fmt r m (?d(?n \<mapsto> File [])) ?w"
    using s(1-3,6) del by (simp add: file_write_def create_log_file_def file_writer_ctor_def Let_def)
  then show ?thesis using l by metis
qed

lemma file_write_next:
  assumes s: "day_state (wDay (date_of day)) ns cs m w" and f: "day_files text_of (date_name (date_of day)) d0 ns cs d"
    and e: "env_on day e" and r: "fits r" and n: "length ns < 2 ^ 31"
  shows "\<exists>m' d' w' ns' cs'. file_write fmt e r m d w = Some (m', d', w') \<and>
           day_state (wDay (date_of day)) ns' cs' m' w' \<and>
           day_files text_of (date_name (date_of day)) d0 ns' cs' d' \<and>
           concat cs' = concat cs @ [r] \<and> length ns' \<le> length ns + 1"
proof (rule env_on_fields [OF e])
  fix st std stc
  assume t: "systemtime_of_stamp (env_now e) (env_uninit e) = Some st" "wDay st = wDay (date_of day)"
      "0 < wDay (date_of day)"
      "systemtime_of_stamp (env_create_now e) (env_uninit e) = Some stc"
      "\<And>i. i < 2 ^ 31 \<Longrightarrow> day_name (date_name (date_of day)) i (log_file_name stc i)"
  let ?date = "date_name (date_of day)"
  have ne: "ns \<noteq> []" "cs \<noteq> []" using s by (simp_all add: day_state_def)
  obtain ns1 n1 cs1 c1 where nc: "ns = ns1 @ [n1]" "cs = cs1 @ [c1]"
    using ne by (metis append_butlast_last_id)
  have w: "manager_inv m" "bb_ok m (fw_buffer w)" "bb_pos (fw_buffer w) = position_ctor" "fw_file w = Some n1"
      "fw_current_day w = wDay (date_of day)" "fw_line_count w = length c1" "fw_day_file_count w = Suc (length ns1)"
      "length c1 \<le> 65536" "\<forall>c\<in>set cs1. length c = 65536"
    using s by (simp_all add: day_state_def nc)
  show ?thesis
  proof (cases "length c1 \<le> 65535")
    case True
    from write_line_day [OF w(1-3) r w(4,6) True w(5,7) f [unfolded nc] w(9)] obtain m' d' w' where
      l: "write_line fmt r m d w = Some (m', d', w')"
        "day_state (wDay (date_of day)) ns (cs1 @ [c1 @ [r]]) m' w'"
        "day_files text_of ?date d0 ns (cs1 @ [c1 @ [r]]) d'"
      unfolding nc by blast
    have "file_write fmt e r m d w = write_line fmt r m d w"
      using t(1,2) w(4-6) True by (simp add: file_write_def)
    then show ?thesis using l nc by fastforce
  next
    case False
    let ?n = "log_file_name stc (length ns)"
    let ?w = "w\<lparr>fw_file := Some ?n, fw_day_file_count := Suc (length ns), fw_line_count := 0,
        fw_current_day := wDay (date_of day)\<rparr>"
    have g: "day_files text_of ?date d0 (ns @ [?n]) (cs @ [[]]) (d(?n \<mapsto> File []))"
      by (rule day_files_open [OF f t(5) [OF n]])
    have w': "bb_ok m (fw_buffer ?w)" "bb_pos (fw_buffer ?w) = position_ctor" "fw_file ?w = Some ?n"
        "fw_line_count ?w = length []" "length [] \<le> (65535 :: nat)" "fw_current_day ?w = wDay (date_of day)"
        "fw_day_file_count ?w = Suc (length ns)"
      using w(2,3) by simp_all
    have full: "\<forall>c\<in>set cs. length c = 65536" using w(8,9) False by (auto simp: nc)
    from write_line_day [OF w(1) w'(1,2) r w'(3-7) g full] obtain m' d' w'' where
      l: "write_line fmt r m (d(?n \<mapsto> File [])) ?w = Some (m', d', w'')"
        "day_state (wDay (date_of day)) (ns @ [?n]) (cs @ [[] @ [r]]) m' w''"
        "day_files text_of ?date d0 (ns @ [?n]) (cs @ [[] @ [r]]) d'"
      by blast
    have cnt: "fw_day_file_count w = length ns" "Suc (length ns) mod 2 ^ 32 = Suc (length ns)"
      using w(7) n by (simp_all add: nc)
    have op: "env_fopen e" using e by (simp add: env_on_def)
    have "file_write fmt e r m d w = write_line fmt r m (d(?n \<mapsto> File [])) ?w"
      using t(1,2,4) w(4-6) False op cnt by (simp add: file_write_def create_log_file_def Let_def)
    moreover have "concat (cs @ [[] @ [r]]) = concat cs @ [r]" by simp
    ultimately show ?thesis using l by fastforce
  qed
qed

end

context log_formatter
begin

lemma file_writes_next:
  assumes "day_state (wDay (date_of day)) ns cs m w" "day_files text_of (date_name (date_of day)) d0 ns cs d"
    and "\<forall>(e, r)\<in>set es. env_on day e \<and> fits r" and "length ns + length es < 2 ^ 31"
  shows "\<exists>m' d' w' ns' cs'. file_writes fmt es m d w = Some (m', d', w') \<and>
           day_state (wDay (date_of day)) ns' cs' m' w' \<and>
           day_files text_of (date_name (date_of day)) d0 ns' cs' d' \<and> concat cs' = concat cs @ map snd es"
  using assms
proof (induction es arbitrary: m d w ns cs)
  case (Cons er es)
  obtain e r where er: "er = (e, r)" by fastforce
  have 1: "env_on day e" "fits r" "length ns < 2 ^ 31" using Cons.prems(3,4) by (auto simp: er)
  obtain m1 d1 w1 ns1 cs1 where s: "file_write fmt e r m d w = Some (m1, d1, w1)"
      "day_state (wDay (date_of day)) ns1 cs1 m1 w1" "day_files text_of (date_name (date_of day)) d0 ns1 cs1 d1"
      "concat cs1 = concat cs @ [r]" "length ns1 \<le> length ns + 1"
    using file_write_next [OF Cons.prems(1,2) 1] by blast
  have "\<forall>(e, r)\<in>set es. env_on day e \<and> fits r" "length ns1 + length es < 2 ^ 31"
    using Cons.prems(3,4) s(5) by auto
  from Cons.IH [OF s(2,3) this] s(1,4) show ?case by (auto simp: er)
qed auto

lemma file_writes_day:
  assumes inv: "manager_inv m" and es: "es \<noteq> []" "\<forall>(e, r)\<in>set es. env_on day e \<and> fits r" "length es < 2 ^ 31"
  shows "\<exists>m' d' w' ns cs. file_writes fmt es m d0 file_writer_ctor = Some (m', d', w') \<and>
           day_state (wDay (date_of day)) ns cs m' w' \<and>
           day_files text_of (date_name (date_of day)) (pruned (fst (hd es)) (date_name (date_of day)) d0) ns cs d' \<and>
           concat cs = map snd es"
proof -
  obtain e r es' where e: "es = (e, r) # es'" using es(1) by (cases es) auto
  have 1: "env_on day e" "fits r" using es(2) by (auto simp: e)
  obtain m1 d1 w1 n where s: "file_write fmt e r m d0 file_writer_ctor = Some (m1, d1, w1)"
      "day_state (wDay (date_of day)) [n] [[r]] m1 w1"
      "day_files text_of (date_name (date_of day)) (pruned e (date_name (date_of day)) d0) [n] [[r]] d1"
    using file_write_first [OF inv 1] by blast
  have "\<forall>(e, r)\<in>set es'. env_on day e \<and> fits r" "length [n] + length es' < 2 ^ 31"
    using es(2,3) by (auto simp: e)
  from file_writes_next [OF s(2,3) this] s(1) show ?thesis by (auto simp: e)
qed

end

section \<open>Properties of the file writer\<close>

text \<open>
  On one day the file writer loses nothing and splits the log as intended: for any records written with
  the text formatter at times of one day, from a new writer on, the files of the day have distinct names,
  every one but the last holds 65536 lines and the last at most as many, and in order they hold the lines
  of all records. The rest of the directory is as before, except that every plain file whose name sorts
  before today's date is removed, however old it is (the code computes the date 30 days ago and does not
  use it).
\<close>

theorem file_writer_day:
  assumes "manager_inv m" and "es \<noteq> []" and "\<forall>(e, r)\<in>set es. env_on day e \<and> text_fits u r" and "length es < 2 ^ 31"
  shows "\<exists>m' d' w' ns cs. file_writes (formatter_format u) es m d0 file_writer_ctor = Some (m', d', w') \<and>
           concat cs = map snd es \<and> length cs = length ns \<and> distinct ns \<and>
           (\<forall>c\<in>set (butlast cs). length c = 65536) \<and> length (last cs) \<le> 65536 \<and>
           (\<forall>i<length ns. d' (ns ! i) = Some (File (concat (map (text_line u) (cs ! i))))) \<and>
           (\<forall>n. n \<notin> set ns \<longrightarrow> d' n = pruned (fst (hd es)) (date_name (date_of day)) d0 n)"
proof -
  obtain m' d' w' ns cs where s: "file_writes (formatter_format u) es m d0 file_writer_ctor = Some (m', d', w')"
      "day_state (wDay (date_of day)) ns cs m' w'" "concat cs = map snd es"
    and f: "day_files (text_line u) (date_name (date_of day)) (pruned (fst (hd es)) (date_name (date_of day)) d0) ns cs d'"
    using tf.file_writes_day [OF assms] by blast
  show ?thesis
    using s f day_files_distinct [OF f] by (intro exI conjI) (auto simp: day_state_def day_files_def)
qed

definition demo_env :: fw_env where
  "demo_env =
     \<lparr>env_now = mk_stamp 951782400000000, env_delete_now = mk_stamp 951782400000000,
      env_create_now = mk_stamp 951782400000001, env_listing = Some [''old.log''], env_remove = (\<lambda>n. True),
      env_fopen = True, env_uninit = systemtime_ctor\<rparr>"

lemma demo_on_day: "on_day 11016 (mk_stamp 951782400000000)" "on_day 11016 (mk_stamp 951782400000001)"
  by (simp_all add: on_day_def mk_stamp_def to_i64_def)

lemma demo_env_on: "env_on 11016 demo_env"
  using demo_on_day by (simp add: env_on_def demo_env_def)

lemma demo_text_fits: "text_fits systemtime_ctor demo_record"
proof -
  have "rec_ts demo_record = mk_stamp 951782400000000" by (simp add: demo_record_def)
  then show ?thesis
    using demo_record_ok systemtime_on_day [OF demo_on_day(1)] unfolding text_fits_def by (metis option.distinct(1))
qed

theorem file_writer_day_witness:
  "\<exists>m' d' w' n. file_writes (formatter_format systemtime_ctor) [(demo_env, demo_record)] demo_manager Map.empty
       file_writer_ctor = Some (m', d', w') \<and>
     d' n = Some (File (text_line systemtime_ctor demo_record))"
proof -
  have "\<forall>(e, r)\<in>set [(demo_env, demo_record)]. env_on 11016 e \<and> text_fits systemtime_ctor r"
    using demo_env_on demo_text_fits by simp
  from file_writer_day [OF demo_inv _ this, of Map.empty] obtain m' d' w' ns cs where
    s: "file_writes (formatter_format systemtime_ctor) [(demo_env, demo_record)] demo_manager Map.empty
          file_writer_ctor = Some (m', d', w')" "concat cs = [demo_record]" "length cs = length ns"
       "\<forall>c\<in>set (butlast cs). length c = 65536"
       "\<forall>i<length ns. d' (ns ! i) = Some (File (concat (map (text_line systemtime_ctor) (cs ! i))))"
    by auto
  have "length (concat cs) = 1" using s(2) by simp
  obtain c where c: "c \<in> set cs" "c \<noteq> []" using s(2) by (metis concat_eq_Nil_conv not_Cons_self2)
  then obtain xs ys where "cs = xs @ c # ys" by (meson split_list)
  with s(2) c(2) have "c = [demo_record]" by (auto simp: append_eq_Cons_conv Cons_eq_append_conv concat_eq_Nil_conv)
  moreover obtain i where "i < length ns" "cs ! i = c" using c(1) s(3) by (metis in_set_conv_nth)
  ultimately have "d' (ns ! i) = Some (File (text_line systemtime_ctor demo_record))" using s(5) by simp
  with s(1) show ?thesis by blast
qed

text \<open>
  The directory is cleared of every earlier day when a day begins: in particular the log of the day before
  is gone after the first line of a day.
\<close>

theorem day_begins_deletes:
  assumes "manager_inv m" and "env_on day e" and "text_fits u r" and "env_listing e = Some names"
    and "n \<in> set names" and "str_less n (date_name (date_of day))" and "env_remove e n" and "d0 n = Some (File xs)"
    and "\<And>i. \<not> day_name (date_name (date_of day)) i n"
  shows "\<exists>m' d' w'. file_write (formatter_format u) e r m d0 file_writer_ctor = Some (m', d', w') \<and> d' n = None"
proof -
  obtain m' d' w' k where s: "file_write (formatter_format u) e r m d0 file_writer_ctor = Some (m', d', w')"
      and f: "day_files (text_line u) (date_name (date_of day)) (pruned e (date_name (date_of day)) d0) [k] [[r]] d'"
    using tf.file_write_first [OF assms(1-3)] by blast
  have "n \<noteq> k" using f assms(9) by (auto simp: day_files_def)
  then have "d' n = pruned e (date_name (date_of day)) d0 n" using f by (auto simp: day_files_def)
  with s assms show ?thesis by (auto simp: pruned_def)
qed

end
