(* ===== verification/Spec2Isabelle.thy ===== *)
theory Spec2Isabelle
  imports Slist_Queue Crc32 Base64 Big_Integer Shared_Function Kqueue Poll_Select Reactor_Types Reactor_Order Socket Address
    Hangul Filters Openssl_Filter Endpoints Log_Writer
begin

text \<open>
  A verification library for tcode, a C++ networking library: an event loop over \<open>epoll\<close> or \<open>kqueue\<close> with timers, TCP
  channels with a pipeline of filters, reference-counted buffers, logging, and helpers for time, strings and
  checksums. The sources are under \<open>src/include/tcode\<close> and \<open>src/src\<close>; paths below leave the leading
  \<open>src/\<close> out.

  \<^bold>\<open>Parts and their interaction.\<close> An application builds a channel with the connector or the acceptor. The
  channel hands reads and writes to the multiplexer of its engine as operations; the multiplexer performs
  them when the socket is ready and completes them in the loop of the engine, which also fires the timers. A
  completed read becomes an event that runs through the filters of the channel's pipeline; what filters
  write runs the other way and ends as an operation. Bytes are held in byte buffers over blocks of the block
  manager. The logger formats records into such buffers.

  \<^bold>\<open>Theories.\<close>
  \<^item> \<open>Tcode_Prelude\<close>: machine integers with their wrap-around, object representations, runs of list elements.
  \<^item> \<open>Slist_Queue\<close> (\<open>include/tcode/slist.hpp\<close>): the intrusive queue over a store of \<open>next\<close> pointers; locale
    \<open>fifo\<close>, interpreted on the pointer code; first-in first-out order, refinement of list operations.
  \<^item> \<open>Block_Manager\<close> (\<open>src/block.cpp\<close>, \<open>include/tcode/fixed_size_allocator.hpp\<close>): size classes, free lists and
    reference counts over an explicit memory; an invariant of all reachable states, the correctness of
    allocation and the reference count protocol; locale \<open>block_store\<close> for the buffers.
  \<^item> \<open>Byte_Buffer\<close> (\<open>src/byte_buffer.cpp\<close>): every operation of the buffer over \<open>block_store\<close>; appending, consuming,
    clamped moves, growth, copies and the round trip of the stream operators.
  \<^item> \<open>Time_Util\<close> (\<open>src/time\<close>), \<open>Crc32\<close>, \<open>Base64\<close>, \<open>Tcode_String\<close>, \<open>Hangul\<close>, \<open>Tcode_Error\<close>: calendar dates, the checksum as the
    bit-serial CRC-32, both directions of base 64, string helpers, the letters of Hangul syllables, error codes and messages.
  \<^item> \<open>Big_Integer\<close> (\<open>old/common/big_integer.cpp\<close>, the one part of the former version that is modelled): sums and
    differences modulo the width of the vector, exact products, shifts, logical operations, decimal output.
  \<^item> \<open>Shared_Function\<close> (\<open>include/tcode/function.hpp\<close>): the type-erased function object over a store of counted
    contexts; every statement does to the functions what assigning values does, and no handler leaks.
  \<^item> \<open>Io_Operation\<close> (\<open>src/io/buffer.cpp\<close>, \<open>src/io/operation.cpp\<close>, \<open>src/io/ip\<close>): partial transfers of every operation.
  \<^item> \<open>Multiplexer\<close>: what the engine relies on in its multiplexer, as a locale.
  \<^item> \<open>Reactor\<close>: what \<open>src/io/epoll.cpp\<close> and \<open>src/io/kqueue.cpp\<close> share: descriptors, their queues, the task queue, the
    requests, the loop. The registration with the kernel is a parameter; the locale \<open>reactor_laws\<close> says what it
    leaves alone, and in it every operation is shown to end and to keep the invariant of the memory.
  \<^item> \<open>Epoll\<close> and \<open>Kqueue\<close>: the two registrations, as interpretations of \<open>reactor_laws\<close> and, in their reachable
    states, of \<open>multiplexer\<close>: no use after free, every operation completed exactly once, the count the engine
    tests. For \<open>kqueue\<close>, whose changes are collected and handed over in the next round, also that a waiting operation
    has its filter switched on, and how a refused change takes others with it.
  \<^item> \<open>Reactor_Frame\<close>, \<open>Reactor_Types\<close> and \<open>Reactor_Order\<close>: what the steps of the reactor leave alone; the typing of
    the queues (a direction holds only operations of its own); the order in which handlers are called.
  \<^item> \<open>Poll_Select\<close> (\<open>src/io/poll.cpp\<close>, \<open>src/io/select.cpp\<close>): the tables of the two other multiplexers and the loops that
    wait and dispatch; the vectors of \<open>poll\<close> stay in step, \<open>select\<close> hears its own pipe only.
  \<^item> \<open>Engine\<close> (\<open>src/io/engine.cpp\<close>, \<open>src/io/timer.cpp\<close>, \<open>src/io/timer_id.cpp\<close>): the loop and the timers; timers in order, fired
    when due; nothing is left when \<open>run\<close> returns.
  \<^item> \<open>Socket\<close> (\<open>src/io/ip/tcp/socket.cpp\<close>, \<open>src/io/ip/tcp/acceptor.cpp\<close>, \<open>src/io/ip/udp/socket.cpp\<close>, \<open>src/io/ip/raw.cpp\<close>): who owns
    the reference of a descriptor when sockets are moved, closed and destroyed; an unclosed one keeps the engine running.
  \<^item> \<open>Address\<close> (\<open>src/io/ip/address.cpp\<close>, \<open>src/io/uds/address.cpp\<close>, \<open>src/io/ip/simple_select.cpp\<close>): the bytes of socket
    addresses and what is read back from them; the time limits of the selector.
  \<^item> \<open>Pipeline\<close> and \<open>Channel\<close> (\<open>src/io/ip/tcp/pipeline\<close>: \<open>pipeline.cpp\<close>, \<open>filter.cpp\<close>, \<open>channel.cpp\<close>): the doubly linked chain
    and its edits; the channel as a machine whose stack holds the calls under way, so that filters may call
    back into the channel; reference counts, order of events, the written stream.
  \<^item> \<open>Filters\<close> and \<open>Openssl_Filter\<close> (\<open>src/io/ip/tcp/pipeline/filters\<close>): framing, timeout, TLS.
  \<^item> \<open>Endpoints\<close> (\<open>connector.cpp\<close>, \<open>acceptor.cpp\<close> there): the sequence of attempts and of accepted connections.
  \<^item> \<open>Log_Record\<close> and \<open>Log_Writer\<close> (\<open>src/log\<close>): records, their serialisation and text, the locales \<open>log_formatter\<close>
    and \<open>text_formatter\<close> with both formatters as interpretations; the logger, the dump, the console and the
    file writer.

  \<^bold>\<open>State and operations.\<close> A class is a record and a member function a definition over it with the same name
  (with a prefix where names clash). The result of an operation that would dereference a null or dead
  pointer, read or write outside an array or call a member of a deleted object is \<^const>\<open>None\<close>, so a theorem
  that an operation returns \<^const>\<open>Some\<close> is a statement of memory safety. Answers of the platform (system calls,
  clock, thread identity, directory entries, the text of \<open>printf\<close>) and of OpenSSL are arguments; what
  application callbacks and filters do is an argument as well. Machine integers are numbers with the
  conversion written out, or words where the code works on bits.

  \<^bold>\<open>Loops and bounds.\<close> Loops with a measure are total functions. Loops that may not end (the loop of the engine,
  the walk along a chain of pointers, \<open>replace\<close>, the loop of the size filter, \<open>SSL_read\<close>) are partial functions whose
  value \<^const>\<open>None\<close> is not returning; where a claim is that such a loop ends, it is proved as an equation with
  \<^const>\<open>Some\<close>, and \<open>replace\<close> is also shown not to end on some inputs. Hypotheses bound counters where the code lets
  them wrap: reference counts of blocks and channels stay below the range of their type (a channel has at most
  \<open>2 ^ 28\<close> references), a buffer is smaller than \<open>2 ^ 31\<close> bytes, base 64 texts are at most as long as the code
  accepts, a day has fewer than \<open>2 ^ 31\<close> log lines.

  \<^bold>\<open>Not modelled.\<close> Of \<open>poll.cpp\<close> and \<open>select.cpp\<close>, which the build can choose but which call members the engine does not
  have, all but the tables and their loops (of \<open>select\<close> also its queue of tasks and its pipe); \<open>completion_port.cpp\<close> and the Windows branches, with their code page conversions; the
  wrappers of socket options and calls, which only call the system; the initialisation of OpenSSL; spin locks
  and thread local storage (locks protect sections that are atomic steps of the models); memory exhaustion;
  files that no build includes; the former version under \<open>old\<close>, which the present one replaces, but for its big
  integers; vendored code and tests.
\<close>

section \<open>A write from the channel through its operation\<close>

text \<open>
  The buffers that \<open>write_remains\<close> hands to the write operation. \<open>ptrs\<close> are the read pointers of the byte buffers that
  wait to be written. With more than one the vector is constructed with as many empty buffers as it is to hold, and the
  buffers are appended behind them.
\<close>

definition write_bufs :: "int list \<Rightarrow> bytes list \<Rightarrow> buffer list" where
  "write_bufs ptrs bufs =
     (if length bufs = 1 then [buffer_of (ptrs ! 0) (int (length (bufs ! 0)))]
      else fold (\<lambda>i wb. wb @ [buffer_of (ptrs ! i) (int (length (bufs ! i)))]) [0..<length bufs] (replicate (length bufs) buffer_ctor))"

text \<open>
  The bytes a buffer shows in a memory, and those a \<open>writev\<close> sees. A successful \<open>writev\<close> of \<open>k\<close> bytes takes the first \<open>k\<close> of
  them: \<open>transmit\<close> is what the system was given in the end by an operation whose partial writes were \<open>ks\<close>.
\<close>

definition bytes_at :: "(int \<Rightarrow> byte) \<Rightarrow> int \<Rightarrow> nat \<Rightarrow> bytes" where
  "bytes_at m a n = map (\<lambda>k. m (a + int k)) [0..<n]"

definition buffer_bytes :: "(int \<Rightarrow> byte) \<Rightarrow> buffer \<Rightarrow> bytes" where
  "buffer_bytes m b = bytes_at m (iov_base b) (iov_len b)"

definition gathered :: "(int \<Rightarrow> byte) \<Rightarrow> buffer list \<Rightarrow> bytes" where
  "gathered m bs = concat (map (buffer_bytes m) bs)"

fun transmit :: "(int \<Rightarrow> byte) \<Rightarrow> io_op \<Rightarrow> nat list \<Rightarrow> bytes" where
  "transmit m op [] = []"
| "transmit m op (k # ks) =
     take k (gathered m (op_buffers op)) @
     (case post_write_impl (int k, error_success) op of (fin, op') \<Rightarrow> if fin then [] else transmit m op' ks)"

lemma length_buffer_bytes [simp]: "length (buffer_bytes m b) = iov_len b"
  by (simp add: buffer_bytes_def bytes_at_def)

lemma buffer_bytes_skip:
  "k \<le> iov_len b \<Longrightarrow> buffer_bytes m (b\<lparr>iov_base := iov_base b + int k, iov_len := iov_len b - k\<rparr>) = drop k (buffer_bytes m b)"
  by (simp add: buffer_bytes_def bytes_at_def drop_map list_eq_iff_nth_eq algebra_simps)

lemma gathered_simps [simp]: "gathered m [] = []" "gathered m (b # bs) = buffer_bytes m b @ gathered m bs"
  by (simp_all add: gathered_def)

lemma length_gathered: "length (gathered m bs) = total_len bs"
  by (induction bs) simp_all

lemma gathered_skip: "gathered m (skip_bytes bs n) = drop n (gathered m bs)"
  by (induction bs arbitrary: n) (simp_all add: Let_def buffer_bytes_skip min_def)

lemma transmit_takes:
  assumes "transfer_ok n op" and "sum_list ks \<le> total_len (op_buffers op)"
  shows "transmit m op ks = take (sum_list ks) (gathered m (op_buffers op))"
  using assms
proof (induction ks arbitrary: op)
  case (Cons k ks)
  let ?op = "op\<lparr>op_error := error_success, op_buffers := skip_bytes (op_buffers op) k, op_count := op_count op + int k\<rparr>"
  have k: "k \<le> total_len (op_buffers op)" using Cons.prems(2) by simp
  have post: "post_write_impl (int k, error_success) op = (k = total_len (op_buffers op), ?op)"
    using post_fixed_step(2) [OF Cons.prems(1) k, of error_success] has_error_simps(1) by blast
  show ?case
  proof (cases "k = total_len (op_buffers op)")
    case True
    then show ?thesis using post Cons.prems(2) length_gathered [of m "op_buffers op"] by simp
  next
    case False
    have "transmit m ?op ks = take (sum_list ks) (drop k (gathered m (op_buffers op)))"
      using Cons.IH [OF transfer_ok_step [OF Cons.prems(1) k]] Cons.prems(2) k by (simp add: total_len_skip gathered_skip)
    then show ?thesis using post False by (simp add: take_add)
  qed
qed simp

text \<open>What the buffers show is what the channel's model of the operation records.\<close>

lemma buffer_of_bytes:
  "length b < 2 ^ 31 \<Longrightarrow> bytes_at m a (length b) = b \<Longrightarrow> buffer_bytes m (buffer_of a (int (length b))) = b"
  by (simp add: buffer_bytes_def buffer_of_def buffer_set_def buffer_raw_def to_size_id)

lemma fold_push_back: "fold (\<lambda>i wb. wb @ [f i]) is wb = wb @ map f is"
  by (induction "is" arbitrary: wb) simp_all

lemma write_bufs_show:
  assumes "\<forall>i < length bufs. bytes_at m (ptrs ! i) (length (bufs ! i)) = bufs ! i" and "length (concat bufs) < 2 ^ 31"
  shows "map (buffer_bytes m) (write_bufs ptrs bufs) = (if length bufs = 1 then bufs else replicate (length bufs) [] @ bufs)"
proof -
  have small: "length (bufs ! i) < 2 ^ 31" if "i < length bufs" for i
  proof -
    have "length (bufs ! i) \<le> sum_list (map length bufs)" using that by (intro member_le_sum_list) simp_all
    then show ?thesis using assms(2) by (simp add: length_concat)
  qed
  have b: "buffer_bytes m (buffer_of (ptrs ! i) (int (length (bufs ! i)))) = bufs ! i" if "i < length bufs" for i
    using buffer_of_bytes [OF small] assms(1) that by blast
  have e: "buffer_bytes m buffer_ctor = []"
    by (simp add: buffer_bytes_def bytes_at_def buffer_ctor_def buffer_set_def to_size_id)
  have m: "map (\<lambda>i. buffer_bytes m (buffer_of (ptrs ! i) (int (length (bufs ! i))))) [0..<length bufs] = bufs"
    by (intro nth_equalityI) (simp_all add: b)
  show ?thesis
    using b [of 0] m by (auto simp: write_bufs_def fold_push_back e comp_def intro: nth_equalityI)
qed

lemma write_remains_offers:
  assumes "check_if_val_contains_bit (ch_flag ch) close_flag"
  shows "concat (last (ch_writing (write_remains ch))) = concat (ch_write_buffers ch)"
  using assms by (simp add: write_remains_def Let_def)

lemma handle_write_stream:
  assumes "check_if_val_contains_bit (ch_flag ch) close_flag" and "\<not> has_error ec"
    and "concat (ch_write_buffers ch) = xs @ ys"
  shows "\<exists>ch'. handle_write ec (int (length xs)) ch =
           (Fire_Head (On_Write (int (length xs)) (ys = [])) # (if ys = [] then [] else [Write_Remains]), ch') \<and>
         concat (ch_write_buffers ch') = ys"
proof -
  let ?bufs = "List.filter (\<lambda>b. b \<noteq> []) (consume (int (length xs)) (ch_write_buffers ch))"
  have c: "concat ?bufs = ys"
    using assms(3) by (simp only: concat_nonempty_bufs concat_consume [OF of_nat_0_le_iff]) simp
  have "?bufs = [] \<longleftrightarrow> ys = []"
    unfolding c [symmetric] by (auto simp: filter_empty_conv)
  with c show ?thesis using assms(1,2) by (simp add: handle_write_def Let_def)
qed

text \<open>
  C8. A write of the channel arrives as one piece, however the socket takes it. The buffers that \<open>write_remains\<close> offers
  show, in order, the bytes that wait in the channel. The operation built from them stays pending through every partial
  transfer but the last, and what the system was given is at every moment the front part of the stream, and at the end
  the stream. The operation then completes with the length of the whole stream, and the completion takes exactly these
  bytes off the front, keeps what was written meanwhile, reports whether anything is left and goes on with it.
\<close>

theorem channel_write_round:
  fixes i :: nat
  assumes "check_if_val_contains_bit (ch_flag ch) close_flag"
    and "\<forall>i < length (ch_write_buffers ch). bytes_at m (ptrs ! i) (length (ch_write_buffers ch ! i)) = ch_write_buffers ch ! i"
    and "length (concat (ch_write_buffers ch)) < 2 ^ 31"
    and "0 < k" and "sum_list ks + k = length (concat (ch_write_buffers ch))"
    and "check_if_val_contains_bit (ch_flag chan) close_flag"
    and "ch_write_buffers chan = ch_write_buffers ch @ later"
  defines "op \<equiv> operation_write_base i (write_bufs ptrs (ch_write_buffers ch))"
    and "n \<equiv> int (length (concat (ch_write_buffers ch)))"
  shows "map (buffer_bytes m) (op_buffers op) = last (ch_writing (write_remains ch)) \<and>
    \<not> fst (feed post_write_impl op ks) \<and>
    transmit m op ks = take (sum_list ks) (concat (ch_write_buffers ch)) \<and>
    transmit m op (ks @ [k]) = concat (ch_write_buffers ch) \<and>
    (\<exists>op' ch'. feed post_write_impl op (ks @ [k]) = (True, op') \<and> op_count op' = n \<and>
       handle_write (op_error op') (op_count op') chan =
         (Fire_Head (On_Write n (concat later = [])) # (if concat later = [] then [] else [Write_Remains]), ch') \<and>
       concat (ch_write_buffers ch') = concat later)"
proof -
  have bufs: "op_buffers op = write_bufs ptrs (ch_write_buffers ch)" and op0: "op_count op = 0" "\<not> has_error (op_error op)"
    by (simp_all add: op_def operation_write_base_def operation_ctor_def has_error_def error_code_ctor_def
        error_success_def tcode_error_def)
  have w: "map (buffer_bytes m) (op_buffers op) = last (ch_writing (write_remains ch))"
    using write_bufs_show [OF assms(2,3)] assms(1) bufs by (simp add: write_remains_def Let_def)
  then have g: "gathered m (op_buffers op) = concat (ch_write_buffers ch)"
    using write_remains_offers [OF assms(1)] by (simp add: gathered_def)
  then have tl: "total_len (op_buffers op) = length (concat (ch_write_buffers ch))" using length_gathered by metis
  have ok: "transfer_ok (length (concat (ch_write_buffers ch))) op" using assms(3) op0 tl by (simp add: transfer_ok_def)
  obtain op' where f: "\<not> fst (feed post_write_impl op ks)" "feed post_write_impl op (ks @ [k]) = (True, op')"
      "op_count op' = n" "\<not> has_error (op_error op')"
    using feed_completes [OF _ ok assms(4), of post_write_impl ks] assms(5) tl n_def by auto
  have t: "transmit m op ks = take (sum_list ks) (concat (ch_write_buffers ch))"
    "transmit m op (ks @ [k]) = concat (ch_write_buffers ch)"
    using transmit_takes [OF ok, of ks m] transmit_takes [OF ok, of "ks @ [k]" m] assms(5) tl g by simp_all
  have "concat (ch_write_buffers chan) = concat (ch_write_buffers ch) @ concat later" using assms(7) by simp
  from handle_write_stream [OF assms(6) f(4) this] w t f show ?thesis unfolding n_def by auto
qed

text \<open>Two byte buffers at the addresses 100 and 200; the socket takes three bytes and then one.\<close>

definition demo_mem :: "int \<Rightarrow> byte" where
  "demo_mem a = (if a < 200 then word_of_int (a - 99) else word_of_int (a - 197))"

theorem channel_write_round_witness:
  "transmit demo_mem (operation_write_base 1 (write_bufs [100, 200] [[1, 2], [3, 4]])) [3, 1] = [1, 2, 3, 4] \<and>
   (\<exists>op' ch'. feed post_write_impl (operation_write_base 1 (write_bufs [100, 200] [[1, 2], [3, 4 :: byte]])) [3, 1] = (True, op') \<and>
     handle_write (op_error op') (op_count op') (demo_channel\<lparr>ch_write_buffers := [[1, 2], [3, 4], [5]]\<rparr>) =
       ([Fire_Head (On_Write 4 False), Write_Remains], ch') \<and> concat (ch_write_buffers ch') = [5])"
proof -
  let ?ch = "demo_channel\<lparr>ch_write_buffers := [[1, 2], [3, 4 :: byte]]\<rparr>"
  let ?chan = "demo_channel\<lparr>ch_write_buffers := [[1, 2], [3, 4 :: byte], [5]]\<rparr>"
  have o: "check_if_val_contains_bit (ch_flag ?ch) close_flag" "check_if_val_contains_bit (ch_flag ?chan) close_flag"
    by (simp_all add: check_if_val_contains_bit_def demo_channel_def channel_add_ref_def channel_ctor_def
        error_flag_def close_flag_def)
  have m: "\<forall>i < length (ch_write_buffers ?ch). bytes_at demo_mem ([100, 200] ! i) (length (ch_write_buffers ?ch ! i)) = ch_write_buffers ?ch ! i"
    by (simp add: numeral_2_eq_2 less_Suc_eq bytes_at_def demo_mem_def)
  from channel_write_round [where ch = ?ch and ptrs = "[100, 200]" and m = demo_mem and k = 1 and ks = "[3]" and
      chan = ?chan and later = "[[5]]" and i = 1] o m show ?thesis by (simp del: feed.simps transmit.simps) metis
qed

end
